(* ===== verification/Prelude.thy ===== *)
theory Prelude
  imports Complex_Main "HOL-Library.Sublist"
begin

text \<open>
  Shared vocabulary of the development: the type synonyms every component uses, the HTTP and
  Python errors that handlers raise, Python's decimal formatting and parsing of integers, the
  relational operations the repositories are built from (a table is a list of rows), and the
  generic transition-system locale from which each component's invariant is lifted to all its
  reachable states.

  Times are microseconds since the epoch, as Python's aware \<open>datetime\<close> holds them; a
  \<open>timedelta\<close> is a number of microseconds. Identifiers (UUIDs) are natural numbers: only their
  equality matters. Python floats that the code does arithmetic on are real numbers, so rounding
  is not modelled.
\<close>

section \<open>Types\<close>

type_synonym uuid = nat
type_synonym time = int

text \<open>An \<open>HTTPException\<close>: its status code and its detail.\<close>

datatype http_error = HTTP (http_status: nat) (http_detail: string)

abbreviation seconds :: "int \<Rightarrow> time" where
  "seconds n \<equiv> n * 1000000"

section \<open>Collections of facts\<close>

named_theorems table_simps \<open>how the relational operations act on rows and counts\<close>
named_theorems frame_simps \<open>which tables an operation leaves as they are\<close>

section \<open>Python integers in decimal\<close>

definition is_digit :: "char \<Rightarrow> bool" where
  "is_digit c \<longleftrightarrow> 48 \<le> (of_char c :: nat) \<and> (of_char c :: nat) \<le> 57"

definition digit_value :: "char \<Rightarrow> nat" where
  "digit_value c = of_char c - 48"

definition digit_char :: "nat \<Rightarrow> char" where
  "digit_char d = char_of (48 + d)"

definition digits_value :: "string \<Rightarrow> nat" where
  "digits_value s = foldl (\<lambda>n c. 10 * n + digit_value c) 0 s"

fun show_nat :: "nat \<Rightarrow> string" where
  "show_nat n = (if n < 10 then [digit_char n] else show_nat (n div 10) @ [digit_char (n mod 10)])"

declare show_nat.simps [simp del]

definition show_int :: "int \<Rightarrow> string" where
  "show_int i = (if i < 0 then ''-'' @ show_nat (nat (- i)) else show_nat (nat i))"

lemma is_digit_digit_char [simp]: "d < 10 \<Longrightarrow> is_digit (digit_char d)"
  by (simp add: is_digit_def digit_char_def)

lemma digit_value_digit_char [simp]: "d < 10 \<Longrightarrow> digit_value (digit_char d) = d"
  by (simp add: digit_value_def digit_char_def)

lemma digits_value_Nil [simp]: "digits_value [] = 0"
  by (simp add: digits_value_def)

lemma digits_value_snoc [simp]: "digits_value (s @ [c]) = 10 * digits_value s + digit_value c"
  by (simp add: digits_value_def)

lemma show_nat_digits: "c \<in> set (show_nat n) \<Longrightarrow> is_digit c"
proof (induction n rule: show_nat.induct)
  case (1 n)
  then show ?case
    by (cases "n < 10") (auto simp: show_nat.simps [of n])
qed

lemma digits_value_show_nat [simp]: "digits_value (show_nat n) = n"
proof (induction n rule: show_nat.induct)
  case (1 n)
  then show ?case
    by (cases "n < 10") (auto simp: show_nat.simps [of n] digits_value_def)
qed

lemma show_nat_nonempty [simp]: "show_nat n \<noteq> []"
  by (subst show_nat.simps) simp

lemma length_show_nat_le: "n < 10 ^ k \<Longrightarrow> 0 < k \<Longrightarrow> length (show_nat n) \<le> k"
proof (induction k arbitrary: n)
  case 0
  then show ?case by simp
next
  case (Suc k)
  show ?case
  proof (cases "n < 10")
    case True
    then show ?thesis by (subst show_nat.simps) simp
  next
    case False
    with Suc.prems have "n div 10 < 10 ^ k" and "0 < k"
      by (auto simp: div_less_iff_less_mult) (cases k; simp)
    then have "length (show_nat (n div 10)) \<le> k"
      by (rule Suc.IH)
    with False show ?thesis by (subst show_nat.simps) simp
  qed
qed

section \<open>White space\<close>

text \<open>\<open>str.strip()\<close>: the latin-1 characters Python counts as white space.\<close>

definition py_space :: "char \<Rightarrow> bool" where
  "py_space c \<longleftrightarrow>
     (let n = of_char c :: nat in (9 \<le> n \<and> n \<le> 13) \<or> (28 \<le> n \<and> n \<le> 32) \<or> n = 133 \<or> n = 160)"

definition strip :: "string \<Rightarrow> string" where
  "strip s = rev (dropWhile py_space (rev (dropWhile py_space s)))"

section \<open>Tables\<close>

text \<open>
  A table is the list of its rows. \<open>UPDATE ... WHERE\<close> maps the rows that match,
  \<open>DELETE ... WHERE\<close> filters them out, \<open>first()\<close> of a query is \<open>find\<close>, \<open>func.count\<close>
  is \<open>count_where\<close>.
\<close>

definition update_where :: "('r \<Rightarrow> bool) \<Rightarrow> ('r \<Rightarrow> 'r) \<Rightarrow> 'r list \<Rightarrow> 'r list" where
  "update_where P f rows = map (\<lambda>r. if P r then f r else r) rows"

definition delete_where :: "('r \<Rightarrow> bool) \<Rightarrow> 'r list \<Rightarrow> 'r list" where
  "delete_where P rows = filter (\<lambda>r. \<not> P r) rows"

definition count_where :: "('r \<Rightarrow> bool) \<Rightarrow> 'r list \<Rightarrow> nat" where
  "count_where P rows = length (filter P rows)"

text \<open>A (partial) unique index: no two of the rows it covers share a key.\<close>

definition unique_index :: "('r \<Rightarrow> 'k) \<Rightarrow> ('r \<Rightarrow> bool) \<Rightarrow> 'r list \<Rightarrow> bool" where
  "unique_index key P rows \<longleftrightarrow> distinct (map key (filter P rows))"

text \<open>The first element is the first that matches.\<close>

lemma find_SomeD: "find P xs = Some x \<Longrightarrow> x \<in> set xs \<and> P x"
  by (auto simp: find_Some_iff)

lemma find_NoneD: "find P xs = None \<Longrightarrow> x \<in> set xs \<Longrightarrow> \<not> P x"
  by (auto simp: find_None_iff)

lemma find_append_none: "\<forall>x\<in>set xs. \<not> P x \<Longrightarrow> find P (xs @ ys) = find P ys"
  by (induction xs) auto

lemma count_where_Nil [simp]: "count_where P [] = 0"
  by (simp add: count_where_def)

lemma count_where_append [simp]: "count_where P (xs @ ys) = count_where P xs + count_where P ys"
  by (simp add: count_where_def)

lemma count_where_Cons [simp]:
  "count_where P (x # xs) = (if P x then Suc (count_where P xs) else count_where P xs)"
  by (simp add: count_where_def)

lemma count_where_zero [table_simps]: "count_where P xs = 0 \<longleftrightarrow> (\<forall>x\<in>set xs. \<not> P x)"
  by (auto simp: count_where_def filter_empty_conv)

lemma count_where_cong: "(\<And>x. x \<in> set xs \<Longrightarrow> P x = Q x) \<Longrightarrow> count_where P xs = count_where Q xs"
  unfolding count_where_def by (metis filter_cong)

lemma set_update_where [table_simps]:
  "set (update_where P f xs) = (\<lambda>r. if P r then f r else r) ` set xs"
  by (simp add: update_where_def)

lemma length_update_where [simp]: "length (update_where P f xs) = length xs"
  by (simp add: update_where_def)

lemma update_where_Nil [simp]: "update_where P f [] = []"
  by (simp add: update_where_def)

lemma update_where_Cons [simp]:
  "update_where P f (x # xs) = (if P x then f x else x) # update_where P f xs"
  by (simp add: update_where_def)

lemma set_delete_where [table_simps]: "set (delete_where P xs) = {x \<in> set xs. \<not> P x}"
  by (auto simp: delete_where_def)

lemma map_update_where_key [table_simps]:
  "(\<And>r. P r \<Longrightarrow> key (f r) = key r) \<Longrightarrow> map key (update_where P f xs) = map key xs"
  by (auto simp: update_where_def)

lemma filter_update_where:
  "filter Q (update_where P f xs)
     = map (\<lambda>r. if P r then f r else r) (filter (\<lambda>r. Q (if P r then f r else r)) xs)"
  by (induction xs) (auto simp: update_where_def)

lemma count_update_where [table_simps]:
  "count_where Q (update_where P f xs) = count_where (\<lambda>r. Q (if P r then f r else r)) xs"
  by (induction xs) auto

lemma distinct_map_filter: "distinct (map key xs) \<Longrightarrow> distinct (map key (filter P xs))"
  by (induction xs) auto

lemma distinct_key_eq:
  "distinct (map key xs) \<Longrightarrow> x \<in> set xs \<Longrightarrow> y \<in> set xs \<Longrightarrow> key x = key y \<Longrightarrow> x = y"
  by (induction xs) (auto simp: image_iff)

lemma count_key_le_one: "distinct (map key xs) \<Longrightarrow> count_where (\<lambda>x. key x = k) xs \<le> 1"
  by (induction xs) (auto simp: count_where_def filter_empty_conv image_iff)

lemma unique_index_delete: "unique_index key P xs \<Longrightarrow> unique_index key P (delete_where Q xs)"
  by (induction xs) (auto simp: unique_index_def delete_where_def)

lemma unique_index_update:
  assumes "unique_index key P xs"
    and "\<And>r. r \<in> set xs \<Longrightarrow> Q r \<Longrightarrow> P (f r) \<Longrightarrow> P r \<and> key (f r) = key r"
  shows "unique_index key P (update_where Q f xs)"
  using assms
proof (induction xs)
  case Nil
  then show ?case by simp
next
  case (Cons x xs)
  have "key ` {r \<in> set (update_where Q f xs). P r} \<subseteq> key ` {r \<in> set xs. P r}"
    using Cons.prems(2) by (force simp: set_update_where split: if_splits)
  moreover have "unique_index key P (update_where Q f xs)"
    using Cons by (simp add: unique_index_def split: if_splits)
  ultimately show ?case
    using Cons.prems by (auto simp: unique_index_def image_iff split: if_splits)
qed

lemma unique_indexD:
  "unique_index key P xs \<Longrightarrow> x \<in> set xs \<Longrightarrow> y \<in> set xs \<Longrightarrow> P x \<Longrightarrow> P y \<Longrightarrow> key x = key y \<Longrightarrow> x = y"
  unfolding unique_index_def by (rule distinct_key_eq [where xs = "filter P xs" and key = key]) auto

section \<open>Splitting text\<close>

text \<open>\<open>s.split(c)\<close> for a one-character separator.\<close>

fun split_on :: "char \<Rightarrow> string \<Rightarrow> string list" where
  "split_on c [] = [[]]"
| "split_on c (x # xs) =
     (if x = c then [] # split_on c xs
      else case split_on c xs of [] \<Rightarrow> [[x]] | w # ws \<Rightarrow> (x # w) # ws)"

lemma split_on_none: "c \<notin> set xs \<Longrightarrow> split_on c xs = [xs]"
  by (induction xs) auto

lemma split_on_append: "c \<notin> set xs \<Longrightarrow> split_on c (xs @ c # ys) = xs # split_on c ys"
  by (induction xs) auto

section \<open>Transition systems\<close>

text \<open>
  Every stateful component is a set of initial states and a step relation (one step per operation
  or atomic section). Reachability is the least set closed under steps, and an invariant is a
  predicate that holds initially and that every step keeps. The locale is the contract a
  component's step relation is checked against; each component interprets it with its own
  definitions and takes \<open>reach_inv\<close> from the interpretation.
\<close>

inductive reach :: "('s \<Rightarrow> bool) \<Rightarrow> ('s \<Rightarrow> 's \<Rightarrow> bool) \<Rightarrow> 's \<Rightarrow> bool" for init step where
  reach_init: "init s \<Longrightarrow> reach init step s"
| reach_step: "reach init step s \<Longrightarrow> step s t \<Longrightarrow> reach init step t"

inductive steps :: "('s \<Rightarrow> 's \<Rightarrow> bool) \<Rightarrow> 's \<Rightarrow> 's \<Rightarrow> bool" for step where
  steps_refl: "steps step s s"
| steps_step: "steps step s t \<Longrightarrow> step t u \<Longrightarrow> steps step s u"

lemma steps_reach: "steps step s t \<Longrightarrow> reach init step s \<Longrightarrow> reach init step t"
  by (induction rule: steps.induct) (auto intro: reach_step)

locale invariant_system =
  fixes start :: "'s \<Rightarrow> bool"
    and step :: "'s \<Rightarrow> 's \<Rightarrow> bool"
    and inv :: "'s \<Rightarrow> bool"
  assumes inv_start: "start s \<Longrightarrow> inv s"
    and inv_step: "inv s \<Longrightarrow> step s t \<Longrightarrow> inv t"
begin

lemma reach_inv: "reach start step s \<Longrightarrow> inv s"
  by (induction rule: reach.induct) (auto intro: inv_start inv_step)

lemma steps_inv: "steps step s t \<Longrightarrow> inv s \<Longrightarrow> inv t"
  by (induction rule: steps.induct) (auto intro: inv_step)

end

text \<open>
  A measured system: a quantity every step lets only grow (a clock, a counter, a log). Used for
  the monotone parts of a component's state.
\<close>

locale monotone_system =
  fixes step :: "'s \<Rightarrow> 's \<Rightarrow> bool"
    and leq :: "'m \<Rightarrow> 'm \<Rightarrow> bool"
    and meas :: "'s \<Rightarrow> 'm"
  assumes leq_refl: "leq x x"
    and leq_trans: "leq x y \<Longrightarrow> leq y z \<Longrightarrow> leq x z"
    and step_grows: "step s t \<Longrightarrow> leq (meas s) (meas t)"
begin

lemma steps_grow: "steps step s t \<Longrightarrow> leq (meas s) (meas t)"
  by (induction rule: steps.induct) (auto intro: leq_refl leq_trans step_grows)

end

end
