(* ===== verification/Ranges.thy ===== *)
theory Ranges
  imports Prelude
begin

text \<open>
  \<open>WebApp/backend/app/core/ranges.py\<close>: an HTTP Range header is parsed into an inclusive byte
  range of a file, and the file, or that part of it, is served. Header bytes are characters
  (Starlette decodes headers as latin-1); a file is the list of its bytes. \<open>int()\<close> refuses a
  literal of more than 4300 digits with a \<open>ValueError\<close>, as CPython 3.12 does.
\<close>

section \<open>Parsing the header\<close>

datatype range_error = Unsatisfiable | ValueError

definition bytes_prefix :: string where
  "bytes_prefix = ''bytes=''"

text \<open>\<open>re.compile(r"([0-9]*)-([0-9]*)").fullmatch\<close>: its two groups.\<close>

definition match_range :: "string \<Rightarrow> (string \<times> string) option" where
  "match_range s =
     (case dropWhile is_digit s of
        [] \<Rightarrow> None
      | c # last_g \<Rightarrow>
          if c = CHR ''-'' \<and> list_all is_digit last_g then Some (takeWhile is_digit s, last_g) else None)"

definition max_int_digits :: nat where
  "max_int_digits = 4300"

definition py_int :: "string \<Rightarrow> range_error + int" where
  "py_int s = (if length s > max_int_digits then Inl ValueError else Inr (int (digits_value s)))"

definition parse_range :: "string option \<Rightarrow> int \<Rightarrow> range_error + (int \<times> int) option" where
  "parse_range header sz =
     (case header of
        None \<Rightarrow> Inr None
      | Some h \<Rightarrow>
          if \<not> prefix bytes_prefix h then Inr None
          else case match_range (strip (takeWhile (\<lambda>c. c \<noteq> CHR '','') (drop (length bytes_prefix) h))) of
            None \<Rightarrow> Inr None
          | Some (first, last_g) \<Rightarrow>
              if first = [] \<and> last_g = [] then Inr None
              else if first = [] then
                (case py_int last_g of
                   Inl e \<Rightarrow> Inl e
                 | Inr n \<Rightarrow> if n \<le> 0 then Inl Unsatisfiable else Inr (Some (max (sz - n) 0, sz - 1)))
              else
                (case py_int first of
                   Inl e \<Rightarrow> Inl e
                 | Inr start \<Rightarrow>
                     (case (if last_g = [] then Inr (sz - 1) else py_int last_g) of
                        Inl e \<Rightarrow> Inl e
                      | Inr end' \<Rightarrow>
                          if start \<ge> sz \<or> start > end' then Inl Unsatisfiable
                          else Inr (Some (start, min end' (sz - 1))))))"

section \<open>Reading the part\<close>

definition CHUNK :: nat where
  "CHUNK = 256 * 1024"

text \<open>
  \<open>_read\<close>: seeks to \<open>start\<close> and yields chunks of at most \<open>CHUNK\<close> bytes until
  \<open>remaining\<close> bytes are read, or the file ends. \<open>f.read(n)\<close> of an open regular file gives the
  next \<open>n\<close> bytes, fewer only at its end. The argument is what is left of the file after the seek.
\<close>

function read_chunks :: "nat list \<Rightarrow> nat \<Rightarrow> nat list list" where
  "read_chunks contents remaining =
     (if remaining = 0 then []
      else let data = take (min CHUNK remaining) contents in
           if data = [] then []
           else data # read_chunks (drop (length data) contents) (remaining - length data))"
  by pat_completeness auto
termination
  by (relation "measure snd") (auto simp: CHUNK_def)

declare read_chunks.simps [simp del]

definition read_part :: "nat list \<Rightarrow> int \<Rightarrow> int \<Rightarrow> nat list list" where
  "read_part contents start end' = read_chunks (drop (nat start) contents) (nat (end' - start + 1))"

section \<open>The response\<close>

record file_answer =
  fa_status :: nat
  fa_body :: "nat list list"
  fa_accept_ranges :: bool
  fa_content_range :: "string option"
  fa_content_length :: "int option"

text \<open>
  \<open>sz\<close> is the size of the file when it was looked at, \<open>contents\<close> its bytes when they are read:
  the cache may change the file in between. \<open>FileResponse\<close> sends the whole file.
\<close>

definition file_response :: "nat list \<Rightarrow> int \<Rightarrow> string option \<Rightarrow> range_error + file_answer" where
  "file_response contents sz range_header =
     (case parse_range range_header sz of
        Inl Unsatisfiable \<Rightarrow>
          Inr \<lparr>fa_status = 416, fa_body = [], fa_accept_ranges = False,
               fa_content_range = Some (''bytes */'' @ show_int sz), fa_content_length = None\<rparr>
      | Inl e \<Rightarrow> Inl e
      | Inr None \<Rightarrow>
          Inr \<lparr>fa_status = 200, fa_body = [contents], fa_accept_ranges = True,
               fa_content_range = None, fa_content_length = None\<rparr>
      | Inr (Some (start, end')) \<Rightarrow>
          Inr \<lparr>fa_status = 206, fa_body = read_part contents start end', fa_accept_ranges = True,
               fa_content_range =
                 Some (''bytes '' @ show_int start @ ''-'' @ show_int end' @ ''/'' @ show_int sz),
               fa_content_length = Some (end' - start + 1)\<rparr>)"

section \<open>Lemmas\<close>

lemma take_chunk:
  "take (min k n) xs @ take (n - length (take (min k n) xs)) (drop (length (take (min k n) xs)) xs)
     = take n xs"
  by (cases "length xs \<le> min k n") (auto simp: min_def take_add [symmetric] simp del: take_append split: if_splits)

lemma concat_read_chunks: "concat (read_chunks contents remaining) = take remaining contents"
proof (induction contents remaining rule: read_chunks.induct)
  case (1 contents remaining)
  show ?case
  proof (cases "remaining = 0 \<or> contents = []")
    case True
    then show ?thesis by (auto simp: read_chunks.simps [of contents remaining])
  next
    case False
    let ?data = "take (min CHUNK remaining) contents"
    have ne: "?data \<noteq> []" using False by (simp add: CHUNK_def)
    have "concat (read_chunks contents remaining)
            = ?data @ take (remaining - length ?data) (drop (length ?data) contents)"
      using False ne "1.IH" by (simp add: read_chunks.simps [of contents remaining] Let_def)
    also have "\<dots> = take remaining contents"
      by (rule take_chunk)
    finally show ?thesis .
  qed
qed

lemma read_chunks_size: "c \<in> set (read_chunks contents remaining) \<Longrightarrow> c \<noteq> [] \<and> length c \<le> CHUNK"
proof (induction contents remaining rule: read_chunks.induct)
  case (1 contents remaining)
  then show ?case
    by (subst (asm) (2) read_chunks.simps) (auto simp: Let_def split: if_splits)
qed

lemma takeWhile_digits:
  assumes "list_all is_digit ds" and "\<not> is_digit c"
  shows "takeWhile is_digit (ds @ c # r) = ds" "dropWhile is_digit (ds @ c # r) = c # r"
  using assms by (induction ds) auto

lemma dash_no_digit [simp]: "\<not> is_digit (CHR ''-'')"
  by (simp add: is_digit_def)

lemma match_range_digits:
  assumes "list_all is_digit first" and "list_all is_digit last_g"
  shows "match_range (first @ CHR ''-'' # last_g) = Some (first, last_g)"
  using assms by (simp add: match_range_def takeWhile_digits)

lemma show_nat_all_digits: "list_all is_digit (show_nat n)"
  by (auto simp: list_all_iff dest: show_nat_digits)

text \<open>A range of digits and a dash holds neither a comma nor white space, so it reaches the match whole.\<close>

lemma digit_or_dash_plain:
  "is_digit c \<or> c = CHR ''-'' \<Longrightarrow> c \<noteq> CHR '','' \<and> \<not> py_space c"
  by (auto simp: is_digit_def py_space_def Let_def)

lemma strip_plain: "list_all (\<lambda>c. \<not> py_space c) s \<Longrightarrow> strip s = s"
proof -
  have *: "list_all (\<lambda>c. \<not> py_space c) t \<Longrightarrow> dropWhile py_space t = t" for t
    by (cases t) auto
  assume "list_all (\<lambda>c. \<not> py_space c) s"
  then show ?thesis by (simp add: strip_def *)
qed

lemma range_spec_plain:
  assumes "list_all is_digit first" and "list_all is_digit last_g"
  shows "strip (takeWhile (\<lambda>c. c \<noteq> CHR '','') (first @ CHR ''-'' # last_g)) = first @ CHR ''-'' # last_g"
proof -
  let ?s = "first @ CHR ''-'' # last_g"
  have "\<forall>c\<in>set ?s. c \<noteq> CHR '','' \<and> \<not> py_space c"
    using assms digit_or_dash_plain by (auto simp: list_all_iff)
  then have "takeWhile (\<lambda>c. c \<noteq> CHR '','') ?s = ?s" and "list_all (\<lambda>c. \<not> py_space c) ?s"
    by (simp_all add: list_all_iff takeWhile_eq_all_conv)
  then show ?thesis by (simp only: strip_plain)
qed

lemma parse_range_spec:
  assumes "list_all is_digit first" and "list_all is_digit last_g" and "first \<noteq> []"
  shows "parse_range (Some (bytes_prefix @ first @ CHR ''-'' # last_g)) sz =
    (case py_int first of
       Inl e \<Rightarrow> Inl e
     | Inr start \<Rightarrow>
         (case (if last_g = [] then Inr (sz - 1) else py_int last_g) of
            Inl e \<Rightarrow> Inl e
          | Inr end' \<Rightarrow>
              if start \<ge> sz \<or> start > end' then Inl Unsatisfiable
              else Inr (Some (start, min end' (sz - 1)))))"
  using assms(3)
  by (simp add: parse_range_def range_spec_plain [OF assms(1,2)] match_range_digits [OF assms(1,2)])

lemma max_int_digits_pos: "0 < max_int_digits"
  by (simp add: max_int_digits_def)

lemma py_int_show_nat: "n < 10 ^ max_int_digits \<Longrightarrow> py_int (show_nat n) = Inr (int n)"
  using length_show_nat_le [of n max_int_digits] max_int_digits_pos by (simp add: py_int_def)

section \<open>Properties\<close>

text \<open>
  What parse_range accepts lies inside the file: for a file that is not empty, a parsed range
  starts at or after 0, is not empty and ends before the size.
\<close>

theorem parse_range_within_file:
  assumes "parse_range header sz = Inr (Some (start, end'))" and "0 < sz"
  shows "0 \<le> start \<and> start \<le> end' \<and> end' < sz"
  using assms
  by (auto simp: parse_range_def py_int_def split: option.splits if_splits sum.splits)

theorem parse_range_within_file_witness:
  "parse_range (Some ''bytes=2-'') 10 = Inr (Some (2, 9)) \<and> (0::int) \<le> 2 \<and> (2::int) \<le> 9 \<and> (9::int) < 10"
proof -
  have *: "parse_range (Some ''bytes=2-'') 10 = Inr (Some (2, 9))"
    by code_simp
  show ?thesis using * parse_range_within_file [OF *] by simp
qed

text \<open>
  A player that asks for the bytes a to b of a file gets exactly those: the answer is 206,
  its chunks joined are the file from a to b, Content-Length is their number and Content-Range
  names a, b and the size. The range header is written as a client writes it, in decimal.
\<close>

theorem file_response_serves_range:
  assumes "a \<le> b" and "b < length contents" and "length contents < 10 ^ max_int_digits"
  shows "\<exists>answer.
    file_response contents (int (length contents))
      (Some (bytes_prefix @ show_nat a @ ''-'' @ show_nat b)) = Inr answer
    \<and> fa_status answer = 206
    \<and> concat (fa_body answer) = take (b - a + 1) (drop a contents)
    \<and> (\<forall>chunk\<in>set (fa_body answer). length chunk \<le> CHUNK)
    \<and> fa_content_length answer = Some (int (length (concat (fa_body answer))))
    \<and> fa_content_range answer =
        Some (''bytes '' @ show_nat a @ ''-'' @ show_nat b @ ''/'' @ show_nat (length contents))"
proof -
  have "a < 10 ^ max_int_digits" and "b < 10 ^ max_int_digits"
    using assms by linarith+
  then have "parse_range (Some (bytes_prefix @ show_nat a @ ''-'' @ show_nat b)) (int (length contents))
      = Inr (Some (int a, int b))"
    using assms(1,2)
    by (simp add: parse_range_spec [OF show_nat_all_digits show_nat_all_digits] py_int_show_nat)
  moreover have "nat (int b - int a + 1) = b - a + 1"
    using assms(1) by simp
  ultimately show ?thesis
    using assms
    by (auto simp: file_response_def read_part_def concat_read_chunks show_int_def
        dest: read_chunks_size)
qed

theorem file_response_serves_range_witness:
  "\<exists>answer. file_response [10, 20, 30, 40, 50] 5 (Some ''bytes=1-3'') = Inr answer
     \<and> concat (fa_body answer) = [20, 30, 40] \<and> fa_content_range answer = Some ''bytes 1-3/5''"
proof -
  have big: "length [10, 20, 30, 40, 50 :: nat] < 10 ^ max_int_digits"
    using power_increasing [of 1 max_int_digits "10::nat"] max_int_digits_pos by simp
  have shown: "show_nat (Suc 0) = ''1''" "show_nat 3 = ''3''" "show_nat (Suc (Suc (Suc (Suc (Suc 0))))) = ''5''"
    by code_simp+
  show ?thesis
    using file_response_serves_range [OF _ _ big, of 1 3] by (auto simp: shown bytes_prefix_def)
qed

text \<open>
  A range whose first position has more than 4300 digits is not taken as malformed: parse_range
  raises ValueError for it, whatever the size of the file, where the documentation promises the
  whole file or Unsatisfiable.
\<close>

theorem parse_range_long_number:
  assumes "list_all is_digit digits" and "length digits > max_int_digits"
  shows "parse_range (Some (bytes_prefix @ digits @ ''-'')) sz = Inl ValueError"
proof -
  have "digits \<noteq> []" using assms(2) by auto
  then show ?thesis
    using parse_range_spec [OF assms(1), of "[]" sz] assms(2) by (simp add: py_int_def)
qed

theorem parse_range_long_number_witness:
  "parse_range (Some (bytes_prefix @ replicate 4301 (CHR ''9'') @ ''-'')) 1000 = Inl ValueError"
  by (rule parse_range_long_number) (simp_all add: list_all_iff is_digit_def max_int_digits_def)

end
