(* ===== verification/Py_Float.thy ===== *)
theory Py_Float
  imports Prelude
begin

text \<open>
  Python's floats, where infinities and NaN matter: read from JSON, from the command line, or unpacked
  from a packet. A finite float is its real number, without rounding or overflow; the operations give
  infinities and NaN as IEEE 754 has them, and every comparison with NaN is false.
\<close>

datatype py_float = Finite real | NaN | Infinity bool

text \<open>\<open>Infinity True\<close> is the positive one.\<close>

fun is_finite :: "py_float \<Rightarrow> bool" where
  "is_finite (Finite _) = True"
| "is_finite NaN = False"
| "is_finite (Infinity _) = False"

fun finite_value :: "py_float \<Rightarrow> real" where
  "finite_value (Finite x) = x"
| "finite_value NaN = 0"
| "finite_value (Infinity _) = 0"

instantiation py_float :: "{zero, plus, uminus, minus, times, abs, ord}"
begin

definition zero_py_float :: py_float where
  "0 = Finite 0"

fun plus_py_float :: "py_float \<Rightarrow> py_float \<Rightarrow> py_float" where
  "Finite x + Finite y = Finite (x + y)"
| "NaN + y = NaN"
| "x + NaN = NaN"
| "Infinity a + Infinity b = (if a = b then Infinity a else NaN)"
| "Infinity a + Finite y = Infinity a"
| "Finite x + Infinity b = Infinity b"

fun uminus_py_float :: "py_float \<Rightarrow> py_float" where
  "- Finite x = Finite (- x)"
| "- NaN = NaN"
| "- Infinity a = Infinity (\<not> a)"

definition minus_py_float :: "py_float \<Rightarrow> py_float \<Rightarrow> py_float" where
  "x - y = x + - (y :: py_float)"

fun times_py_float :: "py_float \<Rightarrow> py_float \<Rightarrow> py_float" where
  "Finite x * Finite y = Finite (x * y)"
| "NaN * y = NaN"
| "x * NaN = NaN"
| "Infinity a * Infinity b = Infinity (a = b)"
| "Infinity a * Finite y = (if y = 0 then NaN else Infinity (a = (0 < y)))"
| "Finite x * Infinity b = (if x = 0 then NaN else Infinity (b = (0 < x)))"

fun abs_py_float :: "py_float \<Rightarrow> py_float" where
  "\<bar>Finite x\<bar> = Finite \<bar>x\<bar>"
| "\<bar>NaN\<bar> = NaN"
| "\<bar>Infinity a\<bar> = Infinity True"

fun less_py_float :: "py_float \<Rightarrow> py_float \<Rightarrow> bool" where
  "Finite x < Finite y \<longleftrightarrow> x < y"
| "NaN < y \<longleftrightarrow> False"
| "x < NaN \<longleftrightarrow> False"
| "Infinity a < Infinity b \<longleftrightarrow> \<not> a \<and> b"
| "Infinity a < Finite y \<longleftrightarrow> \<not> a"
| "Finite x < Infinity b \<longleftrightarrow> b"

definition less_eq_py_float :: "py_float \<Rightarrow> py_float \<Rightarrow> bool" where
  "x \<le> y \<longleftrightarrow> x < y \<or> x = y \<and> x \<noteq> (NaN :: py_float)"

instance ..

end

text \<open>Python's \<open>min\<close> and \<open>max\<close> of two values: the first unless the second is below, or above.\<close>

definition py_min :: "py_float \<Rightarrow> py_float \<Rightarrow> py_float" where
  "py_min x y = (if y < x then y else x)"

definition py_max :: "py_float \<Rightarrow> py_float \<Rightarrow> py_float" where
  "py_max x y = (if x < y then y else x)"

lemma py_float_simps [simp]:
  "Finite x - Finite y = Finite (x - y)"
  "Finite x \<le> Finite y \<longleftrightarrow> x \<le> y"
  "py_min (Finite x) (Finite y) = Finite (min x y)" "py_max (Finite x) (Finite y) = Finite (max x y)"
  by (auto simp: minus_py_float_def less_eq_py_float_def py_min_def py_max_def)

lemma not_less_NaN [simp]: "\<not> x < NaN"
  by (cases x) simp_all

lemma plus_NaN [simp]: "x + NaN = NaN"
  by (cases x) simp_all

lemma times_NaN [simp]: "x * NaN = NaN"
  by (cases x) simp_all

lemma minus_NaN [simp]: "NaN - x = NaN" "x - NaN = NaN"
  by (simp_all add: minus_py_float_def)

lemma py_min_NaN [simp]: "py_min NaN x = NaN" "py_min x NaN = x"
  by (simp_all add: py_min_def)

lemma py_max_NaN [simp]: "py_max NaN x = NaN" "py_max x NaN = x"
  by (simp_all add: py_max_def)

lemma abs_not_negative: "\<not> \<bar>x\<bar> < (0 :: py_float)"
  by (cases x) (simp_all add: zero_py_float_def)

end
