(* ===== verification/Schemas.thy ===== *)
theory Schemas
  imports Py_Float "HOL-Library.Word"
begin

text \<open>
  \<open>WebApp/backend/app/schemas/*.py\<close>: the request and response bodies, as records, and the
  validators that decide which request bodies reach a handler. A request body is modelled twice
  where validation matters: the payload as it arrives (floats that may be NaN or infinite, time
  stamps that may be naive) and the validated body the handler works on. What Pydantic itself
  parses (JSON, ISO 8601, dotted addresses) is done before the payload; the answer of a refused
  payload is the list of the refused fields (HTTP 422).
\<close>

section \<open>Sessions\<close>

datatype status = Active | Completed

record session_create =
  sc_name :: string
  sc_record :: bool
  sc_camera_id :: "uuid option"

record session_update =
  su_name :: "string option"
  su_status :: "status option"
  su_record :: "bool option"

text \<open>\<open>Detection\<close>: whether a Run of the Detection Service watches the Session.\<close>

datatype det_state = DNone | Starting | Watching | Not_watching | Ending | End_unconfirmed

datatype det_reason = Service_down | Stream_failed | Other_session | Camera_disabled

record detection =
  det_state :: det_state
  det_reason :: "det_reason option"
  det_detail :: "string option"

record group_stats =
  g_target_index :: int
  g_n :: nat
  g_mpi_x_mm :: real
  g_mpi_y_mm :: real
  g_cep_mm :: "real option"
  g_mean_radius_mm :: "real option"
  g_rms_radius_mm :: "real option"
  g_extreme_spread_mm :: "real option"

record grouping_stats =
  gr_groups :: "group_stats list"
  gr_misses :: nat
  gr_without_position :: nat

section \<open>Bullet Holes\<close>

datatype hole_source = Model | Manual

text \<open>A JSON number, as Python's \<open>float\<close> reads it.\<close>

type_synonym json_float = py_float

text \<open>A parsed time stamp: with a UTC offset, or without one.\<close>

datatype timestamp = Aware time | Naive time

record bullet_payload =
  bp_version :: string
  bp_first_seen_at :: timestamp
  bp_x :: json_float
  bp_y :: json_float
  bp_target_index :: "int option"
  bp_x_mm :: "json_float option"
  bp_y_mm :: "json_float option"
  bp_source :: hole_source
  bp_idempotency_key :: "string option"

record bullet_create =
  bc_first_seen_at :: time
  bc_position_x :: real
  bc_position_y :: real
  bc_target_index :: "int option"
  bc_x_mm :: "real option"
  bc_y_mm :: "real option"
  bc_source :: hole_source
  bc_idempotency_key :: "string option"

definition version_must_be_v1 :: "string \<Rightarrow> bool" where
  "version_must_be_v1 v \<longleftrightarrow> v = ''v1''"

definition must_be_finite :: "json_float option \<Rightarrow> bool" where
  "must_be_finite v \<longleftrightarrow> (case v of None \<Rightarrow> True | Some x \<Rightarrow> is_finite x)"

fun aware :: "timestamp \<Rightarrow> time option" where
  "aware (Aware t) = Some t"
| "aware (Naive t) = None"

lemma aware_Some [simp]: "aware t = Some y \<longleftrightarrow> t = Aware y"
  by (cases t) auto

definition bullet_problems :: "bullet_payload \<Rightarrow> string list" where
  "bullet_problems p =
     (if version_must_be_v1 (bp_version p) then [] else [''version''])
     @ (if aware (bp_first_seen_at p) = None then [''first_seen_at''] else [])
     @ (if is_finite (bp_x p) then [] else [''position.x''])
     @ (if is_finite (bp_y p) then [] else [''position.y''])
     @ (if must_be_finite (bp_x_mm p) then [] else [''x_mm''])
     @ (if must_be_finite (bp_y_mm p) then [] else [''y_mm''])"

definition validate_bullet :: "bullet_payload \<Rightarrow> string list + bullet_create" where
  "validate_bullet p =
     (case bullet_problems p of
        [] \<Rightarrow>
          Inr \<lparr>bc_first_seen_at = the (aware (bp_first_seen_at p)),
               bc_position_x = finite_value (bp_x p),
               bc_position_y = finite_value (bp_y p),
               bc_target_index = bp_target_index p,
               bc_x_mm = map_option finite_value (bp_x_mm p),
               bc_y_mm = map_option finite_value (bp_y_mm p),
               bc_source = bp_source p,
               bc_idempotency_key = bp_idempotency_key p\<rparr>
      | problems \<Rightarrow> Inl problems)"

section \<open>Cameras\<close>

text \<open>An IPv4 address is its 32 bits; \<open>str()\<close> writes it as four decimal octets.\<close>

type_synonym ipv4 = "32 word"

definition is_multicast :: "ipv4 \<Rightarrow> bool" where
  "is_multicast ip \<longleftrightarrow> drop_bit 28 ip = 14"

definition octet :: "nat \<Rightarrow> ipv4 \<Rightarrow> nat" where
  "octet k ip = unat (drop_bit (8 * k) ip) mod 256"

definition show_ipv4 :: "ipv4 \<Rightarrow> string" where
  "show_ipv4 ip =
     show_nat (octet 3 ip) @ ''.'' @ show_nat (octet 2 ip) @ ''.''
     @ show_nat (octet 1 ip) @ ''.'' @ show_nat (octet 0 ip)"

definition is_alnum :: "char \<Rightarrow> bool" where
  "is_alnum c \<longleftrightarrow>
     (let n = of_char c :: nat in
      (48 \<le> n \<and> n \<le> 57) \<or> (65 \<le> n \<and> n \<le> 90) \<or> (97 \<le> n \<and> n \<le> 122))"

definition alias_ok :: "string \<Rightarrow> bool" where
  "alias_ok s \<longleftrightarrow>
     (case s of
        [] \<Rightarrow> False
      | c # cs \<Rightarrow>
          is_alnum c \<and> 1 \<le> length cs \<and> length cs \<le> 62
          \<and> list_all (\<lambda>d. is_alnum d \<or> d = CHR ''_'' \<or> d = CHR ''-'') cs)"

definition iface_char :: "char \<Rightarrow> bool" where
  "iface_char c \<longleftrightarrow> is_alnum c \<or> c \<in> set ''._:-''"

definition iface_ok :: "string \<Rightarrow> bool" where
  "iface_ok s \<longleftrightarrow> 1 \<le> length s \<and> length s \<le> 32 \<and> list_all iface_char s"

text \<open>\<open>not value.strip()\<close>: only white space.\<close>

definition blank :: "string \<Rightarrow> bool" where
  "blank s \<longleftrightarrow> strip s = []"

definition blank_to_none :: "string option \<Rightarrow> string option" where
  "blank_to_none v = (case v of Some s \<Rightarrow> if blank s then None else Some s | None \<Rightarrow> None)"

record camera_payload =
  cp_alias :: string
  cp_mcast_ip :: ipv4
  cp_mcast_port :: int
  cp_iface :: "string option"
  cp_enabled :: bool

record camera_input =
  ci_alias :: string
  ci_mcast_ip :: ipv4
  ci_mcast_port :: int
  ci_iface :: "string option"
  ci_enabled :: bool

definition camera_problems :: "camera_payload \<Rightarrow> string list" where
  "camera_problems p =
     (if alias_ok (cp_alias p) then [] else [''alias''])
     @ (if is_multicast (cp_mcast_ip p) then [] else [''mcast_ip''])
     @ (if 1 \<le> cp_mcast_port p \<and> cp_mcast_port p \<le> 65535 then [] else [''mcast_port''])
     @ (case blank_to_none (cp_iface p) of None \<Rightarrow> [] | Some s \<Rightarrow> if iface_ok s then [] else [''iface''])"

definition validate_camera :: "camera_payload \<Rightarrow> string list + camera_input" where
  "validate_camera p =
     (case camera_problems p of
        [] \<Rightarrow>
          Inr \<lparr>ci_alias = cp_alias p, ci_mcast_ip = cp_mcast_ip p, ci_mcast_port = cp_mcast_port p,
               ci_iface = blank_to_none (cp_iface p), ci_enabled = cp_enabled p\<rparr>
      | problems \<Rightarrow> Inl problems)"

datatype camera_status = Live | No_signal | Disabled | Unreachable

section \<open>Runs and recordings\<close>

type_synonym point = "real \<times> real"
type_synonym row3 = "real \<times> real \<times> real"
type_synonym matrix3 = "row3 \<times> row3 \<times> row3"

record picture =
  pic_width :: int
  pic_height :: int

record baseline_view =
  bv_taken_at :: time
  bv_picture :: picture
  bv_template_to_picture :: matrix3
  bv_targets :: "point list list"
  bv_baseline_marks :: "point list"

record place =
  pl_at :: time
  pl_template_to_picture :: matrix3

record recording_span =
  span_start :: time
  span_duration :: time

record camera_recording =
  cr_alias :: string
  cr_spans :: "recording_span list"

record system_status =
  st_video_service :: bool
  st_detection_service :: bool

section \<open>Live events\<close>

text \<open>What is pushed to the frontends watching a Session.\<close>

datatype live_event =
    BulletCreatedEvent uuid
  | BulletDeletedEvent uuid
  | SessionUpdatedEvent string status "time option" bool
  | DetectionUpdatedEvent detection
  | RunMovedEvent time

section \<open>What validation guarantees\<close>

text \<open>
  Every character of a value that goes into the shell command of a camera's path is one of
  \<open>[A-Za-z0-9._:-]\<close>: none of them ends a double-quoted or single-quoted word or starts an
  expansion.
\<close>

definition shell_safe :: "string \<Rightarrow> bool" where
  "shell_safe s \<longleftrightarrow> s \<noteq> [] \<and> list_all iface_char s"

lemma alnum_iface [simp]: "is_alnum c \<Longrightarrow> iface_char c"
  by (simp add: iface_char_def)

lemma digit_iface: "is_digit c \<Longrightarrow> iface_char c"
  by (simp add: is_digit_def iface_char_def is_alnum_def Let_def)

lemma iface_char_extra [simp]:
  "iface_char (CHR ''.'')" "iface_char (CHR ''_'')" "iface_char (CHR ''-'')" "iface_char (CHR '':'')"
  by (simp_all add: iface_char_def)

lemma not_iface_char [simp]:
  "\<not> iface_char (CHR 0x22)" "\<not> iface_char (CHR 0x27)" "\<not> iface_char (CHR ''$'')"
  "\<not> iface_char (CHR 0x5C)" "\<not> iface_char (CHR 0x60)" "\<not> iface_char (CHR '' '')"
  "\<not> iface_char (CHR 0x0A)" "\<not> iface_char (CHR ''!'')"
  by (simp_all add: iface_char_def is_alnum_def Let_def)

lemma alias_shell_safe: "alias_ok s \<Longrightarrow> shell_safe s"
  by (cases s) (auto simp: alias_ok_def shell_safe_def list_all_iff)

lemma iface_shell_safe: "iface_ok s \<Longrightarrow> shell_safe s"
  by (auto simp: iface_ok_def shell_safe_def)

lemma show_nat_shell_safe: "shell_safe (show_nat n)"
  by (auto simp: shell_safe_def list_all_iff dest: show_nat_digits digit_iface)

lemma shell_safe_append: "shell_safe s \<Longrightarrow> shell_safe t \<Longrightarrow> shell_safe (s @ t)"
  by (simp add: shell_safe_def)

lemma show_ipv4_shell_safe: "shell_safe (show_ipv4 ip)"
  using show_nat_shell_safe by (simp add: show_ipv4_def shell_safe_def)

lemma validate_cameraD:
  assumes "validate_camera p = Inr c"
  shows "alias_ok (ci_alias c)" "is_multicast (ci_mcast_ip c)"
    "1 \<le> ci_mcast_port c" "ci_mcast_port c \<le> 65535"
    "\<And>i. ci_iface c = Some i \<Longrightarrow> iface_ok i"
  using assms
  by (auto simp: validate_camera_def camera_problems_def split: list.splits if_splits option.splits)

lemma validate_bulletD:
  assumes "validate_bullet p = Inr b"
  shows "bp_version p = ''v1''" "bp_first_seen_at p = Aware (bc_first_seen_at b)"
    "bp_x p = Finite (bc_position_x b)" "bp_y p = Finite (bc_position_y b)"
    "bp_x_mm p = map_option Finite (bc_x_mm b)" "bp_y_mm p = map_option Finite (bc_y_mm b)"
proof -
  have np: "bullet_problems p = []"
    using assms by (simp add: validate_bullet_def split: list.splits)
  then have b: "b = \<lparr>bc_first_seen_at = the (aware (bp_first_seen_at p)),
      bc_position_x = finite_value (bp_x p), bc_position_y = finite_value (bp_y p),
      bc_target_index = bp_target_index p, bc_x_mm = map_option finite_value (bp_x_mm p),
      bc_y_mm = map_option finite_value (bp_y_mm p), bc_source = bp_source p,
      bc_idempotency_key = bp_idempotency_key p\<rparr>"
    using assms by (simp add: validate_bullet_def)
  have fin: "Finite (finite_value x) = x" if "is_finite x" for x
    using that by (cases x) auto
  from np have "version_must_be_v1 (bp_version p)" "aware (bp_first_seen_at p) \<noteq> None"
    "is_finite (bp_x p)" "is_finite (bp_y p)" "must_be_finite (bp_x_mm p)" "must_be_finite (bp_y_mm p)"
    by (auto simp: bullet_problems_def split: if_splits)
  then show "bp_version p = ''v1''" "bp_first_seen_at p = Aware (bc_first_seen_at b)"
    "bp_x p = Finite (bc_position_x b)" "bp_y p = Finite (bc_position_y b)"
    "bp_x_mm p = map_option Finite (bc_x_mm b)" "bp_y_mm p = map_option Finite (bc_y_mm b)"
    by (auto simp: b fin version_must_be_v1_def must_be_finite_def split: option.splits)
qed

end
