(* ===== verification/Live_Hub.thy ===== *)
theory Live_Hub
  imports Schemas
begin

text \<open>
  \<open>WebApp/backend/app/core/live.py\<close>: the hub that feeds each frontend watching a Session with that
  Session's events through a bounded queue, cuts off a frontend that falls behind, and the
  Server-Sent Events stream that empties a queue. The hub lives on the event loop, so each of its
  methods is one atomic step. Queues are identified by numbers; \<open>None\<close> in a queue ends its stream.
\<close>

section \<open>The hub\<close>

definition QUEUE_SIZE :: nat where "QUEUE_SIZE = 256"

record 'e hub =
  subscribers :: "uuid \<Rightarrow> nat list"
  hub_queue :: "nat \<Rightarrow> 'e option list"

definition new_hub :: "'e hub" where
  "new_hub = \<lparr>subscribers = \<lambda>_. [], hub_queue = \<lambda>_. []\<rparr>"

definition subscribe :: "uuid \<Rightarrow> nat \<Rightarrow> 'e hub \<Rightarrow> 'e hub" where
  "subscribe sid q h =
     h\<lparr>subscribers := (subscribers h)(sid := q # subscribers h sid), hub_queue := (hub_queue h)(q := [])\<rparr>"

definition unsubscribe :: "uuid \<Rightarrow> nat \<Rightarrow> 'e hub \<Rightarrow> 'e hub" where
  "unsubscribe sid q h = h\<lparr>subscribers := (subscribers h)(sid := removeAll q (subscribers h sid))\<rparr>"

definition put_or_cut_off :: "uuid \<Rightarrow> 'e \<Rightarrow> nat \<Rightarrow> 'e hub \<Rightarrow> 'e hub" where
  "put_or_cut_off sid message q h =
     (if length (hub_queue h q) < QUEUE_SIZE
      then h\<lparr>hub_queue := (hub_queue h)(q := hub_queue h q @ [Some message])\<rparr>
      else let h' = unsubscribe sid q h in h'\<lparr>hub_queue := (hub_queue h')(q := [None])\<rparr>)"

definition publish :: "uuid \<Rightarrow> 'e \<Rightarrow> 'e hub \<Rightarrow> 'e hub" where
  "publish sid message h = fold (put_or_cut_off sid message) (subscribers h sid) h"

text \<open>
  \<open>event_stream\<close>: what it yields, from what each \<open>wait_for(queue.get(), PING_S)\<close> gave.
\<close>

datatype 'e wait = Got "'e option" | TimedOut

datatype 'e frame = RetryFrame | PingFrame | DataFrame 'e

fun stream_frames :: "'e wait list \<Rightarrow> 'e frame list" where
  "stream_frames [] = []"
| "stream_frames (TimedOut # ws) = PingFrame # stream_frames ws"
| "stream_frames (Got None # ws) = []"
| "stream_frames (Got (Some m) # ws) = DataFrame m # stream_frames ws"

definition event_stream :: "'e wait list \<Rightarrow> 'e frame list" where
  "event_stream ws = RetryFrame # stream_frames ws"

section \<open>What publishing does to each queue\<close>

lemma fold_put_or_cut_off:
  assumes "distinct qs"
  shows "hub_queue (fold (put_or_cut_off sid m) qs h) q =
      (if q \<in> set qs then if length (hub_queue h q) < QUEUE_SIZE then hub_queue h q @ [Some m] else [None]
       else hub_queue h q)
    \<and> subscribers (fold (put_or_cut_off sid m) qs h) t =
      (if t = sid then filter (\<lambda>q. q \<in> set qs \<longrightarrow> length (hub_queue h q) < QUEUE_SIZE) (subscribers h sid)
       else subscribers h t)"
  using assms
proof (induction qs arbitrary: h)
  case Nil
  then show ?case by simp
next
  case (Cons p qs)
  then have "p \<notin> set qs" "distinct qs" by auto
  note IH = Cons.IH [OF \<open>distinct qs\<close>, of "put_or_cut_off sid m p h"]
  have queues: "hub_queue (put_or_cut_off sid m p h) =
      (hub_queue h)(p := if length (hub_queue h p) < QUEUE_SIZE then hub_queue h p @ [Some m] else [None])"
    by (simp add: put_or_cut_off_def unsubscribe_def Let_def)
  have subs: "subscribers (put_or_cut_off sid m p h) =
      (if length (hub_queue h p) < QUEUE_SIZE then subscribers h
       else (subscribers h)(sid := removeAll p (subscribers h sid)))"
    by (simp add: put_or_cut_off_def unsubscribe_def Let_def)
  show ?case
    using IH \<open>p \<notin> set qs\<close>
    by (auto simp: queues subs removeAll_filter_not_eq intro!: filter_cong)
qed

lemma publish_queue:
  "distinct (subscribers h sid) \<Longrightarrow> hub_queue (publish sid m h) q =
     (if q \<in> set (subscribers h sid)
      then if length (hub_queue h q) < QUEUE_SIZE then hub_queue h q @ [Some m] else [None]
      else hub_queue h q)"
  by (simp add: publish_def fold_put_or_cut_off)

lemma publish_subscribers:
  "distinct (subscribers h sid) \<Longrightarrow> subscribers (publish sid m h) t =
     (if t = sid then filter (\<lambda>q. length (hub_queue h q) < QUEUE_SIZE) (subscribers h sid)
      else subscribers h t)"
  by (auto simp: publish_def fold_put_or_cut_off intro!: filter_cong)

section \<open>Streams over time\<close>

text \<open>
  The hub together with what each stream is for: its Session, the events published to that Session
  since the stream subscribed, and those it has yielded.
\<close>

record 'e live =
  l_hub :: "'e hub"
  l_known :: "nat set"
  l_session :: "nat \<Rightarrow> uuid"
  l_since :: "nat \<Rightarrow> 'e list"
  l_got :: "nat \<Rightarrow> 'e list"

definition live_start :: "'e live" where
  "live_start = \<lparr>l_hub = new_hub, l_known = {}, l_session = \<lambda>_. 0, l_since = \<lambda>_. [], l_got = \<lambda>_. []\<rparr>"

inductive live_step :: "'e live \<Rightarrow> 'e live \<Rightarrow> bool" where
  live_subscribe: "q \<notin> l_known st \<Longrightarrow>
    live_step st (st\<lparr>l_hub := subscribe sid q (l_hub st), l_known := insert q (l_known st),
      l_session := (l_session st)(q := sid), l_since := (l_since st)(q := []), l_got := (l_got st)(q := [])\<rparr>)"
| live_publish:
    "live_step st (st\<lparr>l_hub := publish sid e (l_hub st),
      l_since := \<lambda>q. if q \<in> l_known st \<and> l_session st q = sid then l_since st q @ [e] else l_since st q\<rparr>)"
| live_take: "q \<in> l_known st \<Longrightarrow> hub_queue (l_hub st) q = Some e # rest \<Longrightarrow>
    live_step st (st\<lparr>l_hub := (l_hub st)\<lparr>hub_queue := (hub_queue (l_hub st))(q := rest)\<rparr>,
      l_got := (l_got st)(q := l_got st q @ [e])\<rparr>)"
| live_end: "q \<in> l_known st \<Longrightarrow> hub_queue (l_hub st) q = None # rest \<Longrightarrow>
    live_step st (st\<lparr>l_hub := (l_hub st)\<lparr>hub_queue := (hub_queue (l_hub st))(q := rest)\<rparr>\<rparr>)"
| live_disconnect: "q \<in> l_known st \<Longrightarrow>
    live_step st (st\<lparr>l_hub := unsubscribe (l_session st q) q (l_hub st)\<rparr>)"

inductive_cases live_stepE: "live_step st st'"

definition waiting :: "'e option list \<Rightarrow> 'e list" where
  "waiting qs = map the (filter (\<lambda>x. x \<noteq> None) qs)"

text \<open>A stream the hub still feeds to the Session \<open>sid\<close>, and any stream there ever was.\<close>

definition fed :: "'e live \<Rightarrow> uuid \<Rightarrow> nat \<Rightarrow> bool" where
  "fed st sid q \<longleftrightarrow> q \<in> l_known st \<and> l_session st q = sid \<and> None \<notin> set (hub_queue (l_hub st) q)
     \<and> length (hub_queue (l_hub st) q) \<le> QUEUE_SIZE
     \<and> l_since st q = l_got st q @ waiting (hub_queue (l_hub st) q)"

definition no_gap :: "'e live \<Rightarrow> nat \<Rightarrow> bool" where
  "no_gap st q \<longleftrightarrow> prefix (l_got st q @ waiting (hub_queue (l_hub st) q)) (l_since st q)"

definition live_inv :: "'e live \<Rightarrow> bool" where
  "live_inv st \<longleftrightarrow>
     (\<forall>sid. distinct (subscribers (l_hub st) sid))
     \<and> (\<forall>sid q. q \<in> set (subscribers (l_hub st) sid) \<longrightarrow> fed st sid q)
     \<and> (\<forall>q. q \<in> l_known st \<longrightarrow> no_gap st q)"

lemma live_invI:
  "(\<And>sid. distinct (subscribers (l_hub st) sid)) \<Longrightarrow>
   (\<And>sid q. q \<in> set (subscribers (l_hub st) sid) \<Longrightarrow> fed st sid q) \<Longrightarrow>
   (\<And>q. q \<in> l_known st \<Longrightarrow> no_gap st q) \<Longrightarrow> live_inv st"
  by (simp add: live_inv_def)

lemma live_invD:
  assumes "live_inv st"
  shows "distinct (subscribers (l_hub st) sid)"
    and "q \<in> set (subscribers (l_hub st) sid) \<Longrightarrow> fed st sid q"
    and "q \<in> l_known st \<Longrightarrow> no_gap st q"
  using assms by (simp_all add: live_inv_def)

lemma waiting_simps [simp]:
  "waiting [] = []" "waiting (Some e # qs) = e # waiting qs" "waiting (None # qs) = waiting qs"
  "waiting (qs @ rs) = waiting qs @ waiting rs"
  by (simp_all add: waiting_def)

lemma live_inv_publish:
  assumes inv: "live_inv st"
  shows "live_inv (st\<lparr>l_hub := publish sid e (l_hub st),
      l_since := \<lambda>q. if q \<in> l_known st \<and> l_session st q = sid then l_since st q @ [e] else l_since st q\<rparr>)"
    (is "live_inv ?st")
proof (rule live_invI)
  note q' = publish_queue [OF live_invD(1) [OF inv]] and s' = publish_subscribers [OF live_invD(1) [OF inv]]
  show "distinct (subscribers (l_hub ?st) t)" for t
    using live_invD(1) [OF inv] by (simp add: s')
  show "fed ?st t q" if q: "q \<in> set (subscribers (l_hub ?st) t)" for t q
  proof (cases "t = sid")
    case True
    with q have "q \<in> set (subscribers (l_hub st) sid)" "length (hub_queue (l_hub st) q) < QUEUE_SIZE"
      by (simp_all add: s')
    then show ?thesis using live_invD(2) [OF inv, of q sid] True by (simp add: fed_def q')
  next
    case False
    with q have "q \<in> set (subscribers (l_hub st) t)" by (simp add: s')
    then have fed: "fed st t q" by (rule live_invD(2) [OF inv])
    then have "q \<notin> set (subscribers (l_hub st) sid)"
      using live_invD(2) [OF inv, of q sid] False by (auto simp: fed_def)
    then show ?thesis using fed False by (simp add: fed_def q')
  qed
  show "no_gap ?st q" if "q \<in> l_known ?st" for q
  proof (cases "q \<in> set (subscribers (l_hub st) sid)")
    case True
    then show ?thesis using live_invD(2) [OF inv True] by (simp add: fed_def no_gap_def q')
  next
    case False
    then show ?thesis using live_invD(3) [OF inv] that by (simp add: no_gap_def q' prefix_prefix)
  qed
qed

interpretation live: invariant_system "\<lambda>st. st = live_start" live_step live_inv
proof
  fix st :: "'e live" assume "st = live_start"
  then show "live_inv st" by (simp add: live_inv_def live_start_def new_hub_def)
next
  fix st st' :: "'e live" assume inv: "live_inv st" and step: "live_step st st'"
  note inv1 = live_invD(1) [OF inv] and inv2 = live_invD(2) [OF inv] and inv3 = live_invD(3) [OF inv]
  from step show "live_inv st'"
  proof cases
    case (live_subscribe q sid)
    have fresh: "q \<notin> set (subscribers (l_hub st) t)" for t
      using inv2 live_subscribe(2) by (auto simp: fed_def)
    show ?thesis
      unfolding live_subscribe(1)
    proof (rule live_invI, goal_cases)
      case (1 t)
      then show ?case using inv1 fresh by (simp add: subscribe_def)
    next
      case (2 t p)
      then show ?case
        using inv2 [of p t] fresh by (cases "p = q") (auto simp: subscribe_def fed_def split: if_splits)
    next
      case (3 p)
      then show ?case using inv3 [of p] by (cases "p = q") (simp_all add: subscribe_def no_gap_def)
    qed
  next
    case (live_publish sid e)
    then show ?thesis using live_inv_publish [OF inv] by simp
  next
    case (live_take q e rest)
    show ?thesis
      unfolding live_take(1)
    proof (rule live_invI, goal_cases)
      case (2 t p)
      then show ?case using inv2 [of p t] live_take(3) by (cases "p = q") (simp_all add: fed_def)
    next
      case (3 p)
      then show ?case using inv3 [of p] live_take(3) by (cases "p = q") (simp_all add: no_gap_def)
    qed (simp add: inv1)
  next
    case (live_end q rest)
    have no_sub: "q \<notin> set (subscribers (l_hub st) t)" for t
      using inv2 [of q t] live_end(3) by (auto simp: fed_def)
    show ?thesis
      unfolding live_end(1)
    proof (rule live_invI, goal_cases)
      case (2 t p)
      then show ?case using inv2 [of p t] no_sub by (cases "p = q") (simp_all add: fed_def)
    next
      case (3 p)
      then show ?case using inv3 [of p] live_end(3) by (cases "p = q") (simp_all add: no_gap_def)
    qed (simp add: inv1)
  next
    case (live_disconnect q)
    show ?thesis
      unfolding live_disconnect(1)
    proof (rule live_invI, goal_cases)
      case (2 t p)
      then show ?case using inv2 [of p t] by (simp add: fed_def unsubscribe_def split: if_splits)
    next
      case (3 p)
      then show ?case using inv3 [of p] by (simp add: no_gap_def unsubscribe_def)
    qed (simp add: inv1 unsubscribe_def distinct_removeAll)
  qed
qed

section \<open>Properties\<close>

text \<open>
  C26. However subscriptions, publications, reads and disconnections interleave, what a stream has
  yielded is an unbroken prefix of the events published to its Session since it subscribed; and as
  long as the hub feeds it, every one of those events is either yielded or waiting in its queue, in
  order, of which there are at most \<open>QUEUE_SIZE\<close>. A frontend that falls behind loses its stream, never
  an event in the middle of it.
\<close>

theorem live_streams_have_no_gaps:
  assumes "reach (\<lambda>st. st = live_start) live_step st" "q \<in> l_known st"
  shows "prefix (l_got st q) (l_since st q)
    \<and> (q \<in> set (subscribers (l_hub st) sid) \<longrightarrow>
         l_since st q = l_got st q @ waiting (hub_queue (l_hub st) q)
         \<and> length (hub_queue (l_hub st) q) \<le> QUEUE_SIZE)"
proof -
  have inv: "live_inv st" using assms(1) by (rule live.reach_inv)
  show ?thesis
    using live_invD(2) [OF inv, of q sid] live_invD(3) [OF inv assms(2)]
    by (auto simp: fed_def no_gap_def intro: append_prefixD)
qed

theorem live_streams_have_no_gaps_witness:
  "\<exists>st :: int live. reach (\<lambda>st. st = live_start) live_step st \<and> l_since st 7 = [1, 2] \<and> l_got st 7 = [1]
    \<and> prefix (l_got st 7) (l_since st 7)"
proof -
  define a where "a = (live_start :: int live)\<lparr>l_hub := subscribe 5 7 (l_hub live_start),
      l_known := insert 7 (l_known (live_start :: int live)), l_session := (l_session (live_start :: int live))(7 := 5),
      l_since := (l_since live_start)(7 := []), l_got := (l_got live_start)(7 := [])\<rparr>"
  define pub where "pub = (\<lambda>(st :: int live) e. st\<lparr>l_hub := publish 5 e (l_hub st),
      l_since := \<lambda>q. if q \<in> l_known st \<and> l_session st q = 5 then l_since st q @ [e] else l_since st q\<rparr>)"
  define b where "b = pub (pub a 1) 2"
  define c where "c = b\<lparr>l_hub := (l_hub b)\<lparr>hub_queue := (hub_queue (l_hub b))(7 := [Some 2])\<rparr>,
      l_got := (l_got b)(7 := l_got b 7 @ [1])\<rparr>"
  have "live_step live_start a"
    unfolding a_def by (rule live_subscribe) (simp add: live_start_def)
  moreover have "live_step a (pub a 1)" "live_step (pub a 1) b"
    unfolding b_def pub_def by (rule live_publish)+
  moreover have q: "hub_queue (l_hub b) 7 = [Some 1, Some 2]" "7 \<in> l_known b" "l_since b 7 = [1, 2]" "l_got b 7 = []"
    by (simp_all add: b_def pub_def a_def live_start_def new_hub_def subscribe_def publish_def
        put_or_cut_off_def QUEUE_SIZE_def)
  then have "live_step b c" unfolding c_def by (intro live_take) simp_all
  moreover have "reach (\<lambda>st. st = live_start) live_step (live_start :: int live)"
    by (rule reach_init) simp
  ultimately have r: "reach (\<lambda>st. st = live_start) live_step c"
    using reach_step [of "\<lambda>st. st = live_start" live_step] by blast
  moreover have "l_since c 7 = [1, 2]" "l_got c 7 = [1]" "7 \<in> l_known c" using q by (simp_all add: c_def)
  ultimately show ?thesis using live_streams_have_no_gaps [OF r] by blast
qed

end
