(* ===== verification/Database.thy ===== *)
theory Database
  imports Schemas
begin

text \<open>
  \<open>WebApp/backend/app/models/*.py\<close> and \<open>app/repositories/*.py\<close>: the rows of the five tables,
  the constraints PostgreSQL enforces at commit, and the queries and updates the services call. A
  database state is the list of rows of each table. A repository function that commits returns
  either the committed state or the constraint that refused it, in which case the transaction is
  rolled back and the state is the one before it. A row lock (\<open>FOR UPDATE\<close>) is not a value: a
  service function that locks a Session's row and commits is one atomic step on that Session.
\<close>

section \<open>Rows\<close>

record session_row =
  s_id :: uuid
  s_name :: string
  s_status :: status
  s_started_at :: time
  s_ended_at :: "time option"
  s_record :: bool
  s_camera_id :: "uuid option"
  s_created_at :: time

record bullet_row =
  b_id :: uuid
  b_session_id :: uuid
  b_first_seen_at :: time
  b_position_x :: real
  b_position_y :: real
  b_target_index :: "int option"
  b_x_mm :: "real option"
  b_y_mm :: "real option"
  b_source :: hole_source
  b_idempotency_key :: "string option"
  b_rank :: int
  b_deleted_at :: "time option"
  b_created_at :: time

record camera_row =
  c_id :: uuid
  c_alias :: string
  c_mcast_ip :: string
  c_mcast_port :: int
  c_iface :: "string option"
  c_enabled :: bool
  c_created_at :: time

record interval_row =
  i_id :: uuid
  i_session_id :: uuid
  i_started_at :: time
  i_ended_at :: "time option"

record run_row =
  r_id :: uuid
  r_session_id :: uuid
  r_camera_alias :: string
  r_taken_at :: time
  r_baseline_view :: baseline_view
  r_places :: "place list"
  r_watched_until :: time

record db =
  db_sessions :: "session_row list"
  db_bullets :: "bullet_row list"
  db_cameras :: "camera_row list"
  db_intervals :: "interval_row list"
  db_runs :: "run_row list"

definition empty_db :: db where
  "empty_db = \<lparr>db_sessions = [], db_bullets = [], db_cameras = [], db_intervals = [], db_runs = []\<rparr>"

section \<open>Constraints\<close>

datatype db_error =
    UniqueViolation string
  | ForeignKeyViolation string

abbreviation is_active :: "session_row \<Rightarrow> bool" where
  "is_active s \<equiv> s_status s = Active"

abbreviation is_open :: "interval_row \<Rightarrow> bool" where
  "is_open i \<equiv> i_ended_at i = None"

abbreviation not_deleted :: "bullet_row \<Rightarrow> bool" where
  "not_deleted b \<equiv> b_deleted_at b = None"

definition uq_sessions_one_active :: "db \<Rightarrow> bool" where
  "uq_sessions_one_active d \<longleftrightarrow> unique_index s_status is_active (db_sessions d)"

definition uq_bullet_holes_session_idempotency_key :: "db \<Rightarrow> bool" where
  "uq_bullet_holes_session_idempotency_key d \<longleftrightarrow>
     unique_index (\<lambda>b. (b_session_id b, b_idempotency_key b)) (\<lambda>b. b_idempotency_key b \<noteq> None) (db_bullets d)"

definition uq_cameras_alias :: "db \<Rightarrow> bool" where
  "uq_cameras_alias d \<longleftrightarrow> unique_index c_alias (\<lambda>_. True) (db_cameras d)"

definition uq_recording_intervals_one_open :: "db \<Rightarrow> bool" where
  "uq_recording_intervals_one_open d \<longleftrightarrow> unique_index i_session_id is_open (db_intervals d)"

definition uq_runs_session_id_taken_at :: "db \<Rightarrow> bool" where
  "uq_runs_session_id_taken_at d \<longleftrightarrow>
     unique_index (\<lambda>r. (r_session_id r, r_taken_at r)) (\<lambda>_. True) (db_runs d)"

definition primary_keys :: "db \<Rightarrow> bool" where
  "primary_keys d \<longleftrightarrow>
     distinct (map s_id (db_sessions d)) \<and> distinct (map b_id (db_bullets d))
     \<and> distinct (map c_id (db_cameras d)) \<and> distinct (map i_id (db_intervals d))
     \<and> distinct (map r_id (db_runs d))"

definition foreign_keys :: "db \<Rightarrow> bool" where
  "foreign_keys d \<longleftrightarrow>
     b_session_id ` set (db_bullets d) \<subseteq> s_id ` set (db_sessions d)
     \<and> i_session_id ` set (db_intervals d) \<subseteq> s_id ` set (db_sessions d)
     \<and> r_session_id ` set (db_runs d) \<subseteq> s_id ` set (db_sessions d)
     \<and> (\<forall>s\<in>set (db_sessions d). \<forall>c. s_camera_id s = Some c \<longrightarrow> c \<in> c_id ` set (db_cameras d))"

text \<open>The constraint a state breaks, by the name the error message carries.\<close>

definition violation :: "db \<Rightarrow> db_error option" where
  "violation d =
     (if \<not> primary_keys d then Some (UniqueViolation ''pkey'')
      else if \<not> uq_sessions_one_active d then Some (UniqueViolation ''uq_sessions_one_active'')
      else if \<not> uq_bullet_holes_session_idempotency_key d
        then Some (UniqueViolation ''uq_bullet_holes_session_idempotency_key'')
      else if \<not> uq_cameras_alias d then Some (UniqueViolation ''uq_cameras_alias'')
      else if \<not> uq_recording_intervals_one_open d
        then Some (UniqueViolation ''uq_recording_intervals_one_open'')
      else if \<not> uq_runs_session_id_taken_at d then Some (UniqueViolation ''uq_runs_session_id_taken_at'')
      else if \<not> foreign_keys d then Some (ForeignKeyViolation ''fkey'')
      else None)"

definition constraints :: "db \<Rightarrow> bool" where
  "constraints d \<longleftrightarrow> violation d = None"

definition commit :: "db \<Rightarrow> db_error + db" where
  "commit d = (case violation d of None \<Rightarrow> Inr d | Some e \<Rightarrow> Inl e)"

section \<open>repositories/sessions.py\<close>

datatype session_db_error = SecondActiveSession | OtherIntegrityError db_error

definition get_session :: "db \<Rightarrow> uuid \<Rightarrow> session_row option" where
  "get_session d sid = find (\<lambda>s. s_id s = sid) (db_sessions d)"

definition session_exists :: "db \<Rightarrow> uuid \<Rightarrow> bool" where
  "session_exists d sid \<longleftrightarrow> find (\<lambda>s. s_id s = sid) (db_sessions d) \<noteq> None"

definition get_session_for_update :: "db \<Rightarrow> uuid \<Rightarrow> session_row option" where
  "get_session_for_update d sid = find (\<lambda>s. s_id s = sid) (db_sessions d)"

text \<open>A Session's relationships, in the order the model gives them.\<close>

definition active_bullet_holes :: "db \<Rightarrow> uuid \<Rightarrow> bullet_row list" where
  "active_bullet_holes d sid =
     sort_key b_first_seen_at (filter (\<lambda>b. b_session_id b = sid \<and> not_deleted b) (db_bullets d))"

definition recording_intervals :: "db \<Rightarrow> uuid \<Rightarrow> interval_row list" where
  "recording_intervals d sid =
     sort_key i_started_at (filter (\<lambda>i. i_session_id i = sid) (db_intervals d))"

definition session_runs :: "db \<Rightarrow> uuid \<Rightarrow> run_row list" where
  "session_runs d sid = sort_key r_taken_at (filter (\<lambda>r. r_session_id r = sid) (db_runs d))"

definition get_with_bullets :: "db \<Rightarrow> uuid \<Rightarrow> (session_row \<times> bullet_row list) option" where
  "get_with_bullets d sid = map_option (\<lambda>s. (s, active_bullet_holes d sid)) (get_session d sid)"

definition list_with_bullet_counts :: "db \<Rightarrow> (session_row \<times> nat) list" where
  "list_with_bullet_counts d =
     map (\<lambda>s. (s, count_where (\<lambda>b. b_session_id b = s_id s \<and> not_deleted b) (db_bullets d)))
       (sort_key (\<lambda>s. - s_created_at s) (db_sessions d))"

definition list_active :: "db \<Rightarrow> session_row list" where
  "list_active d = sort_key s_started_at (filter is_active (db_sessions d))"

definition recording_session_active :: "db \<Rightarrow> bool" where
  "recording_session_active d \<longleftrightarrow>
     find (\<lambda>i. is_open i \<and> (\<exists>s\<in>set (db_sessions d). s_id s = i_session_id i \<and> is_active s))
       (db_intervals d) \<noteq> None"

definition intervals_of_other_sessions :: "db \<Rightarrow> uuid \<Rightarrow> interval_row list" where
  "intervals_of_other_sessions d sid = filter (\<lambda>i. i_session_id i \<noteq> sid) (db_intervals d)"

definition commit_sessions :: "db \<Rightarrow> session_db_error + db" where
  "commit_sessions d =
     (case commit d of
        Inr d' \<Rightarrow> Inr d'
      | Inl e \<Rightarrow>
          Inl (if e = UniqueViolation ''uq_sessions_one_active'' then SecondActiveSession
               else OtherIntegrityError e))"

definition add_session :: "db \<Rightarrow> session_row \<Rightarrow> interval_row list \<Rightarrow> session_db_error + db" where
  "add_session d s intervals =
     commit_sessions (d\<lparr>db_sessions := db_sessions d @ [s], db_intervals := db_intervals d @ intervals\<rparr>)"

text \<open>
  \<open>repo.delete\<close>: the row and, by the relationships' cascade and ON DELETE CASCADE, its Bullet
  Holes, recording intervals and Runs.
\<close>

definition delete_session_row :: "db \<Rightarrow> uuid \<Rightarrow> db" where
  "delete_session_row d sid =
     d\<lparr>db_sessions := delete_where (\<lambda>s. s_id s = sid) (db_sessions d),
       db_bullets := delete_where (\<lambda>b. b_session_id b = sid) (db_bullets d),
       db_intervals := delete_where (\<lambda>i. i_session_id i = sid) (db_intervals d),
       db_runs := delete_where (\<lambda>r. r_session_id r = sid) (db_runs d)\<rparr>"

section \<open>repositories/bullets.py\<close>

definition find_by_idempotency_key :: "db \<Rightarrow> uuid \<Rightarrow> string \<Rightarrow> bullet_row option" where
  "find_by_idempotency_key d sid key =
     find (\<lambda>b. b_idempotency_key b = Some key \<and> b_session_id b = sid) (db_bullets d)"

definition count_active :: "db \<Rightarrow> uuid \<Rightarrow> nat" where
  "count_active d sid = count_where (\<lambda>b. b_session_id b = sid \<and> not_deleted b) (db_bullets d)"

definition get_active_bullet :: "db \<Rightarrow> uuid \<Rightarrow> uuid \<Rightarrow> bullet_row option" where
  "get_active_bullet d sid bid =
     find (\<lambda>b. b_id b = bid \<and> b_session_id b = sid \<and> not_deleted b) (db_bullets d)"

definition move_up_after :: "db \<Rightarrow> uuid \<Rightarrow> int \<Rightarrow> db" where
  "move_up_after d sid rank =
     d\<lparr>db_bullets :=
        update_where (\<lambda>b. b_session_id b = sid \<and> not_deleted b \<and> b_rank b > rank)
          (\<lambda>b. b\<lparr>b_rank := b_rank b - 1\<rparr>) (db_bullets d)\<rparr>"

definition add_bullet :: "db \<Rightarrow> bullet_row \<Rightarrow> db_error + db" where
  "add_bullet d b = commit (d\<lparr>db_bullets := db_bullets d @ [b]\<rparr>)"

section \<open>repositories/cameras.py\<close>

definition get_camera :: "db \<Rightarrow> uuid \<Rightarrow> camera_row option" where
  "get_camera d cid = find (\<lambda>c. c_id c = cid) (db_cameras d)"

definition list_all_cameras :: "db \<Rightarrow> camera_row list" where
  "list_all_cameras d = sort_key c_created_at (db_cameras d)"

text \<open>
  \<open>save\<close> inserts a new camera and updates a stored one; any integrity error is reported as
  \<open>AliasTaken\<close> (\<open>Inl ()\<close>).
\<close>

definition put_camera :: "bool \<Rightarrow> db \<Rightarrow> camera_row \<Rightarrow> db" where
  "put_camera is_new d c =
     (if is_new then d\<lparr>db_cameras := db_cameras d @ [c]\<rparr>
      else d\<lparr>db_cameras := update_where (\<lambda>r. c_id r = c_id c) (\<lambda>_. c) (db_cameras d)\<rparr>)"

definition save_camera :: "bool \<Rightarrow> db \<Rightarrow> camera_row \<Rightarrow> unit + db" where
  "save_camera is_new d c = (case commit (put_camera is_new d c) of Inr d' \<Rightarrow> Inr d' | Inl _ \<Rightarrow> Inl ())"

text \<open>\<open>ON DELETE SET NULL\<close>: the Sessions of a deleted camera have none.\<close>

definition delete_camera_row :: "db \<Rightarrow> uuid \<Rightarrow> db" where
  "delete_camera_row d cid =
     d\<lparr>db_cameras := delete_where (\<lambda>c. c_id c = cid) (db_cameras d),
       db_sessions := update_where (\<lambda>s. s_camera_id s = Some cid) (\<lambda>s. s\<lparr>s_camera_id := None\<rparr>)
         (db_sessions d)\<rparr>"

section \<open>repositories/runs.py\<close>

definition get_run_for_update :: "db \<Rightarrow> uuid \<Rightarrow> time \<Rightarrow> run_row option" where
  "get_run_for_update d sid taken_at =
     find (\<lambda>r. r_session_id r = sid \<and> r_taken_at r = taken_at) (db_runs d)"

text \<open>
  \<open>ON CONFLICT DO NOTHING\<close> on the Run's Session and time: only that constraint is waived, so a Run
  of a Session that is gone is refused.
\<close>

definition add_run_once :: "db \<Rightarrow> run_row \<Rightarrow> db_error + db" where
  "add_run_once d r =
     (if get_run_for_update d (r_session_id r) (r_taken_at r) = None
      then commit (d\<lparr>db_runs := db_runs d @ [r]\<rparr>) else Inr d)"

definition save_run :: "db \<Rightarrow> run_row \<Rightarrow> db" where
  "save_run d r =
     d\<lparr>db_runs :=
        update_where (\<lambda>q. r_session_id q = r_session_id r \<and> r_taken_at q = r_taken_at r) (\<lambda>_. r)
          (db_runs d)\<rparr>"

section \<open>Lemmas\<close>

lemma commit_Inr [simp]: "commit d = Inr d' \<longleftrightarrow> d' = d \<and> constraints d"
  by (auto simp: commit_def constraints_def split: option.splits)

lemma commit_Inl: "commit d = Inl e \<longleftrightarrow> violation d = Some e"
  by (auto simp: commit_def split: option.splits)

lemma commit_sessions_Inr [simp]: "commit_sessions d = Inr d' \<longleftrightarrow> d' = d \<and> constraints d"
proof (cases "violation d")
  case None
  then show ?thesis by (auto simp: commit_sessions_def commit_def constraints_def)
next
  case (Some e)
  then show ?thesis by (simp add: commit_sessions_def commit_def constraints_def)
qed

lemma commit_ok: "constraints d \<Longrightarrow> commit d = Inr d"
  by simp

lemma commit_sessions_ok: "constraints d \<Longrightarrow> commit_sessions d = Inr d"
  by simp

lemma constraints_iff:
  "constraints d \<longleftrightarrow>
     primary_keys d \<and> uq_sessions_one_active d \<and> uq_bullet_holes_session_idempotency_key d
     \<and> uq_cameras_alias d \<and> uq_recording_intervals_one_open d \<and> uq_runs_session_id_taken_at d
     \<and> foreign_keys d"
  by (simp add: constraints_def violation_def)

lemma commit_second_active:
  "commit_sessions d = Inl SecondActiveSession \<longleftrightarrow> primary_keys d \<and> \<not> uq_sessions_one_active d"
  by (auto simp: commit_sessions_def commit_def violation_def split: sum.splits)

lemma one_active_iff: "uq_sessions_one_active d \<longleftrightarrow> count_where is_active (db_sessions d) \<le> 1"
proof -
  have "distinct (map s_status (filter is_active xs)) \<longleftrightarrow> count_where is_active xs \<le> 1" for xs
    by (induction xs) (auto simp: count_where_def filter_empty_conv image_iff)
  then show ?thesis by (simp add: uq_sessions_one_active_def unique_index_def)
qed

lemma one_active_unique:
  assumes "uq_sessions_one_active d" "distinct (map s_id (db_sessions d))"
    and "s \<in> set (db_sessions d)" "t \<in> set (db_sessions d)" "is_active s" "is_active t"
  shows "s = t"
proof -
  have "length (filter is_active (db_sessions d)) \<le> 1"
    using assms(1) by (simp add: one_active_iff count_where_def)
  moreover have "s \<in> set (filter is_active (db_sessions d))" "t \<in> set (filter is_active (db_sessions d))"
    using assms by auto
  ultimately show ?thesis
    by (cases "filter is_active (db_sessions d)") auto
qed

lemma list_active_set [simp]: "set (list_active d) = {s \<in> set (db_sessions d). is_active s}"
  by (auto simp: list_active_def)

lemma get_session_Some: "get_session d sid = Some s \<Longrightarrow> s \<in> set (db_sessions d) \<and> s_id s = sid"
  by (auto simp: get_session_def dest: find_SomeD)

lemma get_session_for_update_eq [simp]: "get_session_for_update d sid = get_session d sid"
  by (simp add: get_session_for_update_def get_session_def)

lemma session_exists_iff: "session_exists d sid \<longleftrightarrow> sid \<in> s_id ` set (db_sessions d)"
  by (auto simp: session_exists_def find_None_iff)

lemma get_camera_Some: "get_camera d cid = Some c \<Longrightarrow> c \<in> set (db_cameras d) \<and> c_id c = cid"
  by (auto simp: get_camera_def dest: find_SomeD)

lemma recording_session_active_iff:
  "recording_session_active d \<longleftrightarrow>
     (\<exists>i\<in>set (db_intervals d). is_open i \<and> (\<exists>s\<in>set (db_sessions d). s_id s = i_session_id i \<and> is_active s))"
  by (auto simp: recording_session_active_def find_None_iff)

lemma recording_intervals_set [simp]:
  "set (recording_intervals d sid) = {i \<in> set (db_intervals d). i_session_id i = sid}"
  by (auto simp: recording_intervals_def)

lemma empty_db_constraints: "constraints empty_db"
  by (simp add: constraints_iff empty_db_def primary_keys_def uq_sessions_one_active_def
      uq_bullet_holes_session_idempotency_key_def uq_cameras_alias_def
      uq_recording_intervals_one_open_def uq_runs_session_id_taken_at_def foreign_keys_def
      unique_index_def)

end
