(* ===== verification/Sessions.thy ===== *)
theory Sessions
  imports Database
begin

text \<open>
  \<open>WebApp/backend/app/services/sessions.py\<close>: creating, changing, listing and deleting Sessions. A
  request reads the other Sessions without a lock (\<open>list_active\<close>), so the state it checks
  (\<open>d_check\<close>) may be older than the one its commit applies to (\<open>d\<close>), and the state it reads to
  word a refusal (\<open>d_re\<close>) newer: the three are separate arguments, and the lemmas hold for any
  three. Its own row and its recording intervals are locked. The clock's readings and the fresh
  identifiers are arguments too.
\<close>

section \<open>Reading\<close>

definition session_not_found :: http_error where
  "session_not_found = HTTP 404 ''Session not found''"

definition get_session_or_404 :: "uuid \<Rightarrow> db \<Rightarrow> http_error + session_row" where
  "get_session_or_404 sid d =
     (case get_session d sid of None \<Rightarrow> Inl session_not_found | Some s \<Rightarrow> Inr s)"

definition get_session_detail :: "uuid \<Rightarrow> db \<Rightarrow> http_error + session_row \<times> bullet_row list" where
  "get_session_detail sid d =
     (case get_with_bullets d sid of None \<Rightarrow> Inl session_not_found | Some s \<Rightarrow> Inr s)"

record session_list_item =
  sli_session :: session_row
  sli_bullet_count :: nat

definition list_sessions :: "db \<Rightarrow> session_list_item list" where
  "list_sessions d =
     map (\<lambda>(s, bullet_count). \<lparr>sli_session = s, sli_bullet_count = bullet_count\<rparr>)
       (list_with_bullet_counts d)"

section \<open>Recording intervals\<close>

text \<open>What \<open>_follow_recording\<close> does to the Session's intervals.\<close>

datatype interval_change =
    KeepIntervals
  | OpenInterval interval_row
  | CloseInterval uuid time

definition follow_recording :: "session_row \<Rightarrow> interval_row list \<Rightarrow> time \<Rightarrow> uuid \<Rightarrow> interval_change" where
  "follow_recording s intervals now iid =
     (let open_interval = find is_open intervals;
          recording = s_record s \<and> s_status s = Active in
      case open_interval of
        None \<Rightarrow>
          if recording
          then OpenInterval \<lparr>i_id = iid, i_session_id = s_id s, i_started_at = now, i_ended_at = None\<rparr>
          else KeepIntervals
      | Some i \<Rightarrow>
          if \<not> recording
          then CloseInterval (i_id i) (case s_ended_at s of Some e \<Rightarrow> e | None \<Rightarrow> now)
          else KeepIntervals)"

fun apply_interval_change :: "interval_change \<Rightarrow> interval_row list \<Rightarrow> interval_row list" where
  "apply_interval_change KeepIntervals rows = rows"
| "apply_interval_change (OpenInterval i) rows = rows @ [i]"
| "apply_interval_change (CloseInterval iid e) rows =
     update_where (\<lambda>i. i_id i = iid) (\<lambda>i. i\<lparr>i_ended_at := Some e\<rparr>) rows"

definition recorded_windows :: "time \<Rightarrow> interval_row list \<Rightarrow> (time \<times> time) list" where
  "recorded_windows now intervals =
     map (\<lambda>i. (i_started_at i, case i_ended_at i of Some e \<Rightarrow> e | None \<Rightarrow> now)) intervals"

definition other_recorded_windows :: "time \<Rightarrow> uuid \<Rightarrow> db \<Rightarrow> (time \<times> time) list" where
  "other_recorded_windows now sid d = recorded_windows now (intervals_of_other_sessions d sid)"

section \<open>One active Session at a time\<close>

definition another_active :: "string \<Rightarrow> string" where
  "another_active name =
     ''Session '' @ [CHR 0x27] @ name @ [CHR 0x27] @ '' is still active: complete it first''"

definition refuse_if_another_is_active :: "db \<Rightarrow> uuid option \<Rightarrow> http_error option" where
  "refuse_if_another_is_active d sid =
     (case find (\<lambda>s. Some (s_id s) \<noteq> sid) (list_active d) of
        Some other \<Rightarrow> Some (HTTP 409 (another_active (s_name other)))
      | None \<Rightarrow> None)"

definition refused_as_second_active :: "db \<Rightarrow> uuid option \<Rightarrow> http_error" where
  "refused_as_second_active d sid =
     (case refuse_if_another_is_active d sid of
        Some e \<Rightarrow> e
      | None \<Rightarrow> HTTP 409 ''Another Session was active: try again'')"

text \<open>An integrity error the repository raises again reaches the framework.\<close>

definition internal_error :: http_error where
  "internal_error = HTTP 500 ''Internal Server Error''"

section \<open>Creating, changing, deleting\<close>

text \<open>\<open>created\<close> is the database's \<open>now()\<close>, the transaction's start.\<close>

definition new_session :: "uuid \<Rightarrow> session_create \<Rightarrow> time \<Rightarrow> time \<Rightarrow> session_row" where
  "new_session nid body now created =
     \<lparr>s_id = nid, s_name = sc_name body, s_status = Active, s_started_at = now, s_ended_at = None,
      s_record = sc_record body, s_camera_id = sc_camera_id body, s_created_at = created\<rparr>"

definition camera_usable :: "db \<Rightarrow> uuid option \<Rightarrow> bool" where
  "camera_usable d camera =
     (case camera of
        None \<Rightarrow> True
      | Some cid \<Rightarrow> (case get_camera d cid of None \<Rightarrow> False | Some c \<Rightarrow> c_enabled c))"

definition create_session ::
    "uuid \<Rightarrow> uuid \<Rightarrow> time \<Rightarrow> time \<Rightarrow> session_create \<Rightarrow> db \<Rightarrow> db \<Rightarrow> db \<Rightarrow> (http_error + session_row) \<times> db" where
  "create_session nid iid now created body d_check d d_re =
     (case refuse_if_another_is_active d_check None of
        Some e \<Rightarrow> (Inl e, d)
      | None \<Rightarrow>
          if \<not> camera_usable d_check (sc_camera_id body)
          then (Inl (HTTP 422 ''No enabled camera with this id''), d)
          else
            let s = new_session nid body now created in
            (case add_session d s (apply_interval_change (follow_recording s [] now iid) []) of
               Inr d' \<Rightarrow> (Inr s, d')
             | Inl SecondActiveSession \<Rightarrow> (Inl (refused_as_second_active d_re None), d)
             | Inl (OtherIntegrityError _) \<Rightarrow> (Inl internal_error, d)))"

text \<open>The Session's attributes after \<open>body\<close>, or the refusal to reopen it beside another.\<close>

definition patch_status :: "session_update \<Rightarrow> time \<Rightarrow> db \<Rightarrow> session_row \<Rightarrow> http_error + session_row" where
  "patch_status body now d_check s =
     (case su_status body of
        None \<Rightarrow> Inr s
      | Some Completed \<Rightarrow>
          Inr (s\<lparr>s_status := Completed,
                 s_ended_at := (case s_ended_at s of None \<Rightarrow> Some now | Some e \<Rightarrow> Some e)\<rparr>)
      | Some Active \<Rightarrow>
          (case (if s_status s \<noteq> Active then refuse_if_another_is_active d_check (Some (s_id s)) else None) of
             Some e \<Rightarrow> Inl e
           | None \<Rightarrow> Inr (s\<lparr>s_status := Active, s_ended_at := None\<rparr>)))"

definition patch_fields :: "session_update \<Rightarrow> session_row \<Rightarrow> session_row" where
  "patch_fields body s =
     s\<lparr>s_name := (case su_name body of Some n \<Rightarrow> n | None \<Rightarrow> s_name s),
       s_record := (case su_record body of Some r \<Rightarrow> r | None \<Rightarrow> s_record s)\<rparr>"

definition put_session :: "db \<Rightarrow> session_row \<Rightarrow> interval_change \<Rightarrow> db" where
  "put_session d s change =
     d\<lparr>db_sessions := update_where (\<lambda>r. s_id r = s_id s) (\<lambda>_. s) (db_sessions d),
       db_intervals := apply_interval_change change (db_intervals d)\<rparr>"

definition update_session ::
    "uuid \<Rightarrow> uuid \<Rightarrow> time \<Rightarrow> time \<Rightarrow> session_update \<Rightarrow> db \<Rightarrow> db \<Rightarrow> db
       \<Rightarrow> (http_error + session_row \<times> bullet_row list) \<times> db" where
  "update_session sid iid now1 now2 body d_check d d_re =
     (case get_session_for_update d sid of
        None \<Rightarrow> (Inl session_not_found, d)
      | Some before \<Rightarrow>
          (case patch_status body now1 d_check (patch_fields body before) of
             Inl e \<Rightarrow> (Inl e, d)
           | Inr s \<Rightarrow>
               (case commit_sessions
                       (put_session d s (follow_recording s (recording_intervals d sid) now2 iid)) of
                  Inl SecondActiveSession \<Rightarrow> (Inl (refused_as_second_active d_re (Some sid)), d)
                | Inl (OtherIntegrityError _) \<Rightarrow> (Inl internal_error, d)
                | Inr d' \<Rightarrow> (get_session_detail sid d', d'))))"

definition delete_session :: "uuid \<Rightarrow> time \<Rightarrow> db \<Rightarrow> (http_error + (time \<times> time) list) \<times> db" where
  "delete_session sid now d =
     (case get_session_for_update d sid of
        None \<Rightarrow> (Inl session_not_found, d)
      | Some s \<Rightarrow> (Inr (recorded_windows now (recording_intervals d sid)), delete_session_row d sid))"

text \<open>\<open>_log_changes\<close>: the lines a change writes (their text; the fields beside it repeat the rows).\<close>

definition quoted :: "string \<Rightarrow> string" where
  "quoted s = [CHR 0x27] @ s @ [CHR 0x27]"

definition log_changes :: "session_row \<Rightarrow> session_row \<Rightarrow> string list" where
  "log_changes s before =
     (if s_status s \<noteq> s_status before
      then [''Session '' @ quoted (s_name s) @
              (if s_status s = Completed then '' completed'' else '' reopened'')] else [])
     @ (if s_record s \<noteq> s_record before
        then [''Session '' @ quoted (s_name s) @ '': recording switched '' @
                (if s_record s then ''on'' else ''off'')] else [])
     @ (if s_name s \<noteq> s_name before
        then [''Session renamed from '' @ quoted (s_name before) @ '' to '' @ quoted (s_name s)] else [])"

section \<open>The invariant of the Sessions\<close>

text \<open>
  What the services keep beyond the database's own constraints: an active Session has not ended, a
  completed one has, and a Session has an open recording interval exactly while it is active with
  recording on.
\<close>

definition has_open :: "db \<Rightarrow> uuid \<Rightarrow> bool" where
  "has_open d sid \<longleftrightarrow> (\<exists>i\<in>set (db_intervals d). i_session_id i = sid \<and> is_open i)"

definition session_ok :: "db \<Rightarrow> session_row \<Rightarrow> bool" where
  "session_ok d s \<longleftrightarrow>
     (s_ended_at s = None \<longleftrightarrow> is_active s) \<and> (has_open d (s_id s) \<longleftrightarrow> s_record s \<and> is_active s)"

definition sessions_ok :: "db \<Rightarrow> bool" where
  "sessions_ok d \<longleftrightarrow> constraints d \<and> (\<forall>s\<in>set (db_sessions d). session_ok d s)"

lemma sessions_ok_constraints: "sessions_ok d \<Longrightarrow> constraints d"
  by (simp add: sessions_ok_def)

lemma session_row_of_id:
  "constraints d \<Longrightarrow> s \<in> set (db_sessions d) \<Longrightarrow> get_session d (s_id s) = Some s"
  unfolding get_session_def constraints_iff primary_keys_def
  by (cases "find (\<lambda>t. s_id t = s_id s) (db_sessions d)")
     (auto dest: find_SomeD find_NoneD distinct_key_eq)

lemma intervals_ids_distinct: "constraints d \<Longrightarrow> distinct (map i_id (db_intervals d))"
  by (simp add: constraints_iff primary_keys_def)

lemma one_open_interval:
  "constraints d \<Longrightarrow> i \<in> set (db_intervals d) \<Longrightarrow> j \<in> set (db_intervals d) \<Longrightarrow> is_open i \<Longrightarrow> is_open j
    \<Longrightarrow> i_session_id i = i_session_id j \<Longrightarrow> i = j"
  by (auto simp: constraints_iff uq_recording_intervals_one_open_def dest: unique_indexD)

lemma follow_recording_closed:
  "find is_open ivs = None \<Longrightarrow> follow_recording s ivs now iid =
     (if s_record s \<and> is_active s
      then OpenInterval \<lparr>i_id = iid, i_session_id = s_id s, i_started_at = now, i_ended_at = None\<rparr>
      else KeepIntervals)"
  by (simp add: follow_recording_def)

lemma follow_recording_open:
  "find is_open ivs = Some i \<Longrightarrow> follow_recording s ivs now iid =
     (if s_record s \<and> is_active s then KeepIntervals
      else CloseInterval (i_id i) (case s_ended_at s of Some e \<Rightarrow> e | None \<Rightarrow> now))"
  by (simp add: follow_recording_def)

text \<open>What following the recording leaves open, for the Session itself and for any other.\<close>

lemma follow_recording_set:
  assumes c: "constraints d" and s: "s_id s = sid"
    and ivs: "ivs = recording_intervals d sid"
    and after: "after = apply_interval_change (follow_recording s ivs now iid) (db_intervals d)"
  shows "(\<exists>i\<in>set after. i_session_id i = sid \<and> is_open i) \<longleftrightarrow> s_record s \<and> is_active s"
    and "t \<noteq> sid \<Longrightarrow> (\<exists>i\<in>set after. i_session_id i = t \<and> is_open i) \<longleftrightarrow> has_open d t"
proof -
  note dist = intervals_ids_distinct [OF c]
  have one: "i_id i = i_id j \<Longrightarrow> i = j"
    if "i \<in> set (db_intervals d)" "j \<in> set (db_intervals d)" for i j
    using distinct_key_eq [OF dist that] by simp
  have "((\<exists>i\<in>set after. i_session_id i = sid \<and> is_open i) \<longleftrightarrow> s_record s \<and> is_active s)
    \<and> (t \<noteq> sid \<longrightarrow> ((\<exists>i\<in>set after. i_session_id i = t \<and> is_open i) \<longleftrightarrow> has_open d t))" for t
  proof (cases "find is_open ivs")
    case None
    then have "\<not> has_open d sid"
      using ivs by (auto simp: find_None_iff has_open_def)
    then show ?thesis
      using s by (auto simp: after follow_recording_closed [OF None] has_open_def)
  next
    case (Some i)
    then have i: "i \<in> set (db_intervals d)" "i_session_id i = sid" "is_open i"
      using ivs by (auto dest: find_SomeD)
    have only: "j = i" if "j \<in> set (db_intervals d)" "i_session_id j = sid" "is_open j" for j
      using one_open_interval [OF c that(1) i(1) that(3) i(3)] that i by simp
    show ?thesis
    proof (cases "s_record s \<and> is_active s")
      case True
      then show ?thesis using i by (auto simp: after follow_recording_open [OF Some] has_open_def)
    next
      case False
      then obtain e where after_eq: "after = update_where (\<lambda>j. i_id j = i_id i)
          (\<lambda>j. j\<lparr>i_ended_at := Some e\<rparr>) (db_intervals d)"
        by (simp add: after follow_recording_open [OF Some])
      have open_after: "k \<in> set after \<and> is_open k \<longleftrightarrow> k \<in> set (db_intervals d) \<and> is_open k \<and> k \<noteq> i" for k
      proof
        assume "k \<in> set after \<and> is_open k"
        then obtain j where "j \<in> set (db_intervals d)" "k = (if i_id j = i_id i then j\<lparr>i_ended_at := Some e\<rparr> else j)"
          "is_open k"
          by (auto simp only: after_eq set_update_where image_iff)
        then show "k \<in> set (db_intervals d) \<and> is_open k \<and> k \<noteq> i" by (auto split: if_splits)
      next
        assume k: "k \<in> set (db_intervals d) \<and> is_open k \<and> k \<noteq> i"
        then have "i_id k \<noteq> i_id i" using one [OF _ i(1)] by blast
        then show "k \<in> set after \<and> is_open k"
          using k by (force simp: after_eq set_update_where)
      qed
      have "\<not> (\<exists>k\<in>set after. i_session_id k = sid \<and> is_open k)"
        using open_after only by blast
      moreover have "t \<noteq> sid \<longrightarrow> ((\<exists>k\<in>set after. i_session_id k = t \<and> is_open k) \<longleftrightarrow> has_open d t)"
        using open_after i(2) by (auto simp: has_open_def)
      ultimately show ?thesis using False by blast
    qed
  qed
  then show "(\<exists>i\<in>set after. i_session_id i = sid \<and> is_open i) \<longleftrightarrow> s_record s \<and> is_active s"
    and "t \<noteq> sid \<Longrightarrow> (\<exists>i\<in>set after. i_session_id i = t \<and> is_open i) \<longleftrightarrow> has_open d t"
    by blast+
qed

section \<open>Every operation keeps it\<close>

lemma patch_status_ok:
  assumes "patch_status body now d_check s = Inr s'" "s_ended_at s = None \<longleftrightarrow> is_active s"
  shows "s_id s' = s_id s" "s_ended_at s' = None \<longleftrightarrow> is_active s'"
proof -
  show "s_id s' = s_id s"
    using assms(1) by (auto simp: patch_status_def split: option.splits status.splits if_splits)
  show "s_ended_at s' = None \<longleftrightarrow> is_active s'"
    using assms by (auto simp: patch_status_def split: option.splits status.splits if_splits)
qed

lemma patch_fields_id [simp]:
  "s_id (patch_fields body s) = s_id s" "s_ended_at (patch_fields body s) = s_ended_at s"
  "s_status (patch_fields body s) = s_status s"
  by (simp_all add: patch_fields_def)

text \<open>Writing back one Session's row with its followed intervals.\<close>

lemma put_session_ok:
  assumes ok: "sessions_ok d" and s: "s_id s = sid" and e: "s_ended_at s = None \<longleftrightarrow> is_active s"
    and d': "d' = put_session d s (follow_recording s (recording_intervals d sid) now iid)"
    and c': "constraints d'"
  shows "sessions_ok d'"
proof -
  have c: "constraints d" using ok by (rule sessions_ok_constraints)
  have open': "has_open d' t \<longleftrightarrow> (if t = sid then s_record s \<and> is_active s else has_open d t)" for t
    using follow_recording_set [OF c s refl refl]
    by (simp add: d' put_session_def has_open_def)
  have "session_ok d' t" if "t \<in> set (db_sessions d')" for t
  proof (cases "s_id t = sid")
    case True
    with that s have "t = s" by (auto simp: d' put_session_def set_update_where split: if_splits)
    with open' [of sid] s e show ?thesis by (simp add: session_ok_def)
  next
    case False
    with that s have "t \<in> set (db_sessions d)"
      by (auto simp: d' put_session_def set_update_where split: if_splits)
    with ok open' [of "s_id t"] False show ?thesis by (simp add: sessions_ok_def session_ok_def)
  qed
  with c' show ?thesis by (simp add: sessions_ok_def)
qed

lemma update_session_ok:
  assumes "sessions_ok d"
  shows "sessions_ok (snd (update_session sid iid now1 now2 body d_check d d_re))"
proof (cases "get_session d sid")
  case None
  then show ?thesis using assms by (simp add: update_session_def)
next
  case (Some before)
  then have b: "before \<in> set (db_sessions d)" "s_id before = sid"
    by (auto dest: get_session_Some)
  show ?thesis
  proof (cases "patch_status body now1 d_check (patch_fields body before)")
    case (Inl e)
    then show ?thesis using Some assms by (simp add: update_session_def)
  next
    case (Inr s)
    have s: "s_id s = sid" "s_ended_at s = None \<longleftrightarrow> is_active s"
      using patch_status_ok [OF Inr] assms b by (auto simp: sessions_ok_def session_ok_def)
    show ?thesis
      using Some Inr assms put_session_ok [OF assms s refl]
      by (auto simp: update_session_def split: sum.splits session_db_error.splits)
  qed
qed

lemma fresh_has_no_open:
  "constraints d \<Longrightarrow> nid \<notin> s_id ` set (db_sessions d) \<Longrightarrow> \<not> has_open d nid"
  by (auto simp: has_open_def constraints_iff foreign_keys_def)

lemma create_session_ok:
  assumes ok: "sessions_ok d"
  shows "sessions_ok (snd (create_session nid iid now created body d_check d d_re))"
proof (cases "create_session nid iid now created body d_check d d_re")
  case (Pair r d')
  show ?thesis
  proof (cases "d' = d")
    case True
    then show ?thesis using Pair ok by simp
  next
    case False
    define s where "s = new_session nid body now created"
    define new where "new = apply_interval_change (follow_recording s [] now iid) []"
    have d': "add_session d s new = Inr d'"
      using Pair False
      by (auto simp: create_session_def Let_def s_def new_def
          split: option.splits if_splits sum.splits session_db_error.splits)
    then have d'_eq: "d' = d\<lparr>db_sessions := db_sessions d @ [s], db_intervals := db_intervals d @ new\<rparr>"
      and c': "constraints d'"
      by (auto simp: add_session_def)
    have fresh: "nid \<notin> s_id ` set (db_sessions d)"
      using c' by (auto simp: d'_eq constraints_iff primary_keys_def s_def new_session_def)
    have new_eq: "new = (if sc_record body
        then [\<lparr>i_id = iid, i_session_id = nid, i_started_at = now, i_ended_at = None\<rparr>] else [])"
      by (simp add: new_def follow_recording_def s_def new_session_def)
    have old: "session_ok d' t" if "t \<in> set (db_sessions d)" for t
    proof -
      have "s_id t \<noteq> nid" using fresh that by auto
      then have "has_open d' (s_id t) = has_open d (s_id t)"
        by (auto simp: d'_eq has_open_def new_eq)
      then show ?thesis using ok that by (simp add: sessions_ok_def session_ok_def)
    qed
    have "has_open d' nid \<longleftrightarrow> sc_record body"
      using fresh_has_no_open [OF sessions_ok_constraints [OF ok] fresh]
      by (auto simp: d'_eq has_open_def new_eq)
    then have "session_ok d' s"
      by (simp add: session_ok_def s_def new_session_def)
    with old c' Pair show ?thesis
      by (auto simp: sessions_ok_def d'_eq)
  qed
qed

lemma delete_session_row_constraints:
  "constraints d \<Longrightarrow> constraints (delete_session_row d sid)"
  unfolding constraints_iff primary_keys_def uq_sessions_one_active_def
    uq_bullet_holes_session_idempotency_key_def uq_cameras_alias_def
    uq_recording_intervals_one_open_def uq_runs_session_id_taken_at_def foreign_keys_def
  by (auto simp: delete_session_row_def set_delete_where intro: unique_index_delete)
     (auto simp: delete_where_def intro: distinct_map_filter)

lemma delete_session_ok:
  assumes "sessions_ok d"
  shows "sessions_ok (snd (delete_session sid now d))"
proof -
  have "has_open (delete_session_row d sid) t \<longleftrightarrow> has_open d t \<and> t \<noteq> sid" for t
    by (auto simp: has_open_def delete_session_row_def set_delete_where)
  then show ?thesis
    using assms delete_session_row_constraints
    by (auto simp: delete_session_def sessions_ok_def session_ok_def delete_session_row_def
        set_delete_where split: option.splits)
qed

section \<open>Recorded windows over time\<close>

text \<open>
  The windows the Sessions record, over interleaved requests: a request reads the clock (and other
  Sessions' rows) before it commits, so requests that committed meanwhile may hold later readings. A
  step is a commit at \<open>clock'\<close> whose readings are at most \<open>late\<close> older than the commit handled before
  it; what it read of other Sessions is any earlier database. With \<open>late\<close> 0 the requests are handled
  one at a time. The routers rely on the windows when a Session's deletion removes the video of its
  own windows and keeps that of every other Session's.
\<close>

inductive clocked :: "time \<Rightarrow> db \<times> time \<Rightarrow> db \<times> time \<Rightarrow> bool" for late :: time where
  clocked_create: "clock \<le> clock' \<Longrightarrow> clock - late \<le> now \<Longrightarrow> now \<le> clock' \<Longrightarrow>
    clocked late (d, clock) (snd (create_session nid iid now created body d_check d d_re), clock')"
| clocked_update: "clock \<le> clock' \<Longrightarrow> clock - late \<le> now1 \<Longrightarrow> now1 \<le> clock' \<Longrightarrow>
    clock - late \<le> now2 \<Longrightarrow> now2 \<le> clock' \<Longrightarrow>
    clocked late (d, clock) (snd (update_session sid iid now1 now2 body d_check d d_re), clock')"
| clocked_delete: "clock \<le> clock' \<Longrightarrow> clocked late (d, clock) (snd (delete_session sid now d), clock')"

inductive_cases clockedE: "clocked late p q"














interpretation session_clock: monotone_system "clocked late" "(\<le>)" snd
proof
  fix p q assume "clocked late p q"
  then show "snd p \<le> snd q" by cases auto
qed auto

section \<open>Properties\<close>

text \<open>A database with one Session that is being recorded, for the concrete instances below.\<close>

definition recording_db :: db where
  "recording_db = snd (create_session 1 2 100 100
     \<lparr>sc_name = ''Day 1'', sc_record = True, sc_camera_id = None\<rparr> empty_db empty_db empty_db)"

definition complete_patch :: session_update where
  "complete_patch = \<lparr>su_name = None, su_status = Some Completed, su_record = None\<rparr>"

lemmas constraints_defs = constraints_iff primary_keys_def uq_sessions_one_active_def
  uq_bullet_holes_session_idempotency_key_def uq_cameras_alias_def
  uq_recording_intervals_one_open_def uq_runs_session_id_taken_at_def foreign_keys_def unique_index_def

lemma recording_db_eq:
  "recording_db = empty_db
     \<lparr>db_sessions := [\<lparr>s_id = 1, s_name = ''Day 1'', s_status = Active, s_started_at = 100,
        s_ended_at = None, s_record = True, s_camera_id = None, s_created_at = 100\<rparr>],
      db_intervals := [\<lparr>i_id = 2, i_session_id = 1, i_started_at = 100, i_ended_at = None\<rparr>]\<rparr>"
proof -
  have "constraints (empty_db
     \<lparr>db_sessions := [\<lparr>s_id = 1, s_name = ''Day 1'', s_status = Active, s_started_at = 100,
        s_ended_at = None, s_record = True, s_camera_id = None, s_created_at = 100\<rparr>],
      db_intervals := [\<lparr>i_id = 2, i_session_id = 1, i_started_at = 100, i_ended_at = None\<rparr>]\<rparr>)"
    by (simp add: constraints_defs empty_db_def)
  then show ?thesis
    by (simp add: recording_db_def create_session_def refuse_if_another_is_active_def list_active_def
        camera_usable_def new_session_def follow_recording_def add_session_def commit_sessions_ok
        Let_def empty_db_def)
qed

lemma recording_db_ok: "sessions_ok recording_db"
  unfolding recording_db_def
  by (rule create_session_ok)
     (simp add: sessions_ok_def empty_db_constraints, simp add: empty_db_def)

text \<open>
  C1. Whatever a request read before its commit, and whatever it reads to word a refusal, creating,
  changing or deleting a Session keeps the invariant: the database's constraints hold (so at most
  one Session is active), exactly the active Sessions have no end, and a Session has an open
  recording interval exactly while it is active with recording on.
\<close>

theorem session_operations_keep_invariant:
  assumes "sessions_ok d"
  shows "sessions_ok (snd (create_session nid iid now created body d_check d d_re))
    \<and> sessions_ok (snd (update_session sid iid' now1 now2 patch d_check' d d_re'))
    \<and> sessions_ok (snd (delete_session sid' now' d))"
  using assms by (intro conjI create_session_ok update_session_ok delete_session_ok)

theorem session_operations_keep_invariant_witness:
  "sessions_ok (snd (update_session 1 9 200 200 complete_patch recording_db recording_db recording_db))"
  using session_operations_keep_invariant [OF recording_db_ok] by blast

text \<open>
  While a Session is active, no request can create a second one: even a request that saw no
  active Session (\<open>d_check\<close>) is refused by the commit, and the database is as it was.
\<close>

theorem second_active_session_refused:
  assumes "constraints d" "s \<in> set (db_sessions d)" "is_active s"
  shows "\<exists>e. create_session nid iid now created body d_check d d_re = (Inl e, d)
    \<and> (nid \<notin> s_id ` set (db_sessions d) \<and> camera_usable d_check (sc_camera_id body)
         \<and> iid \<notin> i_id ` set (db_intervals d) \<longrightarrow> http_status e = 409)"
proof -
  define n where "n = new_session nid body now created"
  define new where "new = apply_interval_change (follow_recording n [] now iid) []"
  define d' where "d' = d\<lparr>db_sessions := db_sessions d @ [n], db_intervals := db_intervals d @ new\<rparr>"
  have "count_where is_active (db_sessions d) \<noteq> 0" using assms by (auto simp: count_where_zero)
  then have two: "\<not> uq_sessions_one_active d'"
    by (simp add: one_active_iff d'_def n_def new_session_def)
  have keys: "primary_keys d'" if "nid \<notin> s_id ` set (db_sessions d)" "iid \<notin> i_id ` set (db_intervals d)"
    using assms(1) that
    by (simp add: constraints_iff primary_keys_def d'_def n_def new_def new_session_def follow_recording_closed)
  have add: "add_session d n new = commit_sessions d'"
    by (simp add: add_session_def d'_def)
  have refused: "http_status e = 409" if "refuse_if_another_is_active x y = Some e" for x y e
    using that by (auto simp: refuse_if_another_is_active_def split: option.splits)
  have refused': "http_status (refused_as_second_active x y) = 409" for x y
    using refused by (auto simp: refused_as_second_active_def split: option.splits)
  show ?thesis
  proof (cases "refuse_if_another_is_active d_check None = None \<and> camera_usable d_check (sc_camera_id body)")
    case False
    then show ?thesis
      using refused by (auto simp: create_session_def split: option.splits)
  next
    case True
    then have eq: "create_session nid iid now created body d_check d d_re =
      (case commit_sessions d' of
         Inr d' \<Rightarrow> (Inr n, d')
       | Inl SecondActiveSession \<Rightarrow> (Inl (refused_as_second_active d_re None), d)
       | Inl (OtherIntegrityError _) \<Rightarrow> (Inl internal_error, d))"
      by (simp add: create_session_def Let_def flip: add n_def new_def)
    show ?thesis
    proof (cases "commit_sessions d'")
      case (Inl x)
      have "x = SecondActiveSession" if "primary_keys d'"
        using Inl two that commit_second_active [of d'] by simp
      then show ?thesis
        using Inl keys refused' by (cases x) (auto simp: eq)
    next
      case (Inr x)
      then show ?thesis using two by (simp add: constraints_iff)
    qed
  qed
qed

theorem second_active_session_refused_witness:
  "\<exists>e. create_session 7 8 300 300 \<lparr>sc_name = ''B'', sc_record = False, sc_camera_id = None\<rparr>
      empty_db recording_db recording_db = (Inl e, recording_db) \<and> http_status e = 409"
  using second_active_session_refused [OF sessions_ok_constraints [OF recording_db_ok],
      of "hd (db_sessions recording_db)" 7 8 300 300
        "\<lparr>sc_name = ''B'', sc_record = False, sc_camera_id = None\<rparr>" empty_db recording_db]
  by (auto simp: recording_db_eq camera_usable_def)


text \<open>
  Two requests that race: the one that creates ''Day 2'' read the clock at 190, waited, and commits
  after the one that completed ''Day 1'' at 200. The windows overlap by its lateness, 10.
\<close>

definition two_days_db :: db where
  "two_days_db = empty_db
     \<lparr>db_sessions :=
        [\<lparr>s_id = 1, s_name = ''Day 1'', s_status = Completed, s_started_at = 100,
          s_ended_at = Some 200, s_record = True, s_camera_id = None, s_created_at = 100\<rparr>,
         \<lparr>s_id = 3, s_name = ''Day 2'', s_status = Active, s_started_at = 190,
          s_ended_at = None, s_record = True, s_camera_id = None, s_created_at = 205\<rparr>],
      db_intervals :=
        [\<lparr>i_id = 2, i_session_id = 1, i_started_at = 100, i_ended_at = Some 200\<rparr>,
         \<lparr>i_id = 4, i_session_id = 3, i_started_at = 190, i_ended_at = None\<rparr>]\<rparr>"

lemma two_days_db_reachable: "reach (\<lambda>p. p = (empty_db, 0)) (clocked 10) (two_days_db, 205)"
proof -
  define day1 where "day1 = snd (update_session 1 9 200 200 complete_patch recording_db recording_db recording_db)"
  have day1: "day1 = empty_db
     \<lparr>db_sessions := [\<lparr>s_id = 1, s_name = ''Day 1'', s_status = Completed, s_started_at = 100,
        s_ended_at = Some 200, s_record = True, s_camera_id = None, s_created_at = 100\<rparr>],
      db_intervals := [\<lparr>i_id = 2, i_session_id = 1, i_started_at = 100, i_ended_at = Some 200\<rparr>]\<rparr>"
    by (simp add: day1_def update_session_def recording_db_eq get_session_def patch_status_def
        patch_fields_def complete_patch_def follow_recording_def recording_intervals_def put_session_def
        commit_sessions_ok constraints_defs empty_db_def get_session_detail_def Let_def)
  have "two_days_db = snd (create_session 3 4 190 205
      \<lparr>sc_name = ''Day 2'', sc_record = True, sc_camera_id = None\<rparr> day1 day1 day1)"
    by (simp add: day1 two_days_db_def create_session_def refuse_if_another_is_active_def list_active_def
        camera_usable_def new_session_def follow_recording_def add_session_def commit_sessions_ok
        constraints_defs Let_def empty_db_def)
  moreover have "reach (\<lambda>p. p = (empty_db, 0)) (clocked 10) (recording_db, 100)"
    unfolding recording_db_def
    by (rule reach_step [where s = "(empty_db, 0)"]) (simp_all add: reach_init clocked_create)
  then have "reach (\<lambda>p. p = (empty_db, 0)) (clocked 10) (day1, 200)"
    unfolding day1_def by (rule reach_step) (simp add: clocked_update)
  then have "reach (\<lambda>p. p = (empty_db, 0)) (clocked 10)
      (snd (create_session 3 4 190 205 \<lparr>sc_name = ''Day 2'', sc_record = True, sc_camera_id = None\<rparr>
        day1 day1 day1), 205)"
    by (rule reach_step) (simp add: clocked_create)
  ultimately show ?thesis by simp
qed


text \<open>So a moment can belong to the windows of two Sessions, and its video to both.\<close>

lemma racing_windows_overlap:
  "\<exists>d clock. reach (\<lambda>p. p = (empty_db, 0)) (clocked 10) (d, clock)
     \<and> (100, 200) \<in> set (recorded_windows 400 (recording_intervals d 1))
     \<and> (190, 400) \<in> set (recorded_windows 400 (recording_intervals d 3))"
proof (intro exI conjI)
  show "reach (\<lambda>p. p = (empty_db, 0)) (clocked 10) (two_days_db, 205)" by (rule two_days_db_reachable)
qed (simp_all add: recorded_windows_def recording_intervals_def two_days_db_def)

lemma sort_key_map_same: "(\<And>x. k (f x) = k x) \<Longrightarrow> sort_key k (map f xs) = map f (sort_key k xs)"
proof -
  assume k: "\<And>x. k (f x) = k x"
  have ins: "insort_key k (f x) (map f ys) = map f (insort_key k x ys)" for x ys
    by (induction ys) (auto simp: k)
  show ?thesis by (induction xs) (simp_all add: ins)
qed

lemma put_session_keeps_constraints:
  assumes c: "constraints d" and b: "get_session d (s_id s) = Some b"
    and s: "s_camera_id s = s_camera_id b" "is_active s \<Longrightarrow> is_active b"
    and change: "\<And>i. change \<noteq> OpenInterval i"
  shows "constraints (put_session d s change)"
proof -
  have bin: "b \<in> set (db_sessions d)" "s_id b = s_id s" using b by (auto dest: get_session_Some)
  have same: "r = b" if "r \<in> set (db_sessions d)" "s_id r = s_id s" for r
    using c that bin distinct_key_eq [of s_id "db_sessions d" r b]
    by (simp add: constraints_iff primary_keys_def)
  have act: "unique_index s_status is_active (update_where (\<lambda>r. s_id r = s_id s) (\<lambda>_. s) (db_sessions d))"
    using c s same by (intro unique_index_update) (auto simp: constraints_iff uq_sessions_one_active_def)
  have ids: "map s_id (update_where (\<lambda>r. s_id r = s_id s) (\<lambda>_. s) (db_sessions d)) = map s_id (db_sessions d)"
    by (auto simp: update_where_def)
  have ids_set: "s_id ` set (update_where (\<lambda>r. s_id r = s_id s) (\<lambda>_. s) (db_sessions d)) = s_id ` set (db_sessions d)"
    using arg_cong [OF ids, of set] by simp
  have cam: "\<forall>r\<in>set (update_where (\<lambda>r. s_id r = s_id s) (\<lambda>_. s) (db_sessions d)). \<forall>x. s_camera_id r = Some x \<longrightarrow> x \<in> c_id ` set (db_cameras d)"
    using c s bin by (force simp: set_update_where constraints_iff foreign_keys_def)
  have iv: "map i_id (apply_interval_change change (db_intervals d)) = map i_id (db_intervals d)"
    "map i_session_id (apply_interval_change change (db_intervals d)) = map i_session_id (db_intervals d)"
    using change by (cases change; auto simp: update_where_def)+
  have iv_set: "i_session_id ` set (apply_interval_change change (db_intervals d)) = i_session_id ` set (db_intervals d)"
    using arg_cong [OF iv(2), of set] by simp
  have iv_open: "unique_index i_session_id is_open (apply_interval_change change (db_intervals d))"
    using c change by (cases change)
      (auto simp: constraints_iff uq_recording_intervals_one_open_def intro: unique_index_update)
  show ?thesis
    using c act iv_open
    by (simp add: constraints_iff primary_keys_def uq_sessions_one_active_def foreign_keys_def
        uq_bullet_holes_session_idempotency_key_def uq_cameras_alias_def
        uq_recording_intervals_one_open_def uq_runs_session_id_taken_at_def put_session_def
        ids ids_set cam iv iv_set)
qed


text \<open>Closing the open interval at a moment leaves the windows as they were at that moment, for good.\<close>

lemma closing_freezes_windows:
  assumes c: "constraints d" and i: "find is_open (recording_intervals d sid) = Some i"
    and d': "db_intervals d' = update_where (\<lambda>j. i_id j = i_id i) (\<lambda>j. j\<lparr>i_ended_at := Some now\<rparr>) (db_intervals d)"
  shows "recorded_windows later (recording_intervals d' sid) = recorded_windows now (recording_intervals d sid)"
proof -
  define f :: "interval_row \<Rightarrow> interval_row"
    where "f = (\<lambda>j. if i_id j = i_id i then j\<lparr>i_ended_at := Some now\<rparr> else j)"
  have open_i: "i \<in> set (db_intervals d)" "i_session_id i = sid" "is_open i"
    using i by (auto dest: find_SomeD)
  have "filter (\<lambda>j. i_session_id j = sid) (map f (db_intervals d))
      = map f (filter (\<lambda>j. i_session_id j = sid) (db_intervals d))"
    by (simp add: filter_map comp_def f_def cong: if_cong)
  then have "recording_intervals d' sid = map f (recording_intervals d sid)"
    using sort_key_map_same [of i_started_at f] by (simp add: d' recording_intervals_def update_where_def f_def)
  moreover have "(case i_ended_at (f j) of Some e \<Rightarrow> e | None \<Rightarrow> later) = (case i_ended_at j of Some e \<Rightarrow> e | None \<Rightarrow> now)"
    if j: "j \<in> set (recording_intervals d sid)" for j
  proof (cases "i_id j = i_id i")
    case True
    then have "j = i"
      using distinct_key_eq [OF intervals_ids_distinct [OF c], of j i] j open_i by simp
    then show ?thesis using open_i by (simp add: f_def)
  next
    case False
    then have "\<not> is_open j" using one_open_interval [OF c, of j i] j open_i by auto
    then show ?thesis using False by (auto simp: f_def split: option.splits)
  qed
  moreover have "i_started_at (f j) = i_started_at j" for j by (simp add: f_def)
  ultimately show ?thesis by (simp add: recorded_windows_def)
qed

text \<open>
  C23. Completing an active Session succeeds, sets its end to the moment of the request, leaves it
  with no open recording interval, and fixes the windows it recorded: read at any later time they
  are those of the moment it was completed.
\<close>

theorem completing_freezes_windows:
  assumes ok: "sessions_ok d" and s: "get_session d sid = Some s" "is_active s"
  shows "\<exists>d'. update_session sid iid now1 now2 complete_patch d_check d d_re
        = (Inr (s\<lparr>s_status := Completed, s_ended_at := Some now1\<rparr>, active_bullet_holes d sid), d')
    \<and> get_session d' sid = Some (s\<lparr>s_status := Completed, s_ended_at := Some now1\<rparr>)
    \<and> \<not> has_open d' sid
    \<and> recorded_windows later (recording_intervals d' sid) = recorded_windows now1 (recording_intervals d sid)"
proof -
  define s' where "s' = s\<lparr>s_status := Completed, s_ended_at := Some now1\<rparr>"
  define ch where "ch = follow_recording s' (recording_intervals d sid) now2 iid"
  define d' where "d' = put_session d s' ch"
  have sin: "s \<in> set (db_sessions d)" "s_id s = sid" using s(1) by (auto dest: get_session_Some)
  have ended: "s_ended_at s = None" using ok sin s(2) by (auto simp: sessions_ok_def session_ok_def)
  have ids: "s_id s' = sid" using sin by (simp add: s'_def)
  have patch: "patch_status complete_patch now1 d_check (patch_fields complete_patch s) = Inr s'"
    using ended by (simp add: patch_status_def patch_fields_def complete_patch_def s'_def)
  have c: "constraints d" using ok by (rule sessions_ok_constraints)
  have ch_cases: "ch = (case find is_open (recording_intervals d sid) of None \<Rightarrow> KeepIntervals
      | Some i \<Rightarrow> CloseInterval (i_id i) now1)"
    by (simp add: ch_def follow_recording_def s'_def split: option.splits)
  then have "\<And>i. ch \<noteq> OpenInterval i" by (auto split: option.splits)
  then have c': "constraints d'"
    unfolding d'_def using s(1) ids by (intro put_session_keeps_constraints [OF c]) (simp_all add: s'_def)
  have upd: "update_session sid iid now1 now2 complete_patch d_check d d_re = (get_session_detail sid d', d')"
    using s(1) patch c' by (simp add: update_session_def commit_sessions_ok flip: ch_def d'_def)
  have get': "get_session d' sid = Some s'"
    using session_row_of_id [OF c', of s'] sin ids
    by (force simp: d'_def put_session_def set_update_where)
  have none: "\<not> has_open d' sid"
  proof -
    have "\<not> (s_record s' \<and> is_active s')" by (simp add: s'_def)
    then show ?thesis
      using follow_recording_set(1) [OF c ids refl refl, of now2 iid]
      by (simp add: d'_def ch_def put_session_def has_open_def)
  qed
  have windows: "recorded_windows later (recording_intervals d' sid) = recorded_windows now1 (recording_intervals d sid)"
  proof (cases "find is_open (recording_intervals d sid)")
    case None
    then have "\<And>i. i \<in> set (recording_intervals d sid) \<Longrightarrow> \<not> is_open i" by (auto simp: find_None_iff)
    moreover have "recording_intervals d' sid = recording_intervals d sid"
      using None ch_cases by (simp add: d'_def put_session_def recording_intervals_def)
    ultimately show ?thesis by (fastforce simp: recorded_windows_def split: option.splits)
  next
    case (Some i)
    then show ?thesis
      using ch_cases by (intro closing_freezes_windows [OF c Some]) (simp add: d'_def put_session_def)
  qed
  have "active_bullet_holes d' sid = active_bullet_holes d sid"
    by (simp add: active_bullet_holes_def d'_def put_session_def)
  then have "get_session_detail sid d' = Inr (s', active_bullet_holes d sid)"
    using get' by (simp add: get_session_detail_def get_with_bullets_def)
  then show ?thesis using upd get' none windows by (auto simp: s'_def)
qed

theorem completing_freezes_windows_witness:
  "\<exists>d'. snd (update_session 1 9 200 250 complete_patch recording_db recording_db recording_db) = d'
    \<and> \<not> has_open d' 1
    \<and> recorded_windows 999 (recording_intervals d' 1) = [(100, 200)]"
proof -
  have "get_session recording_db 1 = Some (hd (db_sessions recording_db))"
    "is_active (hd (db_sessions recording_db))"
    "recorded_windows 200 (recording_intervals recording_db 1) = [(100, 200)]"
    by (simp_all add: recording_db_eq get_session_def recorded_windows_def recording_intervals_def)
  then show ?thesis
    using completing_freezes_windows [OF recording_db_ok, of 1 "hd (db_sessions recording_db)" 9 200 250
        recording_db recording_db 999] by auto
qed

end
