(* ===== verification/Cameras.thy ===== *)
theory Cameras
  imports Sessions
begin

text \<open>
  \<open>WebApp/backend/app/services/cameras.py\<close> and the parts of \<open>services/mediamtx.py\<close> that decide
  something: which names \<open>mediamtx.yml\<close> defines, whether MediaMTX counts as up, whether video is
  arriving on a path, and the operations on the cameras table. MediaMTX, PyYAML and Python's regular
  expression engine are not in the repository: their answers are arguments.
\<close>

section \<open>MediaMTX answering\<close>

definition FRESH_S :: time where "FRESH_S = seconds 12"

text \<open>
  \<open>_api\<close>: an answer that is not an error is remembered; anything else raises
  \<open>MediaMTXUnreachable\<close> (\<open>None\<close>).
\<close>

datatype 'b reply = NoReply | ErrorReply nat | OkReply 'b

definition api :: "'b reply \<Rightarrow> time \<Rightarrow> time option \<Rightarrow> 'b option \<times> time option" where
  "api reply now last_answer =
     (case reply of
        NoReply \<Rightarrow> (None, last_answer)
      | ErrorReply _ \<Rightarrow> (None, last_answer)
      | OkReply body \<Rightarrow> (Some body, Some now))"

definition is_reachable :: "time \<Rightarrow> 'b reply \<Rightarrow> time \<Rightarrow> time option \<Rightarrow> bool \<times> time option" where
  "is_reachable now reply now' last_answer =
     (if (case last_answer of Some t \<Rightarrow> now - t < FRESH_S | None \<Rightarrow> False) then (True, last_answer)
      else (case api reply now' last_answer of
              (None, la) \<Rightarrow> (False, la)
            | (Some _, la) \<Rightarrow> (True, la)))"

section \<open>Paths mediamtx.yml defines\<close>

text \<open>
  \<open>_SAME_IN_GO\<close>, one piece at a time: the length of the piece the pattern starts with. The escapes
  and the bracket classes of escapes and plain characters, the group openers, the operators, the
  counted repetitions and any other single character.
\<close>

definition ascii_punct :: "char \<Rightarrow> bool" where
  "ascii_punct c \<longleftrightarrow>
     (let n = of_char c :: nat in
      (33 \<le> n \<and> n \<le> 47) \<or> (58 \<le> n \<and> n \<le> 64) \<or> (91 \<le> n \<and> n \<le> 96) \<or> (123 \<le> n \<and> n \<le> 126))"

definition same_escape :: "char \<Rightarrow> bool" where
  "same_escape c \<longleftrightarrow> c \<in> set ''dDwW'' \<or> ascii_punct c"

text \<open>The items of a bracket class and its closing bracket; \<open>some\<close> once there was an item.\<close>

fun class_piece :: "bool \<Rightarrow> string \<Rightarrow> nat option" where
  "class_piece some [] = None"
| "class_piece some (c # cs) =
     (if c = CHR '']'' then (if some then Some 1 else None)
      else if c = CHR ''['' then None
      else if c = CHR 0x5C then
        (case cs of
           d # ds \<Rightarrow> if same_escape d then map_option ((+) 2) (class_piece True ds) else None
         | [] \<Rightarrow> None)
      else map_option ((+) 1) (class_piece True cs))"

fun digits_prefix :: "string \<Rightarrow> nat" where
  "digits_prefix [] = 0"
| "digits_prefix (c # cs) = (if is_digit c then Suc (digits_prefix cs) else 0)"

definition repetition_piece :: "string \<Rightarrow> nat option" where
  "repetition_piece cs =
     (let n = digits_prefix cs in
      if n = 0 then None
      else case drop n cs of
        c # rest \<Rightarrow>
          if c = CHR ''}'' then Some (n + 2)
          else if c = CHR '','' then
            (let m = digits_prefix rest in
             case drop m rest of d # _ \<Rightarrow> if d = CHR ''}'' then Some (n + m + 3) else None | [] \<Rightarrow> None)
          else None
      | [] \<Rightarrow> None)"

fun same_in_go_piece :: "string \<Rightarrow> nat option" where
  "same_in_go_piece [] = None"
| "same_in_go_piece (c # cs) =
     (if c = CHR 0x5C then (case cs of d # _ \<Rightarrow> if same_escape d then Some 2 else None | [] \<Rightarrow> None)
      else if c = CHR ''['' then map_option ((+) 1) (class_piece False cs)
      else if c = CHR ''('' then
        (case cs of
           d # ds \<Rightarrow>
             if d = CHR ''?'' then (case ds of e # _ \<Rightarrow> if e = CHR '':'' then Some 3 else None | [] \<Rightarrow> None)
             else Some 1
         | [] \<Rightarrow> Some 1)
      else if c = CHR ''{'' then repetition_piece cs
      else if c = CHR '']'' \<or> c = CHR ''}'' then None
      else Some 1)"

lemma class_piece_pos: "class_piece b cs = Some n \<Longrightarrow> 0 < n"
  by (induction b cs arbitrary: n rule: class_piece.induct) (auto split: if_splits list.splits)

lemma same_in_go_piece_pos: "same_in_go_piece cs = Some n \<Longrightarrow> 0 < n"
  by (cases cs)
    (auto simp: repetition_piece_def Let_def split: if_splits list.splits option.splits)

function only_same_in_go :: "string \<Rightarrow> bool" where
  "only_same_in_go p =
     (if p = [] then True
      else case same_in_go_piece p of None \<Rightarrow> False | Some n \<Rightarrow> only_same_in_go (drop n p))"
  by pat_completeness auto
termination
  by (relation "measure length") (auto dest: same_in_go_piece_pos)

text \<open>\<open>compile\<close> is \<open>re.compile(p, re.ASCII)\<close>, with None for \<open>re.error\<close>.\<close>

definition go_regexp :: "(string \<Rightarrow> 're option) \<Rightarrow> string \<Rightarrow> 're option" where
  "go_regexp compile p = (if only_same_in_go p then compile p else None)"

record 're config_paths =
  cfg_names :: "string list"
  cfg_patterns :: "'re list"
  cfg_catch_all :: bool

definition config_defines :: "('re \<Rightarrow> string \<Rightarrow> bool) \<Rightarrow> 're config_paths \<Rightarrow> string \<Rightarrow> bool" where
  "config_defines search cp name \<longleftrightarrow> name \<in> set (cfg_names cp) \<or> list_ex (\<lambda>p. search p name) (cfg_patterns cp)"

text \<open>\<open>mediamtx.yml\<close> as it was read: not readable or not YAML, without a \<open>paths\<close> mapping, or its keys.\<close>

datatype config_file = Unreadable | NoPaths | PathKeys "string list"

fun read_keys :: "(string \<Rightarrow> 're option) \<Rightarrow> string list \<Rightarrow> 're config_paths \<Rightarrow> 're config_paths option" where
  "read_keys compile [] cp = Some cp"
| "read_keys compile (key # keys) cp =
     (let cp' = cp\<lparr>cfg_names := cfg_names cp @ [key]\<rparr> in
      if take 1 key = ''~'' then
        (case go_regexp compile (drop 1 key) of
           None \<Rightarrow> None
         | Some p \<Rightarrow> read_keys compile keys (cp'\<lparr>cfg_patterns := cfg_patterns cp' @ [p]\<rparr>))
      else if key = ''all_others'' \<or> key = ''all'' then read_keys compile keys (cp'\<lparr>cfg_catch_all := True\<rparr>)
      else read_keys compile keys cp')"

definition config_paths :: "(string \<Rightarrow> 're option) \<Rightarrow> config_file \<Rightarrow> 're config_paths option" where
  "config_paths compile file =
     (let empty = \<lparr>cfg_names = [], cfg_patterns = [], cfg_catch_all = False\<rparr> in
      case file of
        Unreadable \<Rightarrow> None
      | NoPaths \<Rightarrow> Some empty
      | PathKeys keys \<Rightarrow> read_keys compile keys empty)"

section \<open>Video arriving\<close>

definition STALE_S :: time where "STALE_S = seconds 10"

record path_state =
  ps_ready :: bool
  ps_inbound :: nat

type_synonym traffic = "string \<rightharpoonup> nat \<times> time option"

definition inbound_of :: "path_state \<Rightarrow> nat" where
  "inbound_of p = (if ps_ready p then ps_inbound p else 0)"

definition look :: "time \<Rightarrow> (nat \<times> time option) option \<Rightarrow> path_state \<Rightarrow> (nat \<times> time option) \<times> bool" where
  "look now previous p =
     (let inbound = inbound_of p in
      case previous of
        None \<Rightarrow> ((inbound, None), False)
      | Some (before, grew) \<Rightarrow>
          if inbound > before then ((inbound, Some now), True)
          else ((inbound, grew), case grew of Some t \<Rightarrow> now - t < STALE_S | None \<Rightarrow> False))"

text \<open>One look at every path: what is remembered of each, and which have video arriving.\<close>

definition receiving :: "time \<Rightarrow> (string \<rightharpoonup> path_state) \<Rightarrow> traffic \<Rightarrow> traffic \<times> (string \<Rightarrow> bool)" where
  "receiving now paths traffic =
     (\<lambda>name. map_option (\<lambda>p. fst (look now (traffic name) p)) (paths name),
      \<lambda>name. case paths name of None \<Rightarrow> False | Some p \<Rightarrow> snd (look now (traffic name) p))"

definition camera_status_of :: "(string \<Rightarrow> bool) option \<Rightarrow> camera_row \<Rightarrow> camera_status" where
  "camera_status_of ready c =
     (if \<not> c_enabled c then Disabled
      else case ready of
        None \<Rightarrow> Unreachable
      | Some live \<Rightarrow> if live (c_alias c) then Live else No_signal)"

definition with_status ::
    "time \<Rightarrow> (string \<rightharpoonup> path_state) option \<Rightarrow> traffic \<Rightarrow> camera_row list \<Rightarrow> traffic \<times> (camera_row \<times> camera_status) list" where
  "with_status now states traffic cameras =
     (case states of
        None \<Rightarrow> (traffic, map (\<lambda>c. (c, camera_status_of None c)) cameras)
      | Some paths \<Rightarrow>
          (let (traffic', live) = receiving now paths traffic in
           (traffic', map (\<lambda>c. (c, camera_status_of (Some live) c)) cameras)))"

text \<open>\<open>watch_traffic\<close>: the lines it logs, the paths that started and those that stopped, of \<open>names\<close>.\<close>

definition watch_traffic ::
    "time \<Rightarrow> (string \<rightharpoonup> path_state) \<Rightarrow> string list \<Rightarrow> traffic \<times> (string \<Rightarrow> bool)
       \<Rightarrow> (traffic \<times> (string \<Rightarrow> bool)) \<times> string list \<times> string list" where
  "watch_traffic now paths names st =
     (let (traffic, arriving) = st; (traffic', live) = receiving now paths traffic in
      ((traffic', live), filter (\<lambda>n. live n \<and> \<not> arriving n) names, filter (\<lambda>n. arriving n \<and> \<not> live n) names))"

section \<open>The cameras table\<close>

definition camera_not_found :: http_error where
  "camera_not_found = HTTP 404 ''Camera not found''"

definition get_camera_or_404 :: "uuid \<Rightarrow> db \<Rightarrow> http_error + camera_row" where
  "get_camera_or_404 cid d = (case get_camera d cid of None \<Rightarrow> Inl camera_not_found | Some c \<Rightarrow> Inr c)"

definition set_camera :: "camera_input \<Rightarrow> camera_row \<Rightarrow> camera_row" where
  "set_camera body c =
     c\<lparr>c_alias := ci_alias body, c_mcast_ip := show_ipv4 (ci_mcast_ip body),
       c_mcast_port := ci_mcast_port body, c_iface := ci_iface body, c_enabled := ci_enabled body\<rparr>"

definition store_camera :: "bool \<Rightarrow> camera_row \<Rightarrow> camera_input \<Rightarrow> db \<Rightarrow> (http_error + camera_row) \<times> db" where
  "store_camera is_new c body d =
     (let c' = set_camera body c in
      case save_camera is_new d c' of
        Inr d' \<Rightarrow> (Inr c', d')
      | Inl _ \<Rightarrow> (Inl (HTTP 409 (''A camera named '' @ quoted (ci_alias body) @ '' already exists'')), d))"

definition blank_camera :: "uuid \<Rightarrow> time \<Rightarrow> camera_row" where
  "blank_camera cid created =
     \<lparr>c_id = cid, c_alias = '''', c_mcast_ip = '''', c_mcast_port = 0, c_iface = None, c_enabled = True,
      c_created_at = created\<rparr>"

definition create_camera :: "uuid \<Rightarrow> time \<Rightarrow> camera_input \<Rightarrow> db \<Rightarrow> (http_error + camera_row) \<times> db" where
  "create_camera cid created body d = store_camera True (blank_camera cid created) body d"

definition name_is_fixed :: http_error where
  "name_is_fixed = HTTP 409 (''A camera'' @ [CHR 0x27] @ ''s name cannot be changed: it names its stream and recordings. Add a new camera instead.'')"

definition update_camera :: "uuid \<Rightarrow> camera_input \<Rightarrow> db \<Rightarrow> (http_error + camera_row) \<times> db" where
  "update_camera cid body d =
     (case get_camera_or_404 cid d of
        Inl e \<Rightarrow> (Inl e, d)
      | Inr c \<Rightarrow> if ci_alias body \<noteq> c_alias c then (Inl name_is_fixed, d) else store_camera False c body d)"

definition delete_camera :: "uuid \<Rightarrow> db \<Rightarrow> (http_error + unit) \<times> db" where
  "delete_camera cid d =
     (case get_camera_or_404 cid d of
        Inl e \<Rightarrow> (Inl e, d)
      | Inr c \<Rightarrow> (Inr (), delete_camera_row d (c_id c)))"

section \<open>The table keeps its invariants\<close>

lemma store_camera_ok:
  assumes "sessions_ok d"
  shows "sessions_ok (snd (store_camera is_new c body d))"
proof (cases "commit (put_camera is_new d (set_camera body c))")
  case (Inl e)
  then show ?thesis using assms by (simp add: store_camera_def save_camera_def Let_def)
next
  case (Inr d')
  then have d': "d' = put_camera is_new d (set_camera body c)" and c': "constraints d'" by simp_all
  then show ?thesis
    using assms by (simp add: store_camera_def save_camera_def commit_ok sessions_ok_def session_ok_def
        has_open_def put_camera_def Let_def split: if_splits)
qed

lemma delete_camera_constraints:
  assumes "constraints d"
  shows "constraints (delete_camera_row d cid)"
proof -
  let ?s = "update_where (\<lambda>s. s_camera_id s = Some cid) (\<lambda>s. s\<lparr>s_camera_id := None\<rparr>) (db_sessions d)"
  have ids: "map s_id ?s = map s_id (db_sessions d)" by (simp add: map_update_where_key)
  then have ids_set: "s_id ` set ?s = s_id ` set (db_sessions d)" by (metis set_map)
  have one: "unique_index s_status is_active ?s"
    using assms by (intro unique_index_update) (auto simp: constraints_iff uq_sessions_one_active_def)
  have cam: "\<forall>s\<in>set ?s. \<forall>c. s_camera_id s = Some c \<longrightarrow> c \<in> c_id ` set (delete_where (\<lambda>c. c_id c = cid) (db_cameras d))"
    using assms by (fastforce simp: constraints_iff foreign_keys_def set_update_where set_delete_where)
  show ?thesis
    using assms one cam
    by (simp add: constraints_iff primary_keys_def uq_sessions_one_active_def foreign_keys_def
        uq_bullet_holes_session_idempotency_key_def uq_cameras_alias_def unique_index_delete
        uq_recording_intervals_one_open_def uq_runs_session_id_taken_at_def delete_camera_row_def
        ids ids_set) (auto simp: delete_where_def intro: distinct_map_filter)
qed

lemma delete_camera_ok:
  assumes "sessions_ok d"
  shows "sessions_ok (snd (delete_camera cid d))"
proof (cases "get_camera d cid")
  case None
  then show ?thesis using assms by (simp add: delete_camera_def get_camera_or_404_def)
next
  case (Some c)
  define d' where "d' = delete_camera_row d (c_id c)"
  have "has_open d' t = has_open d t" for t
    by (simp add: has_open_def d'_def delete_camera_row_def)
  then have same: "session_ok d' (s\<lparr>s_camera_id := None\<rparr>) = session_ok d s" "session_ok d' s = session_ok d s" for s
    by (simp_all add: session_ok_def)
  have "session_ok d' s" if "s \<in> set (db_sessions d')" for s
    using that assms same
    by (auto simp: d'_def delete_camera_row_def set_update_where sessions_ok_def split: if_splits)
  then show ?thesis
    using Some assms delete_camera_constraints [of d "c_id c"]
    by (simp add: delete_camera_def get_camera_or_404_def sessions_ok_def d'_def)
qed

lemma create_camera_ok: "sessions_ok d \<Longrightarrow> sessions_ok (snd (create_camera cid created body d))"
  by (simp add: create_camera_def store_camera_ok)

lemma update_camera_ok: "sessions_ok d \<Longrightarrow> sessions_ok (snd (update_camera cid body d))"
  by (simp add: update_camera_def store_camera_ok split: sum.splits)

section \<open>Video arriving\<close>

text \<open>The looks at one path that was there at all of them, from what was remembered before.\<close>

definition looked :: "(time \<times> path_state) list \<Rightarrow> (nat \<times> time option) option \<times> bool \<Rightarrow> (nat \<times> time option) option \<times> bool" where
  "looked ps = fold (\<lambda>(t, p) (previous, _). let (now_known, live) = look t previous p in (Some now_known, live)) ps"

fun growth_times :: "nat \<Rightarrow> (time \<times> path_state) list \<Rightarrow> time list" where
  "growth_times before [] = []"
| "growth_times before ((t, p) # ps) =
     (if inbound_of p > before then [t] else []) @ growth_times (inbound_of p) ps"

lemma looked_Cons:
  "looked ((t, p) # ps) (Some (before, grew), b) = looked ps
     (if inbound_of p > before then (Some (inbound_of p, Some t), True)
      else (Some (inbound_of p, grew), case grew of Some t' \<Rightarrow> t - t' < STALE_S | None \<Rightarrow> False))"
  by (simp add: looked_def look_def Let_def)

lemma looked_from:
  assumes "ps \<noteq> []"
  shows "\<exists>c. looked ps (Some (before, grew), b) =
    (Some (c, if growth_times before ps = [] then grew else Some (last (growth_times before ps))),
     case (if growth_times before ps = [] then grew else Some (last (growth_times before ps))) of
       Some t \<Rightarrow> fst (last ps) - t < STALE_S | None \<Rightarrow> False)"
  using assms
proof (induction ps arbitrary: before grew b)
  case Nil
  then show ?case by simp
next
  case (Cons x ps)
  obtain t p where x: "x = (t, p)" by (cases x)
  show ?case
  proof (cases "ps = []")
    case True
    then show ?thesis by (auto simp: x looked_Cons STALE_S_def split: option.splits) (simp_all add: looked_def)
  next
    case False
    show ?thesis
    proof (cases "inbound_of p > before")
      case True
      then show ?thesis
        using Cons.IH [OF False, of "inbound_of p" "Some t" True] False by (auto simp: x looked_Cons)
    next
      case less: False
      then show ?thesis
        using Cons.IH [OF False, of "inbound_of p" grew "case grew of Some t' \<Rightarrow> t - t' < STALE_S | None \<Rightarrow> False"] False
        by (cases grew; cases "growth_times (inbound_of p) ps = []") (simp_all add: x looked_Cons)
    qed
  qed
qed

lemma growth_times_sub: "set (growth_times before ps) \<subseteq> fst ` set ps"
  by (induction before ps rule: growth_times.induct) auto

lemma growth_times_sorted: "sorted (map fst ps) \<Longrightarrow> sorted (growth_times before ps)"
proof (induction before ps rule: growth_times.induct)
  case (2 before t p ps)
  then show ?case using growth_times_sub [of "inbound_of p" ps] by (auto simp: sorted_append)
qed simp

text \<open>
  A camera counts as live exactly when the byte counter of its path grew, from one look to the
  next, less than \<open>STALE_S\<close> before the latest look; so never at the first look at it.
\<close>

theorem live_iff_grew_lately:
  assumes "sorted (map fst ps)"
  shows "snd (looked ((t0, p0) # ps) (None, False)) \<longleftrightarrow>
    ps \<noteq> [] \<and> (\<exists>t\<in>set (growth_times (inbound_of p0) ps). fst (last ps) - t < STALE_S)"
proof (cases "ps = []")
  case True
  then show ?thesis by (simp add: looked_def look_def Let_def)
next
  case False
  let ?g = "growth_times (inbound_of p0) ps"
  have step: "looked ((t0, p0) # ps) (None, False) = looked ps (Some (inbound_of p0, None), False)"
    by (simp add: looked_def look_def Let_def)
  have le: "t \<le> last ?g" if "t \<in> set ?g" for t
  proof -
    have "sorted (butlast ?g @ [last ?g])"
      using growth_times_sorted [OF assms] that by (metis append_butlast_last_id empty_iff list.set(1))
    moreover have "t \<in> set (butlast ?g @ [last ?g])"
      using that by (metis append_butlast_last_id empty_iff list.set(1))
    ultimately show ?thesis by (auto simp: sorted_append)
  qed
  show ?thesis
    using looked_from [OF False, of "inbound_of p0" None False] False
    by (cases "?g = []") (auto simp: step dest!: le intro: bexI [of _ "last ?g"] last_in_set)
qed

theorem live_iff_grew_lately_witness:
  "snd (looked [(0, \<lparr>ps_ready = True, ps_inbound = 5\<rparr>), (seconds 5, \<lparr>ps_ready = True, ps_inbound = 9\<rparr>),
      (seconds 10, \<lparr>ps_ready = True, ps_inbound = 9\<rparr>)] (None, False))"
  using live_iff_grew_lately [of "[(seconds 5, \<lparr>ps_ready = True, ps_inbound = 9\<rparr>),
      (seconds 10, \<lparr>ps_ready = True, ps_inbound = 9\<rparr>)]" 0 "\<lparr>ps_ready = True, ps_inbound = 5\<rparr>"]
  by (simp add: inbound_of_def STALE_S_def)

end
