(* ===== verification/Camera_Sync.thy ===== *)
theory Camera_Sync
  imports Cameras
begin

text \<open>
  \<open>WebApp/backend/app/services/camera_sync.py\<close>: keeping MediaMTX's camera paths as the cameras table
  wants them. MediaMTX's Control API is an argument of the model: \<open>exec\<close> is one call, which answers
  or fails and gives MediaMTX's next state. A path's configuration is a finite map from its keys to
  their JSON values; only the keys the sync writes matter.
\<close>

section \<open>Path configurations\<close>

datatype json_value = JBool bool | JStr string | JOther int

type_synonym config = "(string \<times> json_value) list"

definition config_get :: "config \<Rightarrow> string \<Rightarrow> json_value option" where
  "config_get c k = map_of c k"

definition RECORDING :: config where
  "RECORDING =
     [(''recordPath'', JStr ''./recordings/%path/%Y-%m-%d_%H-%M-%S-%f''),
      (''recordFormat'', JStr ''fmp4''),
      (''recordPartDuration'', JStr ''2s''),
      (''recordSegmentDuration'', JStr ''10m0s''),
      (''recordDeleteAfter'', JStr ''1d'')]"

definition RECORD_SCRIPT :: string where "RECORD_SCRIPT = ''./run_record.sh''"

definition newline :: char where "newline = CHR 0x0A"
definition squote :: char where "squote = CHR 0x27"
definition dquote :: char where "dquote = CHR 0x22"

definition rtsp_url :: "string \<Rightarrow> string" where
  "rtsp_url alias = ''rtsp://127.0.0.1:${RTSP_PORT}/'' @ alias"

definition run_on_init :: "camera_row \<Rightarrow> string" where
  "run_on_init c =
     (let iface_arg = (case c_iface c of
            None \<Rightarrow> []
          | Some i \<Rightarrow> if i = [] then [] else '' --iface '' @ [dquote] @ i @ [dquote]) in
      ''bash -lc '' @ [squote, newline]
      @ ''exec '' @ RECORD_SCRIPT @ '' --mcast-ip '' @ [dquote] @ c_mcast_ip c @ [dquote]
      @ '' --mcast-port '' @ [dquote] @ show_int (c_mcast_port c) @ [dquote]
      @ '' --rtsp-url '' @ [dquote] @ rtsp_url (c_alias c) @ [dquote] @ iface_arg @ [newline]
      @ [squote])"

definition path_config :: "camera_row \<Rightarrow> bool \<Rightarrow> config" where
  "path_config c rec =
     [(''source'', JStr ''publisher''), (''sourceOnDemand'', JBool False),
      (''overridePublisher'', JBool True), (''runOnInit'', JStr (run_on_init c)),
      (''runOnInitRestart'', JBool True), (''record'', JBool rec)] @ RECORDING"

definition playback_only_config :: config where
  "playback_only_config =
     [(''source'', JStr ''publisher''), (''sourceOnDemand'', JBool False),
      (''overridePublisher'', JBool True), (''runOnInit'', JStr []),
      (''runOnInitRestart'', JBool False), (''record'', JBool False)] @ RECORDING"

definition runs_record_script :: "config \<Rightarrow> bool" where
  "runs_record_script config =
     (case config_get config ''runOnInit'' of Some (JStr s) \<Rightarrow> sublist RECORD_SCRIPT s | _ \<Rightarrow> False)"

definition has_settings :: "config \<Rightarrow> config \<Rightarrow> bool" where
  "has_settings config wanted \<longleftrightarrow> list_all (\<lambda>(k, v). config_get config k = Some v) wanted"

definition is_camera_path ::
    "('re \<Rightarrow> string \<Rightarrow> bool) \<Rightarrow> string \<Rightarrow> config \<Rightarrow> 're config_paths option \<Rightarrow> bool" where
  "is_camera_path search name config cp =
     (if runs_record_script config
      then (case cp of None \<Rightarrow> True | Some p \<Rightarrow> \<not> config_defines search p name)
      else case cp of
        None \<Rightarrow> False
      | Some p \<Rightarrow> \<not> config_defines search p name \<and> has_settings config playback_only_config)"

text \<open>\<open>current\<close>: MediaMTX's list of paths by name, or None when it did not answer.\<close>

definition taken_by_config ::
    "('re \<Rightarrow> string \<Rightarrow> bool) \<Rightarrow> 're config_paths option \<Rightarrow> (string \<times> config) list option \<Rightarrow> string \<Rightarrow> bool" where
  "taken_by_config search cp current alias =
     ((case cp of Some p \<Rightarrow> config_defines search p alias | None \<Rightarrow> False)
      \<or> (case current of
           None \<Rightarrow> False
         | Some paths \<Rightarrow>
             (case map_of paths alias of
                None \<Rightarrow> False
              | Some config \<Rightarrow> \<not> is_camera_path search alias config cp)))"

section \<open>One round of the sync\<close>

datatype api_call = AddPath string config | PatchPath string config | DeletePath string

text \<open>The module's globals.\<close>

record sync_state =
  ss_conflicts :: "string set"
  ss_recording :: "bool option"
  ss_config_unknown :: bool

text \<open>
  What a round has done: the calls made so far (the last one may have failed), whether one failed,
  the names found in conflict, and MediaMTX's state.
\<close>

record 'm round =
  rd_calls :: "api_call list"
  rd_failed :: bool
  rd_conflicts :: "string set"
  rd_mtx :: 'm

definition make_call :: "(api_call \<Rightarrow> 'm \<Rightarrow> bool \<times> 'm) \<Rightarrow> api_call \<Rightarrow> 'm round \<Rightarrow> 'm round" where
  "make_call exec call r =
     (let (ok, m) = exec call (rd_mtx r) in
      r\<lparr>rd_calls := rd_calls r @ [call], rd_failed := \<not> ok, rd_mtx := m\<rparr>)"

definition changed_fields :: "config \<Rightarrow> config \<Rightarrow> config" where
  "changed_fields config existing = filter (\<lambda>(k, v). config_get existing k \<noteq> Some v) config"

definition sync_wanted ::
    "('re \<Rightarrow> string \<Rightarrow> bool) \<Rightarrow> 're config_paths \<Rightarrow> (string \<times> config) list \<Rightarrow> (api_call \<Rightarrow> 'm \<Rightarrow> bool \<times> 'm)
       \<Rightarrow> string \<times> config \<Rightarrow> 'm round \<Rightarrow> 'm round" where
  "sync_wanted search cp current exec = (\<lambda>(name, config) r.
     if rd_failed r then r
     else
       let existing = map_of current name in
       if config_defines search cp name
          \<or> (case existing of None \<Rightarrow> False | Some e \<Rightarrow> \<not> is_camera_path search name e (Some cp))
       then r\<lparr>rd_conflicts := insert name (rd_conflicts r)\<rparr>
       else case existing of
         None \<Rightarrow> make_call exec (AddPath name config) r
       | Some e \<Rightarrow>
           let changed = changed_fields config e in
           if changed = [] then r else make_call exec (PatchPath name changed) r)"

definition sync_unwanted ::
    "('re \<Rightarrow> string \<Rightarrow> bool) \<Rightarrow> 're config_paths \<Rightarrow> (string \<times> config) list \<Rightarrow> (api_call \<Rightarrow> 'm \<Rightarrow> bool \<times> 'm)
       \<Rightarrow> string \<times> config \<Rightarrow> 'm round \<Rightarrow> 'm round" where
  "sync_unwanted search cp wanted exec = (\<lambda>(name, existing) r.
     if rd_failed r then r
     else if map_of wanted name = None \<and> is_camera_path search name existing (Some cp)
     then make_call exec (DeletePath name) r
     else r)"

definition wanted_paths :: "db \<Rightarrow> (string \<times> config) list" where
  "wanted_paths d =
     (let rec = recording_session_active d in
      map (\<lambda>c. (c_alias c, if c_enabled c then path_config c rec else playback_only_config))
        (list_all_cameras d))"

text \<open>
  \<open>sync\<close>: \<open>current\<close> is what \<open>list_path_configs\<close> answered (None: unreachable). The second part is
  True when \<open>MediaMTXUnreachable\<close> is raised.
\<close>

definition sync ::
    "('re \<Rightarrow> string \<Rightarrow> bool) \<Rightarrow> (api_call \<Rightarrow> 'm \<Rightarrow> bool \<times> 'm) \<Rightarrow> db \<Rightarrow> (string \<times> config) list option
       \<Rightarrow> 're config_paths option \<Rightarrow> sync_state \<Rightarrow> 'm \<Rightarrow> api_call list \<times> bool \<times> sync_state \<times> 'm" where
  "sync search exec d listing cp st m =
     (case listing of
        None \<Rightarrow> ([], True, st, m)
      | Some current \<Rightarrow>
          (case cp of
             None \<Rightarrow> ([], False, st\<lparr>ss_config_unknown := True\<rparr>, m)
           | Some p \<Rightarrow>
               let wanted = wanted_paths d;
                   rec = recording_session_active d;
                   r0 = \<lparr>rd_calls = [], rd_failed = False, rd_conflicts = ss_conflicts st, rd_mtx = m\<rparr>;
                   r1 = fold (sync_wanted search p current exec) wanted r0;
                   r2 = fold (sync_unwanted search p wanted exec) current r1;
                   st' = st\<lparr>ss_config_unknown := False, ss_conflicts := rd_conflicts r2\<rparr>;
                   st'' = (if \<not> rd_failed r2 \<and> Some rec \<noteq> ss_recording st \<and> wanted \<noteq> []
                           then st'\<lparr>ss_recording := Some rec\<rparr> else st') in
               (rd_calls r2, rd_failed r2, st'', rd_mtx r2)))"

text \<open>\<open>sync_soon\<close>: a failed sync is logged, never raised.\<close>

definition sync_soon ::
    "('re \<Rightarrow> string \<Rightarrow> bool) \<Rightarrow> (api_call \<Rightarrow> 'm \<Rightarrow> bool \<times> 'm) \<Rightarrow> db \<Rightarrow> (string \<times> config) list option
       \<Rightarrow> 're config_paths option \<Rightarrow> sync_state \<Rightarrow> 'm \<Rightarrow> bool \<times> sync_state \<times> 'm" where
  "sync_soon search exec d listing cp st m =
     (let (_, failed, st', m') = sync search exec d listing cp st m in (failed, st', m'))"

text \<open>
  One turn of \<open>run_forever\<close>: when the replay cache is cleaned, and what is logged of the round's
  success or failure. The cache is cleaned every \<open>CACHE_CLEAN_INTERVAL_S\<close>.
\<close>

definition CACHE_CLEAN_INTERVAL_S :: time where "CACHE_CLEAN_INTERVAL_S = seconds 600"

datatype loop_log = Restored | Failing

definition loop_turn :: "time \<Rightarrow> bool \<Rightarrow> bool \<times> time option \<Rightarrow> (bool \<times> time option) \<times> bool \<times> loop_log list" where
  "loop_turn now ok st =
     (let (failing, cleaned_at) = st;
          clean = (case cleaned_at of None \<Rightarrow> True | Some t \<Rightarrow> now - t \<ge> CACHE_CLEAN_INTERVAL_S) in
      ((\<not> ok, if clean then Some now else cleaned_at), clean,
       if ok then (if failing then [Restored] else []) else (if failing then [] else [Failing])))"

section \<open>Which paths a round touches\<close>

fun call_name :: "api_call \<Rightarrow> string" where
  "call_name (AddPath n _) = n"
| "call_name (PatchPath n _) = n"
| "call_name (DeletePath n) = n"

definition in_conflict ::
    "('re \<Rightarrow> string \<Rightarrow> bool) \<Rightarrow> 're config_paths \<Rightarrow> (string \<times> config) list \<Rightarrow> string \<Rightarrow> bool" where
  "in_conflict search cp current name \<longleftrightarrow>
     config_defines search cp name
     \<or> (case map_of current name of None \<Rightarrow> False | Some e \<Rightarrow> \<not> is_camera_path search name e (Some cp))"

text \<open>A call the round may make, given what it was told of MediaMTX.\<close>

definition allowed_call ::
    "('re \<Rightarrow> string \<Rightarrow> bool) \<Rightarrow> 're config_paths \<Rightarrow> (string \<times> config) list \<Rightarrow> (string \<times> config) list \<Rightarrow> api_call \<Rightarrow> bool" where
  "allowed_call search cp wanted current call \<longleftrightarrow>
     \<not> in_conflict search cp current (call_name call)
     \<and> (case call of
          AddPath n c \<Rightarrow> (n, c) \<in> set wanted \<and> map_of current n = None
        | PatchPath n fs \<Rightarrow> (\<exists>c e. (n, c) \<in> set wanted \<and> map_of current n = Some e \<and> fs = changed_fields c e)
        | DeletePath n \<Rightarrow> map_of wanted n = None \<and> map_of current n \<noteq> None)"

lemma camera_path_not_defined: "is_camera_path search n e (Some cp) \<Longrightarrow> \<not> config_defines search cp n"
  by (simp add: is_camera_path_def split: if_splits)

lemma sync_wanted_calls:
  assumes "set ws \<subseteq> set wanted" "\<forall>c\<in>set (rd_calls r). allowed_call search cp wanted current c"
  shows "\<forall>c\<in>set (rd_calls (fold (sync_wanted search cp current exec) ws r)). allowed_call search cp wanted current c"
  using assms
proof (induction ws arbitrary: r)
  case (Cons w ws)
  obtain n c where w: "w = (n, c)" by (cases w)
  have "\<forall>c\<in>set (rd_calls (sync_wanted search cp current exec w r)). allowed_call search cp wanted current c"
    using Cons.prems
    by (auto simp: w sync_wanted_def Let_def make_call_def allowed_call_def in_conflict_def
        split: option.splits prod.splits)
  then show ?case using Cons by simp
qed simp

lemma sync_unwanted_calls:
  assumes "set es \<subseteq> set current" "distinct (map fst current)"
    and "\<forall>c\<in>set (rd_calls r). allowed_call search cp wanted current c"
  shows "\<forall>c\<in>set (rd_calls (fold (sync_unwanted search cp wanted exec) es r)). allowed_call search cp wanted current c"
  using assms
proof (induction es arbitrary: r)
  case (Cons w es)
  obtain n e where w: "w = (n, e)" by (cases w)
  then have "map_of current n = Some e" using Cons.prems by simp
  then have "\<forall>c\<in>set (rd_calls (sync_unwanted search cp wanted exec w r)). allowed_call search cp wanted current c"
    using Cons.prems(3) camera_path_not_defined [of search n e cp]
    by (auto simp: w sync_unwanted_def make_call_def allowed_call_def in_conflict_def split: prod.splits)
  then show ?case using Cons by simp
qed simp

text \<open>
  A round of the sync never calls MediaMTX about a path \<open>mediamtx.yml\<close> defines, nor about an
  existing path that is not a camera's: it adds only names MediaMTX does not have, patches only
  cameras' paths, deletes only cameras' paths no camera wants; and it makes no call at all while
  \<open>mediamtx.yml\<close> is unknown.
\<close>

theorem sync_touches_only_camera_paths:
  assumes "sync search exec d (Some current) cp st m = (calls, failed, st', m')"
    and "distinct (map fst current)" "call \<in> set calls"
  shows "\<exists>p. cp = Some p \<and> \<not> config_defines search p (call_name call)
    \<and> (\<forall>e. map_of current (call_name call) = Some e \<longrightarrow> is_camera_path search (call_name call) e (Some p))
    \<and> (case call of
         AddPath n c \<Rightarrow> (n, c) \<in> set (wanted_paths d) \<and> map_of current n = None
       | PatchPath n fs \<Rightarrow>
           (\<exists>c e. (n, c) \<in> set (wanted_paths d) \<and> map_of current n = Some e \<and> fs = changed_fields c e)
       | DeletePath n \<Rightarrow> map_of (wanted_paths d) n = None \<and> map_of current n \<noteq> None)"
proof (cases cp)
  case None
  then show ?thesis using assms by (simp add: sync_def)
next
  case (Some p)
  let ?r0 = "\<lparr>rd_calls = [], rd_failed = False, rd_conflicts = ss_conflicts st, rd_mtx = m\<rparr>"
  let ?r1 = "fold (sync_wanted search p current exec) (wanted_paths d) ?r0"
  have "\<forall>c\<in>set (rd_calls (fold (sync_unwanted search p (wanted_paths d) exec) current ?r1)).
      allowed_call search p (wanted_paths d) current c"
    using assms(2) by (intro sync_unwanted_calls sync_wanted_calls) simp_all
  then have "allowed_call search p (wanted_paths d) current call"
    using assms(1,3) Some by (auto simp: sync_def Let_def)
  then show ?thesis
    using Some by (auto simp: allowed_call_def in_conflict_def split: option.splits)
qed

section \<open>Where a round leaves MediaMTX\<close>

text \<open>
  What the Control API is documented to do when a call answers, on the path configurations a state
  of MediaMTX holds: an added path has the settings it was given, a patched one the given fields and
  otherwise what it had, a deleted one is gone, and no call touches another path.
\<close>

definition documented_api :: "('m \<Rightarrow> string \<Rightarrow> config option) \<Rightarrow> (api_call \<Rightarrow> 'm \<Rightarrow> bool \<times> 'm) \<Rightarrow> bool" where
  "documented_api paths exec \<longleftrightarrow>
     (\<forall>call m m'. exec call m = (True, m') \<longrightarrow>
        (\<forall>n. n \<noteq> call_name call \<longrightarrow> paths m' n = paths m n)
        \<and> (case call of
             AddPath n config \<Rightarrow>
               paths m n = None \<longrightarrow> (\<exists>c. paths m' n = Some c \<and> (\<forall>k v. map_of config k = Some v \<longrightarrow> config_get c k = Some v))
           | PatchPath n fs \<Rightarrow>
               (\<forall>e. paths m n = Some e \<longrightarrow>
                  (\<exists>c. paths m' n = Some c
                     \<and> (\<forall>k. config_get c k = (case map_of fs k of Some v \<Rightarrow> Some v | None \<Rightarrow> config_get e k))))
           | DeletePath n \<Rightarrow> paths m' n = None))"

lemma wanted_paths_keys:
  "(n, config) \<in> set (wanted_paths d) \<Longrightarrow> distinct (map fst config)"
  by (auto simp: wanted_paths_def path_config_def playback_only_config_def RECORDING_def Let_def)

lemma changed_fields_settled:
  assumes "distinct (map fst config)"
    and "\<forall>k. config_get c k = (case map_of (changed_fields config e) k of Some v \<Rightarrow> Some v | None \<Rightarrow> config_get e k)"
  shows "has_settings c config"
proof -
  have "config_get c k = Some v" if kv: "(k, v) \<in> set config" for k v
  proof (cases "map_of (changed_fields config e) k")
    case None
    then have "(k, v) \<notin> set (changed_fields config e)"
      by (auto simp: map_of_eq_None_iff image_iff)
    then have "config_get e k = Some v" using kv by (simp add: changed_fields_def)
    then show ?thesis using assms(2) None by simp
  next
    case (Some v')
    then have "(k, v') \<in> set config" by (auto simp: changed_fields_def dest: map_of_SomeD)
    then have "v' = v" using kv assms(1) by (metis map_of_is_SomeI option.inject)
    then show ?thesis using assms(2) Some by simp
  qed
  then show ?thesis by (auto simp: has_settings_def list_all_iff)
qed

text \<open>The state of one wanted path once the round has dealt with it.\<close>

definition settled ::
    "('re \<Rightarrow> string \<Rightarrow> bool) \<Rightarrow> 're config_paths \<Rightarrow> (string \<times> config) list \<Rightarrow> string \<Rightarrow> config \<Rightarrow> config option \<Rightarrow> bool" where
  "settled search cp current n config now \<longleftrightarrow>
     (if in_conflict search cp current n then now = map_of current n
      else \<exists>c. now = Some c \<and> has_settings c config)"

lemma sync_wanted_failed: "rd_failed r \<Longrightarrow> fold (sync_wanted search cp current exec) ws r = r"
  by (induction ws) (auto simp: sync_wanted_def)

lemma sync_unwanted_failed: "rd_failed r \<Longrightarrow> fold (sync_unwanted search cp wanted exec) ws r = r"
  by (induction ws) (auto simp: sync_unwanted_def)

lemma sync_wanted_one:
  assumes api: "documented_api paths exec" and keys: "distinct (map fst config)"
    and ok: "\<not> rd_failed (sync_wanted search cp current exec (n, config) r)"
    and now: "paths (rd_mtx r) n = map_of current n"
  shows "settled search cp current n config (paths (rd_mtx (sync_wanted search cp current exec (n, config) r)) n)"
    and "k \<noteq> n \<Longrightarrow> paths (rd_mtx (sync_wanted search cp current exec (n, config) r)) k = paths (rd_mtx r) k"
proof -
  let ?r = "sync_wanted search cp current exec (n, config) r"
  have nf: "\<not> rd_failed r" using ok by (auto simp: sync_wanted_def)
  have "settled search cp current n config (paths (rd_mtx ?r) n) \<and> (k \<noteq> n \<longrightarrow> paths (rd_mtx ?r) k = paths (rd_mtx r) k)" for k
  proof (cases "in_conflict search cp current n")
    case True
    then have "rd_mtx ?r = rd_mtx r" using nf by (auto simp: sync_wanted_def in_conflict_def Let_def)
    then show ?thesis using True now by (simp add: settled_def)
  next
    case False
    note nc = False
    show ?thesis
    proof (cases "map_of current n")
      case None
      obtain b m' where e: "exec (AddPath n config) (rd_mtx r) = (b, m')" by fastforce
      then have r': "?r = make_call exec (AddPath n config) r"
        using nf nc None by (auto simp: sync_wanted_def in_conflict_def Let_def)
      then have b: "b" using ok e by (simp add: make_call_def)
      from api e b have
        A: "\<And>j. j \<noteq> n \<Longrightarrow> paths m' j = paths (rd_mtx r) j" and
        B: "paths (rd_mtx r) n = None \<Longrightarrow> \<exists>c. paths m' n = Some c \<and> (\<forall>k v. map_of config k = Some v \<longrightarrow> config_get c k = Some v)"
        unfolding documented_api_def by (force dest: spec [of _ "AddPath n config"])+
      then obtain c where "paths m' n = Some c" "\<forall>k v. map_of config k = Some v \<longrightarrow> config_get c k = Some v"
        using now None by auto
      moreover from this have "has_settings c config"
        using keys by (auto simp: has_settings_def list_all_iff)
      ultimately show ?thesis using A r' e nc by (simp add: make_call_def settled_def)
    next
      case (Some ex)
      show ?thesis
      proof (cases "changed_fields config ex = []")
        case True
        then have "?r = r" using nf nc Some by (auto simp: sync_wanted_def in_conflict_def Let_def)
        moreover have "has_settings ex config"
          using True by (auto simp: changed_fields_def has_settings_def list_all_iff filter_empty_conv)
        ultimately show ?thesis using nc now Some by (simp add: settled_def)
      next
        case False
        obtain b m' where e: "exec (PatchPath n (changed_fields config ex)) (rd_mtx r) = (b, m')" by fastforce
        have r': "?r = make_call exec (PatchPath n (changed_fields config ex)) r"
          using nf nc Some False by (auto simp: sync_wanted_def in_conflict_def Let_def)
        then have b: "b" using ok e by (simp add: make_call_def)
        from api e b have
          A: "\<And>j. j \<noteq> n \<Longrightarrow> paths m' j = paths (rd_mtx r) j" and
          B: "\<And>x. paths (rd_mtx r) n = Some x \<Longrightarrow> \<exists>c. paths m' n = Some c
              \<and> (\<forall>k. config_get c k = (case map_of (changed_fields config ex) k of Some v \<Rightarrow> Some v | None \<Rightarrow> config_get x k))"
          unfolding documented_api_def by (force dest: spec [of _ "PatchPath n (changed_fields config ex)"])+
        then obtain c where "paths m' n = Some c" "has_settings c config"
          using now Some changed_fields_settled [OF keys] by metis
        then show ?thesis using A r' e nc by (simp add: make_call_def settled_def)
      qed
    qed
  qed
  then show "settled search cp current n config (paths (rd_mtx ?r) n)"
    and "k \<noteq> n \<Longrightarrow> paths (rd_mtx ?r) k = paths (rd_mtx r) k" by auto
qed

lemma sync_wanted_all:
  assumes api: "documented_api paths exec" and "\<forall>(n, config)\<in>set ws. distinct (map fst config)"
    and "distinct (map fst ws)"
    and "\<not> rd_failed (fold (sync_wanted search cp current exec) ws r)"
    and "\<forall>n\<in>fst ` set ws. paths (rd_mtx r) n = map_of current n"
  shows "(\<forall>(n, config)\<in>set ws. settled search cp current n config
            (paths (rd_mtx (fold (sync_wanted search cp current exec) ws r)) n))
    \<and> (\<forall>k. k \<notin> fst ` set ws \<longrightarrow>
          paths (rd_mtx (fold (sync_wanted search cp current exec) ws r)) k = paths (rd_mtx r) k)"
  using assms(2-)
proof (induction ws arbitrary: r)
  case Nil
  then show ?case by simp
next
  case (Cons w ws)
  obtain n config where w: "w = (n, config)" by (cases w)
  let ?r = "sync_wanted search cp current exec (n, config) r"
  have ok: "\<not> rd_failed ?r"
    using Cons.prems(3) sync_wanted_failed [of ?r search cp current exec ws] by (auto simp: w)
  have keys: "distinct (map fst config)" and now: "paths (rd_mtx r) n = map_of current n"
    using Cons.prems by (auto simp: w)
  have n: "n \<notin> fst ` set ws" using Cons.prems(2) by (auto simp: w)
  have others: "\<And>k. k \<noteq> n \<Longrightarrow> paths (rd_mtx ?r) k = paths (rd_mtx r) k"
    using sync_wanted_one(2) [OF api keys ok now] by blast
  have "settled search cp current n config (paths (rd_mtx ?r) n)"
    using sync_wanted_one(1) [OF api keys ok now] .
  moreover have "\<forall>k\<in>fst ` set ws. paths (rd_mtx ?r) k = map_of current k"
  proof
    fix k assume k: "k \<in> fst ` set ws"
    then have "k \<noteq> n" using n by blast
    moreover have "paths (rd_mtx r) k = map_of current k" using Cons.prems(4) k by (auto simp: w)
    ultimately show "paths (rd_mtx ?r) k = map_of current k" using others by simp
  qed
  then have "(\<forall>(k, c)\<in>set ws. settled search cp current k c
            (paths (rd_mtx (fold (sync_wanted search cp current exec) ws ?r)) k))
    \<and> (\<forall>k. k \<notin> fst ` set ws \<longrightarrow>
          paths (rd_mtx (fold (sync_wanted search cp current exec) ws ?r)) k = paths (rd_mtx ?r) k)"
    using Cons.prems by (intro Cons.IH) (auto simp: w)
  ultimately show ?case using n others by (auto simp: w)
qed

lemma sync_unwanted_all:
  assumes api: "documented_api paths exec" and "distinct (map fst es)"
    and "\<not> rd_failed (fold (sync_unwanted search cp wanted exec) es r)"
  shows "paths (rd_mtx (fold (sync_unwanted search cp wanted exec) es r)) k =
    (if map_of wanted k = None \<and> (\<exists>e. (k, e) \<in> set es \<and> is_camera_path search k e (Some cp)) then None
     else paths (rd_mtx r) k)"
  using assms(2-)
proof (induction es arbitrary: r)
  case Nil
  then show ?case by simp
next
  case (Cons w es)
  obtain n e where w: "w = (n, e)" by (cases w)
  let ?r = "sync_unwanted search cp wanted exec (n, e) r"
  have ok: "\<not> rd_failed ?r"
    using Cons.prems(2) sync_unwanted_failed [of ?r search cp wanted exec es] by (auto simp: w)
  then have nf: "\<not> rd_failed r" by (auto simp: sync_unwanted_def)
  have n: "n \<notin> fst ` set es" and d: "distinct (map fst es)" using Cons.prems(1) by (auto simp: w)
  have step: "paths (rd_mtx ?r) j =
      (if j = n \<and> map_of wanted n = None \<and> is_camera_path search n e (Some cp) then None else paths (rd_mtx r) j)" for j
  proof (cases "map_of wanted n = None \<and> is_camera_path search n e (Some cp)")
    case True
    obtain b m' where x: "exec (DeletePath n) (rd_mtx r) = (b, m')" by fastforce
    have r': "?r = make_call exec (DeletePath n) r" using True nf by (simp add: sync_unwanted_def)
    then have b using ok x by (simp add: make_call_def)
    with api x have "paths m' n = None" "\<And>i. i \<noteq> n \<Longrightarrow> paths m' i = paths (rd_mtx r) i"
      unfolding documented_api_def by (force dest: spec [of _ "DeletePath n"])+
    then show ?thesis using True r' x by (simp add: make_call_def)
  next
    case False
    then show ?thesis using nf by (auto simp: sync_unwanted_def)
  qed
  have "\<not> rd_failed (fold (sync_unwanted search cp wanted exec) es ?r)" using Cons.prems(2) by (simp add: w)
  from Cons.IH [OF d this] show ?case
    using n by (auto simp: w step image_iff)
qed

lemma is_camera_path_wanted:
  assumes "(n, config) \<in> set (wanted_paths d)" "has_settings c config" "\<not> config_defines search p n"
  shows "is_camera_path search n c (Some p)"
proof -
  have script: "sublist RECORD_SCRIPT (run_on_init x)" for x
  proof -
    have "\<exists>ps ss. run_on_init x = ps @ RECORD_SCRIPT @ ss"
      unfolding run_on_init_def Let_def
      by (rule exI [of _ "''bash -lc '' @ [squote, newline] @ ''exec ''"]) (simp only: append_assoc, blast)
    then show ?thesis unfolding sublist_def by blast
  qed
  from assms(1) obtain x where x: "x \<in> set (list_all_cameras d)"
    "config = (if c_enabled x then path_config x (recording_session_active d) else playback_only_config)"
    by (auto simp: wanted_paths_def Let_def)
  show ?thesis
  proof (cases "c_enabled x")
    case True
    then have "config_get c ''runOnInit'' = Some (JStr (run_on_init x))"
      using x assms(2) by (simp add: has_settings_def path_config_def)
    then show ?thesis using assms(3) script by (simp add: is_camera_path_def runs_record_script_def)
  next
    case False
    then show ?thesis using x assms(2,3) by (simp add: is_camera_path_def)
  qed
qed

lemma wanted_paths_distinct:
  assumes "uq_cameras_alias d"
  shows "distinct (map fst (wanted_paths d))"
proof -
  have "distinct (map c_alias (db_cameras d))" using assms by (simp add: uq_cameras_alias_def unique_index_def)
  then have "distinct (map c_alias (list_all_cameras d))"
    by (simp add: list_all_cameras_def distinct_map)
  then show ?thesis by (simp add: wanted_paths_def Let_def comp_def)
qed

text \<open>A round that finds everything as wanted makes no call.\<close>

lemma sync_wanted_quiet:
  assumes s: "settled search p current n config (map_of current' n)"
  shows "rd_calls (sync_wanted search p current' exec (n, config) r) = rd_calls r
    \<and> rd_failed (sync_wanted search p current' exec (n, config) r) = rd_failed r"
proof (cases "in_conflict search p current n")
  case True
  then have "map_of current' n = map_of current n" using s by (simp add: settled_def)
  then have "in_conflict search p current' n" using True by (simp add: in_conflict_def)
  then show ?thesis by (auto simp: sync_wanted_def in_conflict_def Let_def)
next
  case False
  then obtain c where c: "map_of current' n = Some c" "has_settings c config"
    using s by (auto simp: settled_def)
  then have "changed_fields config c = []"
    by (auto simp: changed_fields_def has_settings_def list_all_iff filter_empty_conv)
  then show ?thesis by (simp add: sync_wanted_def c(1) Let_def)
qed

lemma sync_wanted_all_quiet:
  "\<forall>(n, config)\<in>set ws. settled search p current n config (map_of current' n) \<Longrightarrow>
   rd_calls (fold (sync_wanted search p current' exec) ws r) = rd_calls r
   \<and> rd_failed (fold (sync_wanted search p current' exec) ws r) = rd_failed r"
proof (induction ws arbitrary: r)
  case (Cons w ws)
  obtain n config where w: "w = (n, config)" by (cases w)
  show ?case
    using Cons sync_wanted_quiet [of search p current n config current' exec r] by (simp add: w)
qed simp

lemma sync_unwanted_all_quiet:
  "\<forall>(n, e)\<in>set es. map_of ws n = None \<longrightarrow> \<not> is_camera_path search n e (Some p) \<Longrightarrow>
   fold (sync_unwanted search p ws exec) es r = r"
  by (induction es arbitrary: r) (auto simp: sync_unwanted_def)

lemma settled_round_is_quiet:
  assumes "\<forall>(n, config)\<in>set (wanted_paths d). settled search p current n config (map_of current' n)"
    and "\<forall>(n, e)\<in>set current'. map_of (wanted_paths d) n = None \<longrightarrow> \<not> is_camera_path search n e (Some p)"
  shows "fst (sync search exec d (Some current') (Some p) st m) = []"
  by (simp add: sync_def Let_def sync_unwanted_all_quiet [OF assms(2)] sync_wanted_all_quiet [OF assms(1)])

text \<open>
  C22. When no call fails, one round brings MediaMTX to what the cameras table wants: every wanted path
  that \<open>mediamtx.yml\<close> leaves to the cameras has all its settings, every camera's path no camera wants
  is gone, every other path is as it was; and the next round then makes no call at all.
\<close>

theorem sync_converges:
  assumes round: "sync search exec d (Some current) (Some p) st m = (calls, False, st', m')"
    and api: "documented_api paths exec"
    and current: "distinct (map fst current)" "\<And>n. paths m n = map_of current n"
    and after: "distinct (map fst current')" "\<And>n. paths m' n = map_of current' n"
    and d: "constraints d"
  shows "(\<forall>(n, config)\<in>set (wanted_paths d). settled search p current n config (map_of current' n))
    \<and> (\<forall>n. map_of (wanted_paths d) n = None \<longrightarrow> map_of current' n =
          (case map_of current n of None \<Rightarrow> None
           | Some e \<Rightarrow> if is_camera_path search n e (Some p) then None else Some e))
    \<and> fst (sync search exec d (Some current') (Some p) st' m') = []"
proof -
  define ws where "ws = wanted_paths d"
  define r0 where "r0 = \<lparr>rd_calls = [], rd_failed = False, rd_conflicts = ss_conflicts st, rd_mtx = m\<rparr>"
  define r1 where "r1 = fold (sync_wanted search p current exec) ws r0"
  define r2 where "r2 = fold (sync_unwanted search p ws exec) current r1"
  have r2: "\<not> rd_failed r2" "rd_mtx r2 = m'"
    using round by (auto simp: sync_def Let_def ws_def r0_def r1_def r2_def)
  have r1: "\<not> rd_failed r1"
  proof
    assume "rd_failed r1"
    then have "r2 = r1" unfolding r2_def by (rule sync_unwanted_failed)
    with \<open>rd_failed r1\<close> r2(1) show False by simp
  qed
  have dist: "distinct (map fst ws)"
    using d by (simp add: ws_def wanted_paths_distinct constraints_iff)
  have keys: "\<forall>(n, config)\<in>set ws. distinct (map fst config)"
    using wanted_paths_keys by (auto simp: ws_def)
  have one: "\<forall>(n, config)\<in>set ws. settled search p current n config (paths (rd_mtx r1) n)"
    and rest: "\<And>k. k \<notin> fst ` set ws \<Longrightarrow> paths (rd_mtx r1) k = map_of current k"
    using sync_wanted_all [OF api keys dist, of search p current r0] r1 current(2)
    by (auto simp: r1_def r0_def)
  have two: "map_of current' k =
      (if map_of ws k = None \<and> (\<exists>e. (k, e) \<in> set current \<and> is_camera_path search k e (Some p)) then None
       else paths (rd_mtx r1) k)" for k
    using sync_unwanted_all [OF api current(1), of search p ws r1 k] r2 after(2) by (simp add: r2_def)
  have A: "\<forall>(n, config)\<in>set ws. settled search p current n config (map_of current' n)"
  proof (clarify)
    fix n config assume "(n, config) \<in> set ws"
    moreover from this have "n \<in> fst ` set ws" by force
    then have "map_of ws n \<noteq> None" by (simp add: map_of_eq_None_iff)
    ultimately show "settled search p current n config (map_of current' n)" using one two [of n] by auto
  qed
  have B: "map_of current' n = (case map_of current n of None \<Rightarrow> None
      | Some e \<Rightarrow> if is_camera_path search n e (Some p) then None else Some e)" if "map_of ws n = None" for n
  proof -
    have "(n, e) \<in> set current \<longleftrightarrow> map_of current n = Some e" for e using current(1) by simp
    then show ?thesis using that two [of n] rest [of n]
      by (auto simp: map_of_eq_None_iff split: option.splits)
  qed
  have "map_of ws n = None \<longrightarrow> \<not> is_camera_path search n e (Some p)" if "(n, e) \<in> set current'" for n e
  proof
    assume "map_of ws n = None"
    moreover have "map_of current' n = Some e" using that after(1) by simp
    ultimately show "\<not> is_camera_path search n e (Some p)"
      using B [of n] by (auto split: option.splits if_splits)
  qed
  then have "\<forall>(n, e)\<in>set current'. map_of ws n = None \<longrightarrow> \<not> is_camera_path search n e (Some p)" by blast
  then have "fst (sync search exec d (Some current') (Some p) st' m') = []"
    using A unfolding ws_def by (intro settled_round_is_quiet)
  then show ?thesis using A B unfolding ws_def by blast
qed

text \<open>A Control API that only keeps the configurations, and a database with one camera.\<close>

fun plain_api :: "api_call \<Rightarrow> (string \<Rightarrow> config option) \<Rightarrow> bool \<times> (string \<Rightarrow> config option)" where
  "plain_api (AddPath n c) m = (True, m(n \<mapsto> c))"
| "plain_api (PatchPath n fs) m = (True, case m n of None \<Rightarrow> m | Some e \<Rightarrow> m(n \<mapsto> fs @ e))"
| "plain_api (DeletePath n) m = (True, m(n := None))"

lemma plain_api_documented: "documented_api (\<lambda>m. m) plain_api"
  unfolding documented_api_def
proof (intro allI impI)
  fix call and m m' :: "string \<Rightarrow> config option"
  assume "plain_api call m = (True, m')"
  then show "(\<forall>n. n \<noteq> call_name call \<longrightarrow> m' n = m n)
      \<and> (case call of
           AddPath n config \<Rightarrow>
             m n = None \<longrightarrow> (\<exists>c. m' n = Some c \<and> (\<forall>k v. map_of config k = Some v \<longrightarrow> config_get c k = Some v))
         | PatchPath n fs \<Rightarrow>
             (\<forall>e. m n = Some e \<longrightarrow> (\<exists>c. m' n = Some c
                \<and> (\<forall>k. config_get c k = (case map_of fs k of Some v \<Rightarrow> Some v | None \<Rightarrow> config_get e k))))
         | DeletePath n \<Rightarrow> m' n = None)"
    by (cases call) (auto simp: config_get_def map_add_def split: option.splits)
qed

definition one_camera_db :: db where
  "one_camera_db = empty_db\<lparr>db_cameras :=
     [\<lparr>c_id = 1, c_alias = ''cam1'', c_mcast_ip = ''239.1.1.1'', c_mcast_port = 5000, c_iface = None,
       c_enabled = True, c_created_at = 0\<rparr>]\<rparr>"

lemma one_camera_db_ok: "constraints one_camera_db"
  by (simp add: one_camera_db_def constraints_defs empty_db_def)

definition loopdemo_paths :: "unit config_paths" where
  "loopdemo_paths = \<lparr>cfg_names = [''loopdemo''], cfg_patterns = [], cfg_catch_all = False\<rparr>"

definition sync_start :: sync_state where
  "sync_start = \<lparr>ss_conflicts = {}, ss_recording = None, ss_config_unknown = False\<rparr>"

lemma playback_only_is_camera:
  "is_camera_path (\<lambda>_ _. False) ''old'' playback_only_config (Some loopdemo_paths)"
  by (simp add: is_camera_path_def playback_only_config_def runs_record_script_def has_settings_def
      loopdemo_paths_def config_defines_def config_get_def RECORDING_def RECORD_SCRIPT_def)

theorem sync_converges_witness:
  "\<exists>calls st' m'. sync (\<lambda>_ _. False) plain_api one_camera_db (Some [(''old'', playback_only_config)])
        (Some loopdemo_paths) sync_start [''old'' \<mapsto> playback_only_config] = (calls, False, st', m')
     \<and> m' ''old'' = None \<and> m' ''cam1'' \<noteq> None
     \<and> fst (sync (\<lambda>_ _. False) plain_api one_camera_db (Some [(''cam1'', the (m' ''cam1''))])
          (Some loopdemo_paths) st' m') = []"
proof -
  define cfg where "cfg = path_config (hd (db_cameras one_camera_db)) False"
  have ws: "wanted_paths one_camera_db = [(''cam1'', cfg)]"
    by (simp add: wanted_paths_def one_camera_db_def list_all_cameras_def recording_session_active_def
        empty_db_def cfg_def Let_def)
  have rec: "recording_session_active one_camera_db = False"
    by (simp add: one_camera_db_def recording_session_active_def empty_db_def)
  have free: "\<not> config_defines (\<lambda>_ _. False) loopdemo_paths ''cam1''"
    by (simp add: loopdemo_paths_def config_defines_def)
  have run: "sync (\<lambda>_ _. False) plain_api one_camera_db (Some [(''old'', playback_only_config)])
      (Some loopdemo_paths) sync_start [''old'' \<mapsto> playback_only_config]
    = ([AddPath ''cam1'' cfg, DeletePath ''old''], False, sync_start\<lparr>ss_recording := Some False\<rparr>, [''cam1'' \<mapsto> cfg])"
    using playback_only_is_camera
    by (simp add: sync_def ws rec free sync_wanted_def sync_unwanted_def make_call_def Let_def sync_start_def
        fun_upd_twist)
  have "fst (sync (\<lambda>_ _. False) plain_api one_camera_db (Some [(''cam1'', cfg)])
      (Some loopdemo_paths) (sync_start\<lparr>ss_recording := Some False\<rparr>) [''cam1'' \<mapsto> cfg]) = []"
    using sync_converges [OF run plain_api_documented _ _ _ _ one_camera_db_ok, of "[(''cam1'', cfg)]"]
    by simp
  then show ?thesis using run by auto
qed

theorem sync_touches_only_camera_paths_witness:
  "\<exists>p. Some loopdemo_paths = Some p \<and> \<not> config_defines (\<lambda>_ _. False) p ''old''"
proof -
  let ?r = "sync (\<lambda>_ _. False) plain_api empty_db (Some [(''old'', playback_only_config)])
      (Some loopdemo_paths) sync_start [''old'' \<mapsto> playback_only_config]"
  have "?r = ([DeletePath ''old''], False, sync_start, Map.empty)"
    using playback_only_is_camera
    by (simp add: sync_def wanted_paths_def list_all_cameras_def sync_unwanted_def make_call_def Let_def
        sync_start_def recording_session_active_def empty_db_def fun_eq_iff)
  from sync_touches_only_camera_paths [OF this, of "DeletePath ''old''"]
  show ?thesis by auto
qed

section \<open>The shell command\<close>

fun odd_elements :: "'a list \<Rightarrow> 'a list" where
  "odd_elements [] = []"
| "odd_elements [x] = []"
| "odd_elements (x # y # zs) = y # odd_elements zs"

text \<open>The double-quoted words of a command.\<close>

definition quoted_words :: "string \<Rightarrow> string list" where
  "quoted_words s = odd_elements (split_on dquote s)"

lemma shell_safe_chars:
  assumes "shell_safe s"
  shows "dquote \<notin> set s" "squote \<notin> set s" "CHR ''$'' \<notin> set s" "CHR 0x5C \<notin> set s" "CHR 0x60 \<notin> set s"
  using assms by (auto simp: shell_safe_def list_all_iff dquote_def squote_def dest!: bspec)

lemma show_int_shell_safe: "0 \<le> i \<Longrightarrow> shell_safe (show_int i)"
  by (simp add: show_int_def show_nat_shell_safe)

text \<open>A text of literals with double-quoted words between them, each word with the literal after it.\<close>

fun quoting :: "string \<Rightarrow> (string \<times> string) list \<Rightarrow> string" where
  "quoting pre [] = pre"
| "quoting pre ((w, l) # qs) = pre @ dquote # w @ dquote # quoting l qs"

lemma quoted_words_quoting:
  "dquote \<notin> set pre \<Longrightarrow> \<forall>(w, l)\<in>set qs. dquote \<notin> set w \<and> dquote \<notin> set l \<Longrightarrow>
   quoted_words (quoting pre qs) = map fst qs"
  unfolding quoted_words_def
  by (induction pre qs rule: quoting.induct) (auto simp: split_on_append split_on_none)

lemma count_quoting:
  "c \<noteq> dquote \<Longrightarrow> count_list (quoting pre qs) c
     = count_list pre c + sum_list (map (\<lambda>(w, l). count_list w c + count_list l c) qs)"
  by (induction pre qs rule: quoting.induct) auto

definition command_start :: string where
  "command_start = ''bash -lc '' @ [squote, newline] @ ''exec '' @ RECORD_SCRIPT @ '' --mcast-ip ''"

definition command_words :: "camera_row \<Rightarrow> (string \<times> string) list" where
  "command_words c =
     (let en = [newline, squote] in
      [(c_mcast_ip c, '' --mcast-port ''), (show_int (c_mcast_port c), '' --rtsp-url '')]
      @ (case c_iface c of
           None \<Rightarrow> [(rtsp_url (c_alias c), en)]
         | Some i \<Rightarrow> if i = [] then [(rtsp_url (c_alias c), en)] else [(rtsp_url (c_alias c), '' --iface ''), (i, en)]))"

lemma run_on_init_quoting: "run_on_init c = quoting command_start (command_words c)"
  by (cases "c_iface c")
    (simp_all only: run_on_init_def command_start_def command_words_def Let_def option.case if_True if_False
      quoting.simps append_assoc append_Cons append_Nil split: if_split, simp_all)

lemmas safe_counts = shell_safe_chars [THEN count_notin]

text \<open>
  C27. The command MediaMTX runs for a camera whose body passed validation is, whatever the body, one
  \<open>bash -lc\<close> word (two single quotes) whose double-quoted words are exactly the multicast address,
  the port, the RTSP URL and, when given, the interface; it has one \<open>$\<close>, the template's own, and no
  backslash or backquote. No field of a camera can end its quotes.
\<close>

theorem camera_command_is_quoted:
  assumes "validate_camera payload = Inr body"
  shows "quoted_words (run_on_init (set_camera body c)) =
      [show_ipv4 (ci_mcast_ip body), show_int (ci_mcast_port body), rtsp_url (ci_alias body)]
      @ (case ci_iface body of None \<Rightarrow> [] | Some i \<Rightarrow> [i])
    \<and> count_list (run_on_init (set_camera body c)) squote = 2
    \<and> count_list (run_on_init (set_camera body c)) (CHR ''$'') = 1
    \<and> CHR 0x5C \<notin> set (run_on_init (set_camera body c)) \<and> CHR 0x60 \<notin> set (run_on_init (set_camera body c))"
proof -
  note v = validate_cameraD [OF assms]
  let ?c = "set_camera body c"
  let ?url = "rtsp_url (ci_alias body)"
  have c: "c_mcast_ip ?c = show_ipv4 (ci_mcast_ip body)" "c_mcast_port ?c = ci_mcast_port body"
    "c_alias ?c = ci_alias body" "c_iface ?c = ci_iface body"
    by (simp_all add: set_camera_def)
  have safe: "shell_safe (show_ipv4 (ci_mcast_ip body))" "shell_safe (show_int (ci_mcast_port body))"
    "shell_safe (ci_alias body)" "\<And>i. ci_iface body = Some i \<Longrightarrow> shell_safe i \<and> i \<noteq> []"
    using v by (auto simp: show_ipv4_shell_safe show_int_shell_safe alias_shell_safe iface_shell_safe)
      (auto dest: iface_shell_safe simp: shell_safe_def)
  have url: "dquote \<notin> set ?url" "count_list ?url squote = 0" "count_list ?url (CHR ''$'') = 1"
    "count_list ?url (CHR 0x5C) = 0" "count_list ?url (CHR 0x60) = 0"
    using shell_safe_chars [OF safe(3)] by (auto simp: rtsp_url_def dquote_def squote_def count_notin)
  have words: "command_words ?c =
      [(show_ipv4 (ci_mcast_ip body), '' --mcast-port ''), (show_int (ci_mcast_port body), '' --rtsp-url '')]
      @ (case ci_iface body of None \<Rightarrow> [(?url, [newline, squote])] | Some i \<Rightarrow> [(?url, '' --iface ''), (i, [newline, squote])])"
    using safe(4) by (auto simp: command_words_def c Let_def split: option.split)
  note chars = dquote_def squote_def newline_def command_start_def RECORD_SCRIPT_def
  have "\<forall>(w, l)\<in>set (command_words ?c). dquote \<notin> set w \<and> dquote \<notin> set l" "dquote \<notin> set command_start"
    using safe(4) shell_safe_chars(1) safe(1,2) url(1) by (auto simp: words split: option.splits) (simp_all add: chars)
  then have "quoted_words (run_on_init ?c) = map fst (command_words ?c)"
    unfolding run_on_init_quoting by (intro quoted_words_quoting)
  then have "quoted_words (run_on_init ?c) =
      [show_ipv4 (ci_mcast_ip body), show_int (ci_mcast_port body), ?url]
      @ (case ci_iface body of None \<Rightarrow> [] | Some i \<Rightarrow> [i])"
    by (simp add: words split: option.split)
  moreover have "count_list (run_on_init ?c) squote = 2" "count_list (run_on_init ?c) (CHR ''$'') = 1"
    "count_list (run_on_init ?c) (CHR 0x5C) = 0" "count_list (run_on_init ?c) (CHR 0x60) = 0"
    using safe_counts [OF safe(1)] safe_counts [OF safe(2)] safe(4) [THEN conjunct1, THEN safe_counts(2)]
      safe(4) [THEN conjunct1, THEN safe_counts(3)] safe(4) [THEN conjunct1, THEN safe_counts(4)]
      safe(4) [THEN conjunct1, THEN safe_counts(5)] url(2-)
    by (simp_all add: run_on_init_quoting count_quoting words chars split: option.split)
  ultimately show ?thesis by (simp add: count_list_0_iff)
qed

definition cam1_payload :: camera_payload where
  "cam1_payload = \<lparr>cp_alias = ''cam1'', cp_mcast_ip = 0xEF010101, cp_mcast_port = 5000,
     cp_iface = Some ''eth0'', cp_enabled = True\<rparr>"

lemma cam1_valid:
  "validate_camera cam1_payload = Inr \<lparr>ci_alias = ''cam1'', ci_mcast_ip = 0xEF010101, ci_mcast_port = 5000,
     ci_iface = Some ''eth0'', ci_enabled = True\<rparr>"
proof -
  have "is_multicast 0xEF010101" by (simp add: is_multicast_def drop_bit_word_numeral)
  then show ?thesis
    by (simp add: validate_camera_def camera_problems_def cam1_payload_def alias_ok_def iface_ok_def
        blank_to_none_def blank_def strip_def py_space_def is_alnum_def iface_char_def Let_def)
qed

theorem camera_command_is_quoted_witness:
  "\<exists>body. validate_camera cam1_payload = Inr body
    \<and> quoted_words (run_on_init (set_camera body (blank_camera 1 0)))
        = [show_ipv4 0xEF010101, show_int 5000, rtsp_url ''cam1'', ''eth0'']"
  using camera_command_is_quoted [OF cam1_valid, of "blank_camera 1 0"] cam1_valid by simp

end
