(* ===== verification/Recordings.thy ===== *)
theory Recordings
  imports Camera_Sync "HOL-Library.Product_Lexorder" "HOL-Library.List_Lexorder" "HOL-Library.Char_ord"
begin

text \<open>
  \<open>WebApp/backend/app/services/recordings.py\<close>: the parts of recorded video a Session may replay, the
  cache of replay copies and its cleaning, and the files a deleted Session takes with it. MediaMTX's
  playback server is an argument (the spans it lists); a folder is the list of its files, each with
  what the code reads of it: its name as \<open>_read_cache_name\<close> or \<open>_file_start\<close> understands it, its
  last write and its size. Durations are microseconds.
\<close>

section \<open>Parts\<close>

definition MAX_PART_S :: time where "MAX_PART_S = seconds 600"

function parts :: "time \<Rightarrow> time \<Rightarrow> recording_span list" where
  "parts start end_at =
     (if start < end_at
      then let part_end = min (start + MAX_PART_S) end_at in
        \<lparr>span_start = start, span_duration = part_end - start\<rparr> # parts part_end end_at
      else [])"
  by pat_completeness auto
termination
  by (relation "measure (\<lambda>(s, e). nat (e - s))") (auto simp: MAX_PART_S_def min_def)

declare parts.simps [simp del]

text \<open>
  \<open>list_recordings alias start end\<close>: the spans MediaMTX recorded, as (start, duration), or None when
  it is unreachable, which the callers let through.
\<close>

type_synonym playback = "string \<Rightarrow> time \<Rightarrow> time \<Rightarrow> (time \<times> time) list option"

definition cut_item :: "time \<times> time \<Rightarrow> time \<times> time \<Rightarrow> recording_span list" where
  "cut_item window item =
     (let (start, end_at) = window; (span_start, duration) = item; span_end = span_start + duration in
      parts (max span_start start) (min span_end end_at))"

fun window_spans :: "playback \<Rightarrow> string \<Rightarrow> (time \<times> time) list \<Rightarrow> recording_span list option" where
  "window_spans list_recordings alias [] = Some []"
| "window_spans list_recordings alias (w # ws) =
     (case list_recordings alias (fst w) (snd w) of
        None \<Rightarrow> None
      | Some items \<Rightarrow>
          (case window_spans list_recordings alias ws of
             None \<Rightarrow> None
           | Some spans \<Rightarrow> Some (concat (map (cut_item w) items) @ spans)))"

fun session_recordings :: "playback \<Rightarrow> (time \<times> time) list \<Rightarrow> string list \<Rightarrow> camera_recording list option" where
  "session_recordings list_recordings windows [] = Some []"
| "session_recordings list_recordings windows (alias # aliases) =
     (case window_spans list_recordings alias windows of
        None \<Rightarrow> None
      | Some spans \<Rightarrow>
          (case session_recordings list_recordings windows aliases of
             None \<Rightarrow> None
           | Some rest \<Rightarrow>
               Some ((if spans \<noteq> [] then [\<lparr>cr_alias = alias, cr_spans = sort_key span_start spans\<rparr>] else [])
                     @ rest)))"

text \<open>A millisecond of tolerance, as the frontend sends the numbers back.\<close>

definition is_listed_part ::
    "playback \<Rightarrow> (time \<times> time) list \<Rightarrow> string list \<Rightarrow> string \<Rightarrow> time \<Rightarrow> time \<Rightarrow> bool option" where
  "is_listed_part list_recordings windows aliases alias start duration =
     map_option
       (\<lambda>recordings. list_ex (\<lambda>r. list_ex (\<lambda>s. \<bar>span_start s - start\<bar> < 1000 \<and> \<bar>span_duration s - duration\<bar> < 1000)
          (cr_spans r)) recordings)
       (session_recordings list_recordings windows (filter (\<lambda>a. a = alias) aliases))"

section \<open>The replay cache\<close>

definition CACHE_MAX_AGE_S :: time where "CACHE_MAX_AGE_S = seconds (24 * 3600)"
definition PARTIAL_MAX_AGE_S :: time where "PARTIAL_MAX_AGE_S = seconds 3600"
definition IN_USE_S :: time where "IN_USE_S = seconds (15 * 60)"

datatype suffix = Part | Mp4 | OtherSuffix

text \<open>\<open>cf_named\<close> is what \<open>_read_cache_name\<close> returns: the alias, recording start and length.\<close>

record cache_file =
  cf_path :: string
  cf_suffix :: suffix
  cf_mtime :: time
  cf_bytes :: nat
  cf_named :: "(string \<times> time \<times> time) option"

type_synonym in_use = "string \<rightharpoonup> time"

definition mark_in_use :: "time \<Rightarrow> string \<Rightarrow> in_use \<Rightarrow> in_use" where
  "mark_in_use clk path uses = uses(path \<mapsto> clk + IN_USE_S)"

definition forget_finished_plays :: "time \<Rightarrow> in_use \<Rightarrow> in_use" where
  "forget_finished_plays clk uses =
     (\<lambda>p. case uses p of Some until \<Rightarrow> if until \<le> clk then None else Some until | None \<Rightarrow> None)"

definition being_played :: "time \<Rightarrow> in_use \<Rightarrow> string \<Rightarrow> bool" where
  "being_played clk uses path \<longleftrightarrow> (case uses path of Some until \<Rightarrow> until > clk | None \<Rightarrow> False)"

text \<open>Expired, by its recording's age, or by its own when the name cannot be read.\<close>

definition copy_too_old :: "time \<Rightarrow> cache_file \<Rightarrow> bool" where
  "copy_too_old now f \<longleftrightarrow>
     (case cf_named f of
        Some (_, start, _) \<Rightarrow> start < now - CACHE_MAX_AGE_S
      | None \<Rightarrow> now - cf_mtime f > CACHE_MAX_AGE_S)"

text \<open>Whether the first loop removes a file, and whether it is counted towards the limit.\<close>

definition removed_by_age :: "time \<Rightarrow> time \<Rightarrow> in_use \<Rightarrow> cache_file \<Rightarrow> bool" where
  "removed_by_age now clk uses f \<longleftrightarrow>
     (case cf_suffix f of
        Part \<Rightarrow> now - cf_mtime f > PARTIAL_MAX_AGE_S
      | Mp4 \<Rightarrow> copy_too_old now f \<and> \<not> being_played clk uses (cf_path f)
      | OtherSuffix \<Rightarrow> False)"

definition counted :: "time \<Rightarrow> cache_file \<Rightarrow> bool" where
  "counted now f \<longleftrightarrow> cf_suffix f = Mp4 \<and> \<not> copy_too_old now f"

text \<open>The second loop: the least recently played first, until the total is within the budget.\<close>

fun over_limit :: "nat \<Rightarrow> time \<Rightarrow> in_use \<Rightarrow> nat \<Rightarrow> cache_file list \<Rightarrow> cache_file list" where
  "over_limit budget clk uses tot [] = []"
| "over_limit budget clk uses tot (f # fs) =
     (if tot \<le> budget then []
      else if being_played clk uses (cf_path f) then over_limit budget clk uses tot fs
      else f # over_limit budget clk uses (tot - cf_bytes f) fs)"

definition total_bytes :: "cache_file list \<Rightarrow> nat" where
  "total_bytes fs = sum_list (map cf_bytes fs)"

definition prune_cache :: "nat \<Rightarrow> time \<Rightarrow> time \<Rightarrow> in_use \<Rightarrow> cache_file list \<Rightarrow> cache_file list \<times> in_use" where
  "prune_cache budget now clk uses files =
     (let uses' = forget_finished_plays clk uses;
          left = filter (\<lambda>f. \<not> removed_by_age now clk uses' f) files;
          kept = filter (counted now) left;
          by_play = sort_key (\<lambda>f. (cf_mtime f, cf_bytes f, cf_path f)) kept;
          gone = set (over_limit budget clk uses' (total_bytes kept) by_play) in
      (filter (\<lambda>f. f \<notin> gone) left, uses'))"

section \<open>Deleting video\<close>

definition SEGMENT :: time where "SEGMENT = seconds (10 * 60)"

text \<open>
  A recording: its file name, the two readings \<open>astimezone\<close> gives the local time in its name (equal
  unless the clocks went back in that hour; None when it is no such name) and its last write (None
  when it was removed meanwhile).
\<close>

record rec_file =
  rf_name :: string
  rf_readings :: "(time \<times> time) option"
  rf_written :: "time option"

record rec_folder =
  fo_name :: string
  fo_mp4 :: "rec_file list"
  fo_others :: "string list"

definition file_start :: "rec_file \<Rightarrow> time option" where
  "file_start f =
     (case rf_readings f of
        None \<Rightarrow> None
      | Some (first_reading, second_reading) \<Rightarrow>
          if first_reading = second_reading then Some first_reading
          else case rf_written f of
            None \<Rightarrow> None
          | Some written \<Rightarrow> Some (if second_reading \<le> written then second_reading else first_reading))"

definition file_end :: "rec_file \<Rightarrow> time \<Rightarrow> time" where
  "file_end f began =
     (let written = (case rf_written f of Some w \<Rightarrow> w | None \<Rightarrow> began) in
      min (max written began) (began + SEGMENT))"

definition camera_folders ::
    "('re \<Rightarrow> string \<Rightarrow> bool) \<Rightarrow> 're config_paths option \<Rightarrow> rec_folder list \<Rightarrow> rec_folder list" where
  "camera_folders search cp dirs =
     (case cp of
        None \<Rightarrow> []
      | Some p \<Rightarrow> if cfg_catch_all p then [] else filter (\<lambda>f. \<not> config_defines search p (fo_name f)) dirs)"

text \<open>\<open>remove_unused_recordings\<close>: the folders afterwards, and how many files were deleted.\<close>

definition unused_file :: "time \<Rightarrow> rec_file \<Rightarrow> bool" where
  "unused_file now f \<longleftrightarrow>
     (case file_start f of Some began \<Rightarrow> began < now - CACHE_MAX_AGE_S | None \<Rightarrow> False)"

definition clean_folder :: "time \<Rightarrow> rec_folder \<Rightarrow> rec_folder option" where
  "clean_folder now fo =
     (let left = filter (\<lambda>f. \<not> unused_file now f) (fo_mp4 fo) in
      if left = [] \<and> fo_others fo = [] then None else Some (fo\<lparr>fo_mp4 := left\<rparr>))"

definition remove_unused_recordings ::
    "('re \<Rightarrow> string \<Rightarrow> bool) \<Rightarrow> 're config_paths option \<Rightarrow> time \<Rightarrow> string list \<Rightarrow> rec_folder list \<Rightarrow> rec_folder list \<times> nat" where
  "remove_unused_recordings search cp now aliases dirs =
     (let mine = (\<lambda>fo. fo \<in> set (camera_folders search cp dirs) \<and> fo_name fo \<notin> set aliases) in
      (List.map_filter (\<lambda>fo. if mine fo then clean_folder now fo else Some fo) dirs,
       sum_list (map (\<lambda>fo. if mine fo then count_where (unused_file now) (fo_mp4 fo) else 0) dirs)))"

definition overlaps :: "time \<Rightarrow> time \<Rightarrow> (time \<times> time) list \<Rightarrow> bool" where
  "overlaps began ended windows \<longleftrightarrow> list_ex (\<lambda>(s, e). began < e \<and> s < ended) windows"

definition belongs :: "(time \<times> time) list \<Rightarrow> (time \<times> time) list \<Rightarrow> time \<Rightarrow> time \<Rightarrow> bool" where
  "belongs windows other_windows began ended \<longleftrightarrow>
     overlaps began ended windows \<and> \<not> overlaps began ended other_windows"

definition recording_belongs :: "(time \<times> time) list \<Rightarrow> (time \<times> time) list \<Rightarrow> rec_file \<Rightarrow> bool" where
  "recording_belongs windows other_windows f \<longleftrightarrow>
     (case file_start f of Some began \<Rightarrow> belongs windows other_windows began (file_end f began) | None \<Rightarrow> False)"

definition copy_belongs :: "(time \<times> time) list \<Rightarrow> (time \<times> time) list \<Rightarrow> (string \<times> time \<times> time) option \<Rightarrow> bool" where
  "copy_belongs windows other_windows named \<longleftrightarrow>
     (case named of
        None \<Rightarrow> False
      | Some (_, began, len) \<Rightarrow> belongs windows other_windows began (began + len))"

text \<open>
  \<open>delete_session_video\<close>: what is left of the recordings, how many were deleted, and what is left of
  the cache (a copy and its half-written download go together, as both names say the same).
\<close>

definition delete_session_video ::
    "('re \<Rightarrow> string \<Rightarrow> bool) \<Rightarrow> 're config_paths option \<Rightarrow> (time \<times> time) list \<Rightarrow> (time \<times> time) list
       \<Rightarrow> rec_folder list option \<Rightarrow> cache_file list \<Rightarrow> rec_folder list option \<times> nat \<times> cache_file list" where
  "delete_session_video search cp windows other_windows dirs cache =
     (let mine = (\<lambda>r fo. fo \<in> set (camera_folders search cp r));
          gone = recording_belongs windows other_windows in
      (map_option (\<lambda>r. map (\<lambda>fo. if mine r fo then fo\<lparr>fo_mp4 := filter (\<lambda>f. \<not> gone f) (fo_mp4 fo)\<rparr> else fo) r) dirs,
       (case dirs of
          None \<Rightarrow> 0
        | Some r \<Rightarrow> sum_list (map (\<lambda>fo. if mine r fo then count_where gone (fo_mp4 fo) else 0) r)),
       filter (\<lambda>f. \<not> (cf_suffix f \<in> {Mp4, Part} \<and> copy_belongs windows other_windows (cf_named f))) cache))"

section \<open>What the parts are\<close>

text \<open>Consecutive stretches of at most \<open>MAX_PART_S\<close> from one moment to another.\<close>

fun chained :: "time \<Rightarrow> time \<Rightarrow> recording_span list \<Rightarrow> bool" where
  "chained s e [] \<longleftrightarrow> s = e"
| "chained s e (p # ps) \<longleftrightarrow>
     span_start p = s \<and> 0 < span_duration p \<and> span_duration p \<le> MAX_PART_S \<and> chained (s + span_duration p) e ps"

lemma chained_within: "chained s e ps \<Longrightarrow> p \<in> set ps \<Longrightarrow>
    s \<le> span_start p \<and> span_start p + span_duration p \<le> e \<and> 0 < span_duration p \<and> span_duration p \<le> MAX_PART_S"
proof (induction s e ps rule: chained.induct)
  case (2 s e q ps)
  have "s' \<le> e'" if "chained s' e' qs" for s' e' qs
    using that by (induction s' e' qs rule: chained.induct) auto
  then show ?case using 2 by (cases "p = q") force+
qed simp

lemma parts_chained: "s \<le> e \<Longrightarrow> chained s e (parts s e)"
proof (induction s e rule: parts.induct)
  case (1 s e)
  show ?case
  proof (cases "s < e")
    case True
    then show ?thesis
      using 1 by (subst parts.simps) (auto simp: MAX_PART_S_def min_def Let_def)
  next
    case False
    then show ?thesis using 1 by (subst parts.simps) simp
  qed
qed

lemma parts_within:
  assumes "p \<in> set (parts s e)"
  shows "s \<le> span_start p \<and> span_start p + span_duration p \<le> e \<and> 0 < span_duration p \<and> span_duration p \<le> MAX_PART_S"
proof (cases "s < e")
  case True
  then show ?thesis using chained_within [OF parts_chained assms] by simp
next
  case False
  then show ?thesis using assms by (subst (asm) parts.simps) simp
qed

lemma window_spans_within:
  "window_spans lr alias ws = Some spans \<Longrightarrow> p \<in> set spans \<Longrightarrow>
    \<exists>w\<in>set ws. \<exists>items. lr alias (fst w) (snd w) = Some items
      \<and> (\<exists>item\<in>set items. p \<in> set (cut_item w item))"
  by (induction ws arbitrary: spans) (fastforce split: option.splits)+

lemma session_recordings_within:
  "session_recordings lr ws aliases = Some rs \<Longrightarrow> r \<in> set rs \<Longrightarrow>
    cr_alias r \<in> set aliases \<and> (\<exists>spans. window_spans lr (cr_alias r) ws = Some spans \<and> set (cr_spans r) = set spans)"
  by (induction aliases arbitrary: rs) (fastforce split: option.splits if_splits)+

section \<open>What the cleaning removes\<close>

lemma over_limit_sub: "set (over_limit b clk uses tot fs) \<subseteq> {f \<in> set fs. \<not> being_played clk uses (cf_path f)}"
  by (induction b clk uses tot fs rule: over_limit.induct) auto

lemma over_limit_distinct: "distinct fs \<Longrightarrow> distinct (over_limit b clk uses tot fs)"
proof (induction b clk uses tot fs rule: over_limit.induct)
  case (2 b clk uses tot f fs)
  then show ?case using over_limit_sub [of b clk uses "tot - cf_bytes f" fs] by auto
qed simp

lemma over_limit_enough:
  "total_bytes fs \<le> tot \<Longrightarrow>
    tot - total_bytes (over_limit b clk uses tot fs) \<le> b
    \<or> (\<forall>f\<in>set fs. \<not> being_played clk uses (cf_path f) \<longrightarrow> f \<in> set (over_limit b clk uses tot fs))"
proof (induction b clk uses tot fs rule: over_limit.induct)
  case (2 b clk uses tot f fs)
  then show ?case by (auto simp: total_bytes_def)
qed simp

lemma over_limit_oldest_first:
  "sorted (map key fs) \<Longrightarrow> f \<in> set (over_limit b clk uses tot fs) \<Longrightarrow> g \<in> set fs \<Longrightarrow>
    \<not> being_played clk uses (cf_path g) \<Longrightarrow> g \<notin> set (over_limit b clk uses tot fs) \<Longrightarrow> key f \<le> key g"
  by (induction b clk uses tot fs rule: over_limit.induct) (auto split: if_splits)

lemma total_bytes_split:
  "total_bytes (filter P fs) + total_bytes (filter (\<lambda>f. \<not> P f) fs) = total_bytes fs"
  by (induction fs) (auto simp: total_bytes_def)

lemma total_bytes_set: "distinct fs \<Longrightarrow> distinct gs \<Longrightarrow> set fs = set gs \<Longrightarrow> total_bytes fs = total_bytes gs"
  by (simp add: total_bytes_def sum_list_distinct_conv_sum_set)

text \<open>What is left of the files that count fits the budget, or none of them could go.\<close>

lemma over_limit_fits:
  assumes "distinct kept" "set fs = set kept" "distinct fs"
    and gone_def: "gone = over_limit b clk uses (total_bytes kept) fs"
  shows "total_bytes (filter (\<lambda>f. f \<notin> set gone) kept) \<le> b
    \<or> (\<forall>f\<in>set kept. f \<notin> set gone \<longrightarrow> being_played clk uses (cf_path f))"
proof -
  have "total_bytes (filter (\<lambda>f. f \<in> set gone) kept) = total_bytes gone"
  proof (rule total_bytes_set)
    show "distinct (filter (\<lambda>f. f \<in> set gone) kept)" using assms(1) by simp
    show "distinct gone" unfolding gone_def using assms(3) by (rule over_limit_distinct)
    have "set gone \<subseteq> set kept"
      using over_limit_sub [of b clk uses "total_bytes kept" fs] unfolding gone_def assms(2) by blast
    then show "set (filter (\<lambda>f. f \<in> set gone) kept) = set gone" unfolding set_filter by blast
  qed
  then have "total_bytes (filter (\<lambda>f. f \<notin> set gone) kept) = total_bytes kept - total_bytes gone"
    using total_bytes_split [of "\<lambda>f. f \<in> set gone" kept] by simp
  moreover have "total_bytes fs \<le> total_bytes kept" by (simp add: total_bytes_set [OF assms(3,1,2)])
  from over_limit_enough [OF this, of b clk uses, folded gone_def, unfolded assms(2)]
  have "total_bytes kept - total_bytes gone \<le> b
      \<or> (\<forall>f\<in>set kept. f \<notin> set gone \<longrightarrow> being_played clk uses (cf_path f))" by (rule disj_forward) blast+
  ultimately show ?thesis by simp
qed

lemma being_played_forget [simp]:
  "being_played clk (forget_finished_plays clk uses) p = being_played clk uses p"
  by (auto simp: being_played_def forget_finished_plays_def split: option.splits)

section \<open>Properties\<close>

text \<open>
  C28. A Session may replay only video of one of the cameras it is given (the route gives every
  configured camera), of at most \<open>MAX_PART_S\<close>, that MediaMTX lists as recorded and that lies, but for
  the code's millisecond of tolerance, within one of the windows the Session recorded.
\<close>

theorem replay_stays_within_windows:
  assumes "is_listed_part lr windows aliases alias start duration = Some True"
  shows "alias \<in> set aliases \<and> duration < MAX_PART_S + 1000
    \<and> (\<exists>w\<in>set windows. \<exists>items item. lr alias (fst w) (snd w) = Some items \<and> item \<in> set items
        \<and> fst w - 1000 < start \<and> start + duration < snd w + 2000
        \<and> fst item - 1000 < start \<and> start + duration < fst item + snd item + 2000)"
proof -
  obtain rs where rs: "session_recordings lr windows (filter (\<lambda>a. a = alias) aliases) = Some rs"
    and ex: "list_ex (\<lambda>r. list_ex (\<lambda>s. \<bar>span_start s - start\<bar> < 1000 \<and> \<bar>span_duration s - duration\<bar> < 1000)
          (cr_spans r)) rs"
    using assms by (auto simp: is_listed_part_def)
  then obtain r s where r: "r \<in> set rs" and s: "s \<in> set (cr_spans r)"
    "\<bar>span_start s - start\<bar> < 1000" "\<bar>span_duration s - duration\<bar> < 1000"
    by (auto simp: list_ex_iff)
  obtain spans where spans: "cr_alias r \<in> set aliases" "cr_alias r = alias"
    "window_spans lr (cr_alias r) windows = Some spans" "s \<in> set spans"
    using session_recordings_within [OF rs r] s(1) by auto
  then obtain w items item where w: "w \<in> set windows" "lr alias (fst w) (snd w) = Some items"
    "item \<in> set items" "s \<in> set (cut_item w item)"
    using window_spans_within [OF spans(3,4)] by auto
  have "s \<in> set (parts (max (fst item) (fst w)) (min (fst item + snd item) (snd w)))"
    using w(4) by (simp add: cut_item_def Let_def split_beta)
  from parts_within [OF this] have b: "max (fst item) (fst w) \<le> span_start s" "span_start s + span_duration s \<le> min (fst item + snd item) (snd w)"
    "span_duration s \<le> MAX_PART_S"
    by auto
  have "fst w - 1000 < start" "start + duration < snd w + 2000" "fst item - 1000 < start"
    "start + duration < fst item + snd item + 2000" "duration < MAX_PART_S + 1000"
    using b s(2,3) by linarith+
  then show ?thesis using spans w by blast
qed

theorem replay_stays_within_windows_witness:
  "is_listed_part (\<lambda>_ _ _. Some [(seconds 5, seconds 700)]) [(0, seconds 650)] [''cam1''] ''cam1'' (seconds 605) (seconds 45)
     = Some True
   \<and> seconds 45 < MAX_PART_S + 1000"
proof -
  have "is_listed_part (\<lambda>_ _ _. Some [(seconds 5, seconds 700)]) [(0, seconds 650)] [''cam1''] ''cam1'' (seconds 605) (seconds 45)
      = Some True"
    by (simp add: is_listed_part_def cut_item_def parts.simps MAX_PART_S_def Let_def)
  with replay_stays_within_windows [OF this] show ?thesis by blast
qed

text \<open>
  C29. Cleaning the replay cache never removes a copy that is being played, leaves at most the budget
  unless every copy that counts towards it is being played, and removes the least recently played
  first: a copy removed for the limit was last played no later than any idle copy that was kept.
\<close>

theorem prune_keeps_what_is_played:
  assumes pruned: "prune_cache budget now clk uses files = (left, uses')" and dist: "distinct files"
  shows "(\<forall>f\<in>set files. cf_suffix f = Mp4 \<and> being_played clk uses (cf_path f) \<longrightarrow> f \<in> set left)
    \<and> (total_bytes (filter (counted now) left) \<le> budget
        \<or> (\<forall>f\<in>set left. counted now f \<longrightarrow> being_played clk uses (cf_path f)))
    \<and> (\<forall>f\<in>set files. \<forall>g\<in>set left. counted now f \<and> f \<notin> set left
        \<and> counted now g \<and> \<not> being_played clk uses (cf_path g) \<longrightarrow> cf_mtime f \<le> cf_mtime g)"
proof -
  define uses1 where "uses1 = forget_finished_plays clk uses"
  define aged where "aged = filter (\<lambda>f. \<not> removed_by_age now clk uses1 f) files"
  define kept where "kept = filter (counted now) aged"
  define key :: "cache_file \<Rightarrow> time \<times> nat \<times> string" where "key = (\<lambda>f. (cf_mtime f, cf_bytes f, cf_path f))"
  define by_play where "by_play = sort_key key kept"
  define gone where "gone = over_limit budget clk uses1 (total_bytes kept) by_play"
  have left: "left = filter (\<lambda>f. f \<notin> set gone) aged"
    using pruned by (auto simp: prune_cache_def Let_def uses1_def aged_def kept_def by_play_def gone_def key_def)
  have play: "being_played clk uses1 p = being_played clk uses p" for p by (simp add: uses1_def)
  have bp: "set by_play = set kept" "distinct by_play"
    using dist by (simp_all add: by_play_def kept_def aged_def)
  have gone_sub: "f \<in> set kept \<and> \<not> being_played clk uses (cf_path f)" if "f \<in> set gone" for f
    using over_limit_sub [of budget clk uses1 "total_bytes kept" by_play] that bp play by (auto simp: gone_def)
  have A: "f \<in> set left" if "f \<in> set files" "cf_suffix f = Mp4" "being_played clk uses (cf_path f)" for f
    using that gone_sub play by (auto simp: left aged_def removed_by_age_def)
  have "filter (counted now) left = filter (\<lambda>f. f \<notin> set gone) kept"
    by (simp add: left kept_def conj_commute)
  then have B: "total_bytes (filter (counted now) left) \<le> budget
      \<or> (\<forall>f\<in>set left. counted now f \<longrightarrow> being_played clk uses (cf_path f))"
    using over_limit_fits [of kept by_play gone budget clk uses1, OF _ bp gone_def] dist
    by (auto simp: kept_def aged_def left play)
  have C: "cf_mtime f \<le> cf_mtime g"
    if f: "f \<in> set files" "counted now f" "f \<notin> set left"
      and g: "g \<in> set left" "counted now g" "\<not> being_played clk uses (cf_path g)" for f g
  proof -
    have "\<not> removed_by_age now clk uses1 f"
      using f(2) by (simp add: removed_by_age_def counted_def)
    then have "f \<in> set gone" using f(1,3) by (simp add: left aged_def)
    moreover have "g \<in> set by_play" "g \<notin> set gone" using g bp by (auto simp: left kept_def)
    ultimately have "key f \<le> key g"
      using over_limit_oldest_first [of key by_play f budget clk uses1 "total_bytes kept" g] g(3) play
      by (simp add: gone_def by_play_def)
    then show ?thesis by (auto simp: key_def)
  qed
  show ?thesis using A B C by blast
qed

definition small_cache :: "cache_file list" where
  "small_cache =
     [\<lparr>cf_path = ''a'', cf_suffix = Mp4, cf_mtime = 10, cf_bytes = 60, cf_named = Some (''cam1'', 0, seconds 600)\<rparr>,
      \<lparr>cf_path = ''b'', cf_suffix = Mp4, cf_mtime = 20, cf_bytes = 60, cf_named = Some (''cam1'', 1, seconds 600)\<rparr>,
      \<lparr>cf_path = ''c'', cf_suffix = Mp4, cf_mtime = 5, cf_bytes = 60, cf_named = Some (''cam1'', 2, seconds 600)\<rparr>]"

theorem prune_keeps_what_is_played_witness:
  "\<exists>left uses'. prune_cache 130 30 30 [''c'' \<mapsto> 40] small_cache = (left, uses') \<and> map cf_path left = [''b'', ''c'']
    \<and> (total_bytes (filter (counted 30) left) \<le> 130
        \<or> (\<forall>f\<in>set left. counted 30 f \<longrightarrow> being_played 30 [''c'' \<mapsto> 40] (cf_path f)))"
proof -
  have d: "distinct small_cache" by (simp add: small_cache_def)
  obtain left uses' where p: "prune_cache 130 30 30 [''c'' \<mapsto> 40] small_cache = (left, uses')" by fastforce
  then have "map cf_path left = [''b'', ''c'']"
    by (auto simp: prune_cache_def small_cache_def removed_by_age_def copy_too_old_def CACHE_MAX_AGE_S_def
        counted_def being_played_def forget_finished_plays_def total_bytes_def less_prod_def less_eq_prod_def)
  then show ?thesis
    using prune_keeps_what_is_played [OF p d] p
    by (intro exI [of _ left] exI [of _ uses'] conjI) simp_all
qed









text \<open>A recording that began before the window it runs into is deleted with the Session.\<close>

definition shared_segment :: rec_file where
  "shared_segment = \<lparr>rf_name = ''s'', rf_readings = Some (seconds 90, seconds 90), rf_written = Some (seconds 130)\<rparr>"

lemma earlier_start_goes_too:
  "file_start shared_segment = Some (seconds 90)
    \<and> delete_session_video (\<lambda>_ _. False) (Some (loopdemo_paths :: unit config_paths)) [(seconds 120, seconds 200)] []
        (Some [\<lparr>fo_name = ''cam1'', fo_mp4 = [shared_segment], fo_others = []\<rparr>]) []
      = (Some [\<lparr>fo_name = ''cam1'', fo_mp4 = [], fo_others = []\<rparr>], 1, [])"
proof -
  have "recording_belongs [(seconds 120, seconds 200)] [] shared_segment = True"
    by (simp add: recording_belongs_def shared_segment_def file_start_def file_end_def belongs_def overlaps_def
        SEGMENT_def)
  moreover have "camera_folders (\<lambda>_ _. False) (Some (loopdemo_paths :: unit config_paths))
      [\<lparr>fo_name = ''cam1'', fo_mp4 = fs, fo_others = []\<rparr>] = [\<lparr>fo_name = ''cam1'', fo_mp4 = fs, fo_others = []\<rparr>]" for fs
    by (simp add: camera_folders_def loopdemo_paths_def config_defines_def)
  ultimately show ?thesis
    by (simp add: delete_session_video_def Let_def) (simp add: shared_segment_def file_start_def)
qed


end
