(* ===== verification/Part_Lock.thy ===== *)
theory Part_Lock
  imports Recordings
begin

text \<open>
  The concurrency of \<open>services/recordings.py\<close>: requests for one replay part (\<open>replay_file\<close> under
  \<open>_part_lock\<close>), the cleaning of the cache, and the deletion of the part's Session
  (\<open>delete_session_video\<close>, after the Session's row is gone), interleaved step by step. Each step is
  one action the code performs under \<open>_locks_guard\<close>, one file operation or one query. The users of
  the lock's registry entry are kept as a set, whose size is the count the code keeps.
\<close>

section \<open>The agents\<close>

datatype agent = Replay nat | Deleter

text \<open>Where a replay request is in \<open>replay_file\<close>.\<close>

datatype replay_pc = Idle | Waiting | Locked | Allowed | Downloading | Leaving

text \<open>Where the deletion is: before its commit, and through the end of \<open>delete_session_video\<close>.\<close>

datatype delete_pc =
    D_start | D_committed | D_locks | D_mp4 | D_listed
  | D_waiting | D_locked | D_unlinked | D_leaving | D_done

text \<open>The registry's entry for the part, if any: who holds its lock and who uses the entry.\<close>

record part_state =
  pt_session :: bool
  pt_copy :: bool
  pt_partial :: bool
  pt_entry :: "(agent option \<times> agent set) option"
  pt_pc :: "nat \<Rightarrow> replay_pc"
  pt_del :: delete_pc
  pt_seen :: bool

definition enter_lock :: "agent \<Rightarrow> (agent option \<times> agent set) option \<Rightarrow> (agent option \<times> agent set) option" where
  "enter_lock a entry = (case entry of None \<Rightarrow> Some (None, {a}) | Some (h, us) \<Rightarrow> Some (h, insert a us))"

definition acquire_lock :: "agent \<Rightarrow> (agent option \<times> agent set) option \<Rightarrow> (agent option \<times> agent set) option" where
  "acquire_lock a entry = map_option (\<lambda>(_, us). (Some a, us)) entry"

definition release_lock :: "(agent option \<times> agent set) option \<Rightarrow> (agent option \<times> agent set) option" where
  "release_lock entry = map_option (\<lambda>(_, us). (None, us)) entry"

definition leave_lock :: "agent \<Rightarrow> (agent option \<times> agent set) option \<Rightarrow> (agent option \<times> agent set) option" where
  "leave_lock a entry =
     (case entry of None \<Rightarrow> None | Some (h, us) \<Rightarrow> if us - {a} = {} then None else Some (h, us - {a}))"

section \<open>The steps\<close>

inductive part_step :: "part_state \<Rightarrow> part_state \<Rightarrow> bool" where
  enter: "pt_pc st t = Idle \<Longrightarrow>
    part_step st (st\<lparr>pt_pc := (pt_pc st)(t := Waiting), pt_entry := enter_lock (Replay t) (pt_entry st)\<rparr>)"
| acquire: "pt_pc st t = Waiting \<Longrightarrow> pt_entry st = Some (None, us) \<Longrightarrow>
    part_step st (st\<lparr>pt_pc := (pt_pc st)(t := Locked), pt_entry := acquire_lock (Replay t) (pt_entry st)\<rparr>)"
| still_allowed: "pt_pc st t = Locked \<Longrightarrow> pt_session st \<Longrightarrow>
    part_step st (st\<lparr>pt_pc := (pt_pc st)(t := Allowed)\<rparr>)"
| withdrawn: "pt_pc st t = Locked \<Longrightarrow> \<not> pt_session st \<Longrightarrow>
    part_step st (st\<lparr>pt_pc := (pt_pc st)(t := Leaving), pt_entry := release_lock (pt_entry st)\<rparr>)"
| hit: "pt_pc st t = Allowed \<Longrightarrow> pt_copy st \<Longrightarrow>
    part_step st (st\<lparr>pt_pc := (pt_pc st)(t := Leaving), pt_entry := release_lock (pt_entry st)\<rparr>)"
| not_opened: "pt_pc st t = Allowed \<Longrightarrow>
    part_step st (st\<lparr>pt_pc := (pt_pc st)(t := Leaving), pt_entry := release_lock (pt_entry st)\<rparr>)"
| download: "pt_pc st t = Allowed \<Longrightarrow> \<not> pt_copy st \<Longrightarrow>
    part_step st (st\<lparr>pt_pc := (pt_pc st)(t := Downloading), pt_partial := True\<rparr>)"
| finished: "pt_pc st t = Downloading \<Longrightarrow> pt_partial st \<Longrightarrow>
    part_step st (st\<lparr>pt_pc := (pt_pc st)(t := Leaving), pt_partial := False, pt_copy := True,
      pt_entry := release_lock (pt_entry st)\<rparr>)"
| broken_off: "pt_pc st t = Downloading \<Longrightarrow>
    part_step st (st\<lparr>pt_pc := (pt_pc st)(t := Leaving), pt_partial := False, pt_entry := release_lock (pt_entry st)\<rparr>)"
| left_partial: "pt_pc st t = Downloading \<Longrightarrow>
    part_step st (st\<lparr>pt_pc := (pt_pc st)(t := Leaving), pt_entry := release_lock (pt_entry st)\<rparr>)"
| leave: "pt_pc st t = Leaving \<Longrightarrow>
    part_step st (st\<lparr>pt_pc := (pt_pc st)(t := Idle), pt_entry := leave_lock (Replay t) (pt_entry st)\<rparr>)"
| prune_copy: "part_step st (st\<lparr>pt_copy := False\<rparr>)"
| prune_partial: "part_step st (st\<lparr>pt_partial := False\<rparr>)"
| d_commit: "pt_del st = D_start \<Longrightarrow> part_step st (st\<lparr>pt_del := D_committed, pt_session := False\<rparr>)"
| d_look_locks: "pt_del st = D_committed \<Longrightarrow>
    part_step st (st\<lparr>pt_del := D_locks, pt_seen := pt_entry st \<noteq> None\<rparr>)"
| d_look_mp4: "pt_del st = D_locks \<Longrightarrow>
    part_step st (st\<lparr>pt_del := D_mp4, pt_seen := pt_seen st \<or> pt_copy st\<rparr>)"
| d_look_part: "pt_del st = D_mp4 \<Longrightarrow>
    part_step st (st\<lparr>pt_del := D_listed, pt_seen := pt_seen st \<or> pt_partial st\<rparr>)"
| d_nothing: "pt_del st = D_listed \<Longrightarrow> \<not> pt_seen st \<Longrightarrow> part_step st (st\<lparr>pt_del := D_done\<rparr>)"
| d_enter: "pt_del st = D_listed \<Longrightarrow> pt_seen st \<Longrightarrow>
    part_step st (st\<lparr>pt_del := D_waiting, pt_entry := enter_lock Deleter (pt_entry st)\<rparr>)"
| d_acquire: "pt_del st = D_waiting \<Longrightarrow> pt_entry st = Some (None, us) \<Longrightarrow>
    part_step st (st\<lparr>pt_del := D_locked, pt_entry := acquire_lock Deleter (pt_entry st)\<rparr>)"
| d_unlink_copy: "pt_del st = D_locked \<Longrightarrow> part_step st (st\<lparr>pt_del := D_unlinked, pt_copy := False\<rparr>)"
| d_unlink_partial: "pt_del st = D_unlinked \<Longrightarrow>
    part_step st (st\<lparr>pt_del := D_leaving, pt_partial := False, pt_entry := release_lock (pt_entry st)\<rparr>)"
| d_leave: "pt_del st = D_leaving \<Longrightarrow>
    part_step st (st\<lparr>pt_del := D_done, pt_entry := leave_lock Deleter (pt_entry st)\<rparr>)"

inductive_cases part_stepE: "part_step st st'"

text \<open>Nobody is at the part; whatever a crash left on disk may be there.\<close>

definition part_start :: "part_state \<Rightarrow> bool" where
  "part_start st \<longleftrightarrow> pt_session st \<and> pt_entry st = None \<and> pt_pc st = (\<lambda>_. Idle) \<and> pt_del st = D_start"

section \<open>The invariant\<close>

definition users_of :: "(agent option \<times> agent set) option \<Rightarrow> agent set" where
  "users_of entry = (case entry of None \<Rightarrow> {} | Some (_, us) \<Rightarrow> us)"

definition holder_of :: "(agent option \<times> agent set) option \<Rightarrow> agent option" where
  "holder_of entry = (case entry of None \<Rightarrow> None | Some (h, _) \<Rightarrow> h)"

lemma users_of_simps [simp]:
  "users_of None = {}" "users_of (Some (h, us)) = us"
  "users_of (enter_lock a e) = insert a (users_of e)" "users_of (acquire_lock a e) = users_of e"
  "users_of (release_lock e) = users_of e" "users_of (leave_lock a e) = users_of e - {a}"
  by (auto simp: users_of_def enter_lock_def acquire_lock_def release_lock_def leave_lock_def split: option.splits)

lemma holder_of_simps [simp]:
  "holder_of None = None" "holder_of (Some (h, us)) = h"
  "holder_of (enter_lock a e) = holder_of e" "e \<noteq> None \<Longrightarrow> holder_of (acquire_lock a e) = Some a"
  "holder_of (release_lock e) = None"
  "holder_of (leave_lock a e) = (if users_of e \<subseteq> {a} then None else holder_of e)"
  by (auto simp: holder_of_def users_of_def enter_lock_def acquire_lock_def release_lock_def leave_lock_def
      split: option.splits)

text \<open>Past the check that the Session still exists, so it may still write a file.\<close>

definition passed_check :: "part_state \<Rightarrow> nat \<Rightarrow> bool" where
  "passed_check st t \<longleftrightarrow> pt_pc st t \<in> {Allowed, Downloading}"

definition replay_lock_inv :: "agent set \<Rightarrow> agent option \<Rightarrow> (nat \<Rightarrow> replay_pc) \<Rightarrow> bool" where
  "replay_lock_inv us h pc \<longleftrightarrow>
     (\<forall>t. (Replay t \<in> us \<longleftrightarrow> pc t \<noteq> Idle) \<and> (h = Some (Replay t) \<longleftrightarrow> pc t \<in> {Locked, Allowed, Downloading}))"

definition delete_lock_inv :: "agent set \<Rightarrow> agent option \<Rightarrow> delete_pc \<Rightarrow> bool" where
  "delete_lock_inv us h d \<longleftrightarrow>
     (Deleter \<in> us \<longleftrightarrow> d \<in> {D_waiting, D_locked, D_unlinked, D_leaving})
     \<and> (h = Some Deleter \<longleftrightarrow> d \<in> {D_locked, D_unlinked})"

definition lock_inv :: "part_state \<Rightarrow> bool" where
  "lock_inv st \<longleftrightarrow>
     replay_lock_inv (users_of (pt_entry st)) (holder_of (pt_entry st)) (pt_pc st)
     \<and> delete_lock_inv (users_of (pt_entry st)) (holder_of (pt_entry st)) (pt_del st)"

text \<open>
  What the deletion may rely on at each point: that no request is past the check any more, and that
  no copy and no half-written download is on disk.
\<close>

definition quiet :: "part_state \<Rightarrow> bool" where
  "quiet st \<longleftrightarrow> (\<forall>t. \<not> passed_check st t)"

fun needs_quiet :: "delete_pc \<Rightarrow> bool \<Rightarrow> bool" where
  "needs_quiet d seen \<longleftrightarrow> d \<in> {D_locks, D_mp4, D_listed} \<and> \<not> seen \<or> d \<in> {D_leaving, D_done}"

fun needs_no_copy :: "delete_pc \<Rightarrow> bool \<Rightarrow> bool" where
  "needs_no_copy d seen \<longleftrightarrow> d \<in> {D_mp4, D_listed} \<and> \<not> seen \<or> d \<in> {D_unlinked, D_leaving, D_done}"

fun needs_no_partial :: "delete_pc \<Rightarrow> bool \<Rightarrow> bool" where
  "needs_no_partial d seen \<longleftrightarrow> d = D_listed \<and> \<not> seen \<or> d \<in> {D_leaving, D_done}"

definition gone_inv :: "part_state \<Rightarrow> bool" where
  "gone_inv st \<longleftrightarrow>
     (pt_session st \<longleftrightarrow> pt_del st = D_start)
     \<and> (needs_quiet (pt_del st) (pt_seen st) \<longrightarrow> quiet st)
     \<and> (needs_no_copy (pt_del st) (pt_seen st) \<longrightarrow> \<not> pt_copy st)
     \<and> (needs_no_partial (pt_del st) (pt_seen st) \<longrightarrow> \<not> pt_partial st)"

lemma lock_inv_start: "part_start st \<Longrightarrow> lock_inv st"
  by (simp add: part_start_def lock_inv_def replay_lock_inv_def delete_lock_inv_def)

lemma gone_inv_start: "part_start st \<Longrightarrow> gone_inv st"
  by (simp add: part_start_def gone_inv_def)

lemma replay_lock_invD:
  assumes "replay_lock_inv us h pc"
  shows "Replay t \<in> us \<Longrightarrow> pc t \<noteq> Idle" "pc t \<noteq> Idle \<Longrightarrow> Replay t \<in> us"
    "h = Some (Replay t) \<Longrightarrow> pc t \<in> {Locked, Allowed, Downloading}"
    "pc t \<in> {Locked, Allowed, Downloading} \<Longrightarrow> h = Some (Replay t)"
  using assms unfolding replay_lock_inv_def by blast+

lemma delete_lock_invD:
  assumes "delete_lock_inv us h d"
  shows "Deleter \<in> us \<Longrightarrow> d \<in> {D_waiting, D_locked, D_unlinked, D_leaving}"
    "d \<in> {D_waiting, D_locked, D_unlinked, D_leaving} \<Longrightarrow> Deleter \<in> us"
    "h = Some Deleter \<Longrightarrow> d \<in> {D_locked, D_unlinked}"
    "d \<in> {D_locked, D_unlinked} \<Longrightarrow> h = Some Deleter"
  using assms unfolding delete_lock_inv_def by blast+

text \<open>One request moves on.\<close>

lemma replay_moves:
  assumes inv: "replay_lock_inv us h pc"
    and "Replay t \<in> us' \<longleftrightarrow> x \<noteq> Idle" "\<And>s. s \<noteq> t \<Longrightarrow> Replay s \<in> us' \<longleftrightarrow> Replay s \<in> us"
    and "h' = Some (Replay t) \<longleftrightarrow> x \<in> {Locked, Allowed, Downloading}"
    and "\<And>s. s \<noteq> t \<Longrightarrow> h' = Some (Replay s) \<longleftrightarrow> h = Some (Replay s)"
  shows "replay_lock_inv us' h' (pc(t := x))"
  unfolding replay_lock_inv_def
proof
  fix s
  show "(Replay s \<in> us' \<longleftrightarrow> (pc(t := x)) s \<noteq> Idle)
      \<and> (h' = Some (Replay s) \<longleftrightarrow> (pc(t := x)) s \<in> {Locked, Allowed, Downloading})"
  proof (cases "s = t")
    case True
    then show ?thesis using assms(2,4) by simp
  next
    case False
    then have "Replay s \<in> us' \<longleftrightarrow> Replay s \<in> us" "h' = Some (Replay s) \<longleftrightarrow> h = Some (Replay s)"
      using assms(3,5) by blast+
    then show ?thesis
      using replay_lock_invD [OF inv, of s] False by (metis fun_upd_other)
  qed
qed

lemma replay_stays:
  assumes "replay_lock_inv us h pc" "\<And>s. Replay s \<in> us' \<longleftrightarrow> Replay s \<in> us"
    and "\<And>s. h' = Some (Replay s) \<longleftrightarrow> h = Some (Replay s)"
  shows "replay_lock_inv us' h' pc"
  using assms unfolding replay_lock_inv_def by blast

lemma delete_stays:
  assumes "delete_lock_inv us h d" "Deleter \<in> us' \<longleftrightarrow> Deleter \<in> us"
    and "h' = Some Deleter \<longleftrightarrow> h = Some Deleter"
  shows "delete_lock_inv us' h' d"
  using assms unfolding delete_lock_inv_def by blast

text \<open>The holder is a user, so it is not the one that empties the entry.\<close>

lemma holder_is_user:
  assumes "lock_inv st" "holder_of (pt_entry st) = Some a"
  shows "a \<in> users_of (pt_entry st)"
proof (cases a)
  case (Replay t)
  have r: "replay_lock_inv (users_of (pt_entry st)) (holder_of (pt_entry st)) (pt_pc st)"
    using assms(1) by (simp add: lock_inv_def)
  have "pt_pc st t \<noteq> Idle" using replay_lock_invD(3) [OF r, of t] assms(2) Replay by auto
  then show ?thesis using replay_lock_invD(2) [OF r] Replay by blast
next
  case Deleter
  have d: "delete_lock_inv (users_of (pt_entry st)) (holder_of (pt_entry st)) (pt_del st)"
    using assms(1) by (simp add: lock_inv_def)
  have "pt_del st \<in> {D_locked, D_unlinked}" using delete_lock_invD(3) [OF d] assms(2) Deleter by blast
  then show ?thesis using delete_lock_invD(2) [OF d] Deleter by blast
qed

lemma leave_keeps_holder:
  assumes "lock_inv st" "holder_of (pt_entry st) \<noteq> Some a"
  shows "holder_of (leave_lock a (pt_entry st)) = holder_of (pt_entry st)"
proof (cases "holder_of (pt_entry st)")
  case None
  then show ?thesis by simp
next
  case (Some b)
  then have "b \<in> users_of (pt_entry st)" "b \<noteq> a" using holder_is_user [OF assms(1)] assms(2) by auto
  then have "\<not> users_of (pt_entry st) \<subseteq> {a}" by blast
  then show ?thesis by simp
qed

lemma lock_inv_step:
  assumes inv: "lock_inv st" and step: "part_step st st'"
  shows "lock_inv st'"
proof -
  have r: "replay_lock_inv (users_of (pt_entry st)) (holder_of (pt_entry st)) (pt_pc st)"
    and d: "delete_lock_inv (users_of (pt_entry st)) (holder_of (pt_entry st)) (pt_del st)"
    using inv by (simp_all add: lock_inv_def)
  note keep = leave_keeps_holder [OF inv]
  have mine: "holder_of (pt_entry st) = Some (Replay t)" "Replay t \<in> users_of (pt_entry st)"
    if "pt_pc st t \<in> {Locked, Allowed, Downloading}" for t
    using replay_lock_invD(2,4) [OF r, of t] that by auto
  have release: "lock_inv st'"
    if "pt_pc st t \<in> {Locked, Allowed, Downloading}" "pt_entry st' = release_lock (pt_entry st)"
      "pt_pc st' = (pt_pc st)(t := Leaving)" "pt_del st' = pt_del st" for t
    unfolding lock_inv_def that(2,3,4)
    using mine [OF that(1)] by (intro conjI replay_moves [OF r] delete_stays [OF d]) simp_all
  have hold: "lock_inv st'"
    if "pt_pc st t \<in> {Locked, Allowed, Downloading}" "pt_entry st' = pt_entry st"
      "pt_pc st' = (pt_pc st)(t := x)" "x \<in> {Allowed, Downloading}" "pt_del st' = pt_del st" for t x
    unfolding lock_inv_def that(2,3,5)
    using mine [OF that(1)] that(4) by (intro conjI replay_moves [OF r] d) auto
  have still: "lock_inv st'"
    if "pt_entry st' = pt_entry st" "pt_pc st' = pt_pc st" "pt_del st' = pt_del st"
    using inv by (simp add: lock_inv_def that)
  have d_moves: "lock_inv st'"
    if "pt_pc st' = pt_pc st" "delete_lock_inv (users_of (pt_entry st')) (holder_of (pt_entry st')) (pt_del st')"
      "\<And>s. Replay s \<in> users_of (pt_entry st') \<longleftrightarrow> Replay s \<in> users_of (pt_entry st)"
      "\<And>s. holder_of (pt_entry st') = Some (Replay s) \<longleftrightarrow> holder_of (pt_entry st) = Some (Replay s)"
    unfolding lock_inv_def that(1) using that(2-) replay_stays [OF r] by blast
  have users_d: "Deleter \<in> users_of (pt_entry st) \<longleftrightarrow> pt_del st \<in> {D_waiting, D_locked, D_unlinked, D_leaving}"
    and holds_d: "holder_of (pt_entry st) = Some Deleter \<longleftrightarrow> pt_del st \<in> {D_locked, D_unlinked}"
    using delete_lock_invD [OF d] by blast+
  from step show ?thesis
  proof cases
    case (enter t)
    then have "holder_of (pt_entry st) \<noteq> Some (Replay t)" using replay_lock_invD(3) [OF r, of t] by auto
    then show ?thesis
      unfolding lock_inv_def enter(1) by (intro conjI) (simp_all add: replay_moves [OF r] delete_stays [OF d])
  next
    case (acquire t us)
    have "Replay t \<in> us" using replay_lock_invD(2) [OF r, of t] acquire by simp
    then show ?thesis
      unfolding lock_inv_def acquire(1) using acquire(3) r d
      by (intro conjI) (simp_all add: replay_moves delete_stays)
  next
    case (leave t)
    have n: "holder_of (pt_entry st) \<noteq> Some (Replay t)"
      using replay_lock_invD(3) [OF r, of t] leave by auto
    show ?thesis
      unfolding lock_inv_def leave(1) using n keep [OF n]
      by (intro conjI) (simp_all add: replay_moves [OF r] delete_stays [OF d] del: holder_of_simps(6))
  next
    case d_leave
    have n: "holder_of (pt_entry st) \<noteq> Some Deleter" using holds_d d_leave by simp
    show ?thesis
      by (rule d_moves) (use d_leave n keep [OF n] in \<open>simp_all add: delete_lock_inv_def del: holder_of_simps(6)\<close>)
  next
    case (d_acquire us)
    show ?thesis
      by (rule d_moves) (use d_acquire users_d in \<open>simp_all add: delete_lock_inv_def\<close>)
  next
    case d_look_locks
    show ?thesis by (rule d_moves) (use d_look_locks users_d holds_d in \<open>simp_all add: delete_lock_inv_def\<close>)
  next
    case d_look_mp4
    show ?thesis by (rule d_moves) (use d_look_mp4 users_d holds_d in \<open>simp_all add: delete_lock_inv_def\<close>)
  next
    case d_look_part
    show ?thesis by (rule d_moves) (use d_look_part users_d holds_d in \<open>simp_all add: delete_lock_inv_def\<close>)
  next
    case d_nothing
    show ?thesis by (rule d_moves) (use d_nothing users_d holds_d in \<open>simp_all add: delete_lock_inv_def\<close>)
  next
    case d_commit
    show ?thesis by (rule d_moves) (use d_commit users_d holds_d in \<open>simp_all add: delete_lock_inv_def\<close>)
  next
    case d_enter
    show ?thesis by (rule d_moves) (use d_enter users_d holds_d in \<open>simp_all add: delete_lock_inv_def\<close>)
  next
    case d_unlink_copy
    show ?thesis by (rule d_moves) (use d_unlink_copy users_d holds_d in \<open>simp_all add: delete_lock_inv_def\<close>)
  next
    case d_unlink_partial
    show ?thesis by (rule d_moves) (use d_unlink_partial users_d holds_d in \<open>simp_all add: delete_lock_inv_def\<close>)
  qed (use release hold still in \<open>simp; fail\<close>)+
qed

text \<open>A request past the check is registered, holds the lock, and keeps the deletion out.\<close>

lemma passed_check_holds:
  assumes "lock_inv st" "passed_check st t"
  shows "pt_entry st \<noteq> None" "pt_del st \<noteq> D_locked" "pt_del st \<noteq> D_unlinked"
proof -
  have r: "replay_lock_inv (users_of (pt_entry st)) (holder_of (pt_entry st)) (pt_pc st)"
    and d: "delete_lock_inv (users_of (pt_entry st)) (holder_of (pt_entry st)) (pt_del st)"
    using assms(1) by (simp_all add: lock_inv_def)
  have h: "holder_of (pt_entry st) = Some (Replay t)"
    using replay_lock_invD(4) [OF r, of t] assms(2) by (auto simp: passed_check_def)
  then show "pt_entry st \<noteq> None" by (cases "pt_entry st") simp_all
  show "pt_del st \<noteq> D_locked" "pt_del st \<noteq> D_unlinked"
    using delete_lock_invD(4) [OF d] h by auto
qed

lemma quiet_step:
  assumes "quiet st" "\<not> pt_session st" "part_step st st'"
  shows "quiet st'"
  using assms(3)
  by cases (use assms(1,2) in \<open>simp_all add: quiet_def passed_check_def\<close>)

lemma gone_inv_step:
  assumes lock: "lock_inv st" and gone: "gone_inv st" and step: "part_step st st'"
  shows "gone_inv st'"
proof -
  have quiet_if: "quiet st" if "pt_entry st = None \<or> pt_del st = D_locked \<or> pt_del st = D_unlinked"
    using passed_check_holds [OF lock] that unfolding quiet_def by blast
  have busy: "\<not> quiet st" if "pt_pc st t = Allowed \<or> pt_pc st t = Downloading" for t
    using that by (auto simp: quiet_def passed_check_def)
  have session: "pt_session st \<longleftrightarrow> pt_del st = D_start"
    and q: "needs_quiet (pt_del st) (pt_seen st) \<Longrightarrow> quiet st"
    and c: "needs_no_copy (pt_del st) (pt_seen st) \<Longrightarrow> \<not> pt_copy st"
    and p: "needs_no_partial (pt_del st) (pt_seen st) \<Longrightarrow> \<not> pt_partial st"
    using gone unfolding gone_inv_def by blast+
  have quiet': "quiet st'" if "quiet st" "pt_del st \<noteq> D_start"
    using quiet_step [OF that(1) _ step] session that(2) by simp
  have started: "pt_del st \<noteq> D_start" if "needs_quiet (pt_del st) (pt_seen st)" using that by auto
  have copy_quiet: "quiet st" if "needs_no_copy (pt_del st) (pt_seen st)"
    using that q quiet_if by (cases "pt_del st") auto
  have partial_quiet: "quiet st" if "needs_no_partial (pt_del st) (pt_seen st)"
    using that q by (cases "pt_del st") auto
  have other: "gone_inv st'"
    if "pt_del st' = pt_del st" "pt_seen st' = pt_seen st" "pt_session st' = pt_session st"
      "pt_copy st' \<longrightarrow> pt_copy st \<or> \<not> quiet st" "pt_partial st' \<longrightarrow> pt_partial st \<or> \<not> quiet st"
    unfolding gone_inv_def that(1,2,3)
    using session q c p quiet' started copy_quiet partial_quiet that(4,5) by blast
  have own: "gone_inv st'"
    if "pt_pc st' = pt_pc st" "\<not> pt_session st'" "pt_del st' \<noteq> D_start"
      "needs_quiet (pt_del st') (pt_seen st') \<Longrightarrow> quiet st"
      "needs_no_copy (pt_del st') (pt_seen st') \<Longrightarrow> \<not> pt_copy st'"
      "needs_no_partial (pt_del st') (pt_seen st') \<Longrightarrow> \<not> pt_partial st'"
  proof -
    have "quiet st' = quiet st" using that(1) by (simp add: quiet_def passed_check_def)
    then show ?thesis unfolding gone_inv_def using that(2-6) by blast
  qed
  have free: "quiet st" if "pt_entry st = None" using quiet_if that by blast
  from step show ?thesis
  proof cases
    case (download t)
    then show ?thesis using busy by (intro other) auto
  next
    case (finished t)
    then show ?thesis using busy by (intro other) auto
  next
    case d_commit
    then show ?thesis by (intro own) auto
  next
    case d_look_locks
    then show ?thesis using session free by (intro own) (auto simp del: not_None_eq)
  next
    case d_look_mp4
    then show ?thesis using session q by (intro own) auto
  next
    case d_look_part
    then show ?thesis using session q c by (intro own) auto
  next
    case d_nothing
    then show ?thesis using session q c p by (intro own) auto
  next
    case d_enter
    then show ?thesis using session q c p by (intro own) auto
  next
    case (d_acquire us)
    then show ?thesis using session q c p by (intro own) auto
  next
    case d_unlink_copy
    then show ?thesis using session by (intro own) auto
  next
    case d_unlink_partial
    then show ?thesis using session quiet_if c by (intro own) auto
  next
    case d_leave
    then show ?thesis using session q c p by (intro own) auto
  qed (rule other; simp)+
qed

interpretation part: invariant_system part_start part_step "\<lambda>st. lock_inv st \<and> gone_inv st"
  by unfold_locales (use lock_inv_start gone_inv_start lock_inv_step gone_inv_step in blast)+

section \<open>Properties\<close>

text \<open>The requests, and the deletion, that hold the part: between its \<open>_part_lock\<close>'s two ends.\<close>

definition at_work :: "part_state \<Rightarrow> agent set" where
  "at_work st = {Replay t | t. pt_pc st t \<in> {Locked, Allowed, Downloading}}
     \<union> {Deleter | d. pt_del st = d \<and> d \<in> {D_locked, D_unlinked}}"

lemma at_work_holds: "lock_inv st \<Longrightarrow> a \<in> at_work st \<Longrightarrow> holder_of (pt_entry st) = Some a"
  using replay_lock_invD(4) delete_lock_invD(4) unfolding lock_inv_def at_work_def by blast

lemma done_stays: "steps part_step st st' \<Longrightarrow> pt_del st = D_done \<Longrightarrow> pt_del st' = D_done"
proof (induction rule: steps.induct)
  case (steps_step s t u)
  then have "pt_del t = D_done" by simp
  with steps_step.hyps(2) show ?case by cases auto
qed

text \<open>
  C19. However requests for a replay part, the cleaning of the cache and the deletion of its Session
  interleave, in every state at most one of the requests and the deletion is at work on the part under
  its lock (the cleaning, which takes no lock, only removes files); and once the deletion has dealt
  with the part, no copy and no half-written download of it is on disk, nor ever again.
\<close>

theorem deleted_part_stays_deleted:
  assumes "reach part_start part_step st"
  shows "(\<forall>a\<in>at_work st. \<forall>b\<in>at_work st. a = b)
    \<and> (\<forall>st'. pt_del st = D_done \<and> steps part_step st st' \<longrightarrow>
        \<not> pt_copy st' \<and> \<not> pt_partial st' \<and> pt_del st' = D_done)"
proof (intro conjI ballI allI impI; (elim conjE)?)
  have inv: "lock_inv st \<and> gone_inv st" using assms by (rule part.reach_inv)
  show "a = b" if "a \<in> at_work st" "b \<in> at_work st" for a b
    using at_work_holds [of st a] at_work_holds [of st b] inv that by simp
  fix st' assume st': "pt_del st = D_done" "steps part_step st st'"
  then show "pt_del st' = D_done" using done_stays by blast
  with part.steps_inv [OF st'(2) inv] show "\<not> pt_copy st'" "\<not> pt_partial st'"
    by (simp_all add: gone_inv_def)
qed

text \<open>A request is past the check when the deletion starts; the deletion waits for it.\<close>

definition part_overtaken :: part_state where
  "part_overtaken = \<lparr>pt_session = False, pt_copy = False, pt_partial = False, pt_entry = None,
     pt_pc = (\<lambda>_. Idle)(1 := Idle), pt_del = D_done, pt_seen = True\<rparr>"

lemma part_overtaken_reachable: "reach part_start part_step part_overtaken"
proof -
  let ?e = "Some (None, {Replay 1})"
  let ?f = "Some (None, {Deleter})"
  let ?both = "{Deleter, Replay 1}"
  define s where "s = (\<lambda>sess c p e pc d seen.
    \<lparr>pt_session = sess, pt_copy = c, pt_partial = p, pt_entry = e, pt_pc = (\<lambda>_. Idle)(1 := pc), pt_del = d, pt_seen = seen\<rparr>)"
  note upd = s_def fun_eq_iff enter_lock_def acquire_lock_def release_lock_def leave_lock_def
  have r: "reach part_start part_step (s True False False None Idle D_start False)"
    by (rule reach_init) (simp add: part_start_def s_def fun_eq_iff)
  have r: "reach part_start part_step (s True False False ?e Waiting D_start False)"
    by (rule reach_step [OF r]) (use enter [of "s True False False None Idle D_start False" 1] in \<open>simp add: upd\<close>)
  have r: "reach part_start part_step (s True False False (Some (Some (Replay 1), {Replay 1})) Locked D_start False)"
    by (rule reach_step [OF r]) (use acquire [of "s True False False ?e Waiting D_start False" 1] in \<open>simp add: upd\<close>)
  have r: "reach part_start part_step (s True False False (Some (Some (Replay 1), {Replay 1})) Allowed D_start False)"
    by (rule reach_step [OF r])
      (use still_allowed [of "s True False False (Some (Some (Replay 1), {Replay 1})) Locked D_start False" 1] in \<open>simp add: upd\<close>)
  have r: "reach part_start part_step (s True False True (Some (Some (Replay 1), {Replay 1})) Downloading D_start False)"
    by (rule reach_step [OF r])
      (use download [of "s True False False (Some (Some (Replay 1), {Replay 1})) Allowed D_start False" 1] in \<open>simp add: upd\<close>)
  have r: "reach part_start part_step (s False False True (Some (Some (Replay 1), {Replay 1})) Downloading D_committed False)"
    by (rule reach_step [OF r])
      (use d_commit [of "s True False True (Some (Some (Replay 1), {Replay 1})) Downloading D_start False"] in \<open>simp add: upd\<close>)
  have r: "reach part_start part_step (s False False True (Some (Some (Replay 1), {Replay 1})) Downloading D_locks True)"
    by (rule reach_step [OF r])
      (use d_look_locks [of "s False False True (Some (Some (Replay 1), {Replay 1})) Downloading D_committed False"] in \<open>simp add: upd\<close>)
  have r: "reach part_start part_step (s False False True (Some (Some (Replay 1), {Replay 1})) Downloading D_mp4 True)"
    by (rule reach_step [OF r])
      (use d_look_mp4 [of "s False False True (Some (Some (Replay 1), {Replay 1})) Downloading D_locks True"] in \<open>simp add: upd\<close>)
  have r: "reach part_start part_step (s False False True (Some (Some (Replay 1), {Replay 1})) Downloading D_listed True)"
    by (rule reach_step [OF r])
      (use d_look_part [of "s False False True (Some (Some (Replay 1), {Replay 1})) Downloading D_mp4 True"] in \<open>simp add: upd\<close>)
  have r: "reach part_start part_step (s False False True (Some (Some (Replay 1), ?both)) Downloading D_waiting True)"
    by (rule reach_step [OF r])
      (use d_enter [of "s False False True (Some (Some (Replay 1), {Replay 1})) Downloading D_listed True"] in \<open>simp add: upd\<close>)
  have r: "reach part_start part_step (s False True False (Some (None, ?both)) Leaving D_waiting True)"
    by (rule reach_step [OF r])
      (use finished [of "s False False True (Some (Some (Replay 1), ?both)) Downloading D_waiting True" 1] in \<open>simp add: upd\<close>)
  have r: "reach part_start part_step (s False True False ?f Idle D_waiting True)"
    by (rule reach_step [OF r])
      (use leave [of "s False True False (Some (None, ?both)) Leaving D_waiting True" 1] in \<open>simp add: upd insert_Diff_if\<close>)
  have r: "reach part_start part_step (s False True False (Some (Some Deleter, {Deleter})) Idle D_locked True)"
    by (rule reach_step [OF r]) (use d_acquire [of "s False True False ?f Idle D_waiting True"] in \<open>simp add: upd\<close>)
  have r: "reach part_start part_step (s False False False (Some (Some Deleter, {Deleter})) Idle D_unlinked True)"
    by (rule reach_step [OF r])
      (use d_unlink_copy [of "s False True False (Some (Some Deleter, {Deleter})) Idle D_locked True"] in \<open>simp add: upd\<close>)
  have r: "reach part_start part_step (s False False False ?f Idle D_leaving True)"
    by (rule reach_step [OF r])
      (use d_unlink_partial [of "s False False False (Some (Some Deleter, {Deleter})) Idle D_unlinked True"] in \<open>simp add: upd\<close>)
  have "reach part_start part_step (s False False False None Idle D_done True)"
    by (rule reach_step [OF r]) (use d_leave [of "s False False False ?f Idle D_leaving True"] in \<open>simp add: upd\<close>)
  then show ?thesis by (simp only: s_def part_overtaken_def)
qed

theorem deleted_part_stays_deleted_witness:
  "reach part_start part_step part_overtaken \<and> pt_del part_overtaken = D_done
    \<and> \<not> pt_copy part_overtaken \<and> \<not> pt_partial part_overtaken"
proof -
  have d: "pt_del part_overtaken = D_done" by (simp add: part_overtaken_def)
  then show ?thesis
    using deleted_part_stays_deleted [OF part_overtaken_reachable] steps_refl [of part_step part_overtaken]
      part_overtaken_reachable by blast
qed

end
