(* ===== verification/Tracks.thy ===== *)
theory Tracks
  imports Prelude
begin

text \<open>
  The geometry of the detection pipeline
  (\<open>ImageRecognitionService/detection/new_bullet_holes.py\<close>): when two detections are one Bullet
  Hole, the Baseline Marks a Run starts from, the suppression of detections of a mark that was
  already on the Board, and the optional merge of displaced sightings.

  A detection is the list of its numbers, \<open>(cx, cy)\<close> or \<open>(cx, cy, w, h)\<close>, in Board pixels; the
  detections of a Run all have one shape, as the rows of a numpy array do. The float32 values the
  code computes with are real numbers here. A Bullet Hole is the dict \<open>_judge\<close> makes; its field
  \<open>hid\<close> is the identity of that dict (Python's \<open>id\<close>), which is what the code keys on.
\<close>

section \<open>Same Bullet Hole\<close>

type_synonym detection = "real list"

definition PERSIST :: real where
  "PERSIST = 1 / 2"

definition PERSIST_FRAMES :: nat where
  "PERSIST_FRAMES = 50"

definition DUP_CENTER_FACTOR :: real where
  "DUP_CENTER_FACTOR = 1 / 2"

definition OVERLAP_THRESHOLD :: real where
  "OVERLAP_THRESHOLD = 1 / 2"

definition MAX_DISPLACEMENT_FRACTION :: real where
  "MAX_DISPLACEMENT_FRACTION = 35 / 100"

definition hypot :: "real \<Rightarrow> real \<Rightarrow> real" where
  "hypot x y = sqrt (x * x + y * y)"

definition distance :: "detection \<Rightarrow> detection \<Rightarrow> real" where
  "distance a b = hypot (a ! 0 - b ! 0) (a ! 1 - b ! 1)"

definition overlap_fraction :: "detection \<Rightarrow> detection \<Rightarrow> real" where
  "overlap_fraction a b =
     (let dx = min (a ! 0 + a ! 2 / 2) (b ! 0 + b ! 2 / 2)
                 - max (a ! 0 - a ! 2 / 2) (b ! 0 - b ! 2 / 2);
          dy = min (a ! 1 + a ! 3 / 2) (b ! 1 + b ! 3 / 2)
                 - max (a ! 1 - a ! 3 / 2) (b ! 1 - b ! 3 / 2)
      in if dx \<le> 0 \<or> dy \<le> 0 then 0
         else let smaller = min (a ! 2 * a ! 3) (b ! 2 * b ! 3)
              in if smaller > 0 then dx * dy / smaller else 0)"

definition same_bullet_hole :: "detection \<Rightarrow> detection \<Rightarrow> real \<Rightarrow> bool" where
  "same_bullet_hole a b floor_px =
     (if distance a b < floor_px then True
      else if length a < 4 \<or> length b < 4 then False
      else if overlap_fraction a b > OVERLAP_THRESHOLD then True
      else let mean_diagonal = (hypot (a ! 2) (a ! 3) + hypot (b ! 2) (b ! 3)) / 2
           in distance a b < DUP_CENTER_FACTOR * mean_diagonal)"

lemma hypot_nonneg [simp]: "0 \<le> hypot x y"
  by (simp add: hypot_def)

lemma hypot_zero [simp]: "hypot 0 0 = 0"
  by (simp add: hypot_def)

lemma hypot_minus: "hypot (a - b) (c - d) = hypot (b - a) (d - c)"
  by (simp add: hypot_def algebra_simps)

lemma distance_commute: "distance a b = distance b a"
  unfolding distance_def by (rule hypot_minus)

lemma distance_self [simp]: "distance a a = 0"
  by (simp add: distance_def)

lemma distance_nonneg [simp]: "0 \<le> distance a b"
  by (simp add: distance_def)

lemma overlap_fraction_commute: "overlap_fraction a b = overlap_fraction b a"
  by (simp add: overlap_fraction_def Let_def min.commute max.commute mult.commute)

lemma same_bullet_hole_commute: "same_bullet_hole a b f = same_bullet_hole b a f"
  by (auto simp: same_bullet_hole_def distance_commute [of a b] overlap_fraction_commute [of a b]
      add.commute)

text \<open>The overlap is at most the whole of the smaller box.\<close>

lemma overlap_fraction_le_one:
  assumes "0 \<le> a ! 2" "0 \<le> a ! 3" "0 \<le> b ! 2" "0 \<le> b ! 3"
  shows "overlap_fraction a b \<le> 1"
proof -
  define dx where "dx = min (a ! 0 + a ! 2 / 2) (b ! 0 + b ! 2 / 2)
                 - max (a ! 0 - a ! 2 / 2) (b ! 0 - b ! 2 / 2)"
  define dy where "dy = min (a ! 1 + a ! 3 / 2) (b ! 1 + b ! 3 / 2)
                 - max (a ! 1 - a ! 3 / 2) (b ! 1 - b ! 3 / 2)"
  have x: "dx \<le> a ! 2" "dx \<le> b ! 2" and y: "dy \<le> a ! 3" "dy \<le> b ! 3"
    unfolding dx_def dy_def by linarith+
  have "dx * dy \<le> min (a ! 2 * a ! 3) (b ! 2 * b ! 3)" if "0 < dx" "0 < dy"
    using that x y assms by (simp add: mult_mono)
  then show ?thesis
    unfolding overlap_fraction_def dx_def [symmetric] dy_def [symmetric] Let_def
    by (auto simp: divide_le_eq_1)
qed

section \<open>Baseline Marks\<close>

fun add_mark :: "real \<Rightarrow> detection list \<Rightarrow> detection \<Rightarrow> detection list" where
  "add_mark match_px marks p =
     (if (\<exists>m\<in>set marks. distance m p < match_px) then marks else marks @ [p])"

definition baseline_marks :: "detection list list \<Rightarrow> real \<Rightarrow> detection list" where
  "baseline_marks frames match_px = foldl (foldl (add_mark match_px)) [] frames"

definition nearest :: "detection list \<Rightarrow> detection \<Rightarrow> real" where
  "nearest baseline p = Min (set (map (\<lambda>m. distance m p) baseline))"

definition strip_pre_existing ::
  "detection list \<Rightarrow> detection list \<Rightarrow> real \<Rightarrow> detection list \<times> real list" where
  "strip_pre_existing pts baseline match_px =
     (if pts = [] \<or> baseline = [] then (pts, [])
      else (filter (\<lambda>p. nearest baseline p \<ge> match_px) pts,
            filter (\<lambda>d. d < match_px) (map (nearest baseline) pts)))"

lemma nearest_less:
  "baseline \<noteq> [] \<Longrightarrow> nearest baseline p < r \<longleftrightarrow> (\<exists>m\<in>set baseline. distance m p < r)"
  by (auto simp: nearest_def Min_less_iff)

text \<open>
  The marks collected so far: each is at least the radius away from every other, and every
  detection looked at is within the radius of one. Both are kept by every detection folded in.
\<close>

definition separated :: "real \<Rightarrow> detection list \<Rightarrow> bool" where
  "separated r marks \<longleftrightarrow>
     (\<forall>i<length marks. \<forall>j<length marks. i \<noteq> j \<longrightarrow> r \<le> distance (marks ! i) (marks ! j))"

lemma separated_append:
  assumes "separated r marks" and "\<forall>m\<in>set marks. r \<le> distance m p"
  shows "separated r (marks @ [p])"
  unfolding separated_def
proof (intro allI impI)
  fix i j
  assume "i < length (marks @ [p])" "j < length (marks @ [p])" "i \<noteq> j"
  then consider "i < length marks" "j < length marks" | "i = length marks" "j < length marks"
    | "i < length marks" "j = length marks"
    by (auto simp: less_Suc_eq)
  then show "r \<le> distance ((marks @ [p]) ! i) ((marks @ [p]) ! j)"
    using assms \<open>i \<noteq> j\<close> by cases (auto simp: separated_def nth_append distance_commute [of p])
qed

lemma add_mark_separated: "separated r marks \<Longrightarrow> separated r (add_mark r marks p)"
  using separated_append [of r marks p] by (auto simp: not_less)

lemma add_mark_keeps: "m \<in> set marks \<Longrightarrow> m \<in> set (add_mark r marks p)"
  by simp

lemma add_mark_covers: "0 < r \<Longrightarrow> \<exists>m\<in>set (add_mark r marks p). distance m p < r"
  by simp

lemma add_mark_from: "m \<in> set (add_mark r marks p) \<Longrightarrow> m \<in> set marks \<or> m = p"
  by (auto split: if_splits)

declare add_mark.simps [simp del]

lemma fold_marks_separated: "separated r marks \<Longrightarrow> separated r (foldl (add_mark r) marks pts)"
  by (induction pts arbitrary: marks) (auto intro: add_mark_separated)

lemma fold_marks_keeps: "m \<in> set marks \<Longrightarrow> m \<in> set (foldl (add_mark r) marks pts)"
  by (induction pts arbitrary: marks) (auto intro: add_mark_keeps)

lemma fold_marks_covers:
  "0 < r \<Longrightarrow> p \<in> set pts \<Longrightarrow> \<exists>m\<in>set (foldl (add_mark r) marks pts). distance m p < r"
proof (induction pts arbitrary: marks)
  case (Cons q pts)
  show ?case
  proof (cases "p = q")
    case True
    then show ?thesis
      using add_mark_covers [OF Cons.prems(1), of marks q] by (auto dest: fold_marks_keeps)
  next
    case False
    then show ?thesis using Cons by simp
  qed
qed simp

lemma frames_marks_keeps:
  "m \<in> set marks \<Longrightarrow> m \<in> set (foldl (foldl (add_mark r)) marks frames)"
  by (induction frames arbitrary: marks) (auto intro: fold_marks_keeps)

lemma frames_marks_separated:
  "separated r marks \<Longrightarrow> separated r (foldl (foldl (add_mark r)) marks frames)"
  by (induction frames arbitrary: marks) (auto intro: fold_marks_separated)

lemma frames_marks_covers:
  "0 < r \<Longrightarrow> pts \<in> set frames \<Longrightarrow> p \<in> set pts
    \<Longrightarrow> \<exists>m\<in>set (foldl (foldl (add_mark r)) marks frames). distance m p < r"
proof (induction frames arbitrary: marks)
  case (Cons f frames)
  show ?case
  proof (cases "pts = f")
    case True
    then obtain m where "m \<in> set (foldl (add_mark r) marks f)" "distance m p < r"
      using fold_marks_covers [OF Cons.prems(1), of p f marks] Cons.prems(3) by blast
    then show ?thesis by (auto dest: frames_marks_keeps)
  next
    case False
    then show ?thesis using Cons by simp
  qed
qed simp

lemma strip_survivors:
  "p \<in> set (fst (strip_pre_existing pts baseline r)) \<longleftrightarrow>
     p \<in> set pts \<and> (\<forall>m\<in>set baseline. r \<le> distance m p)"
proof (cases "pts = [] \<or> baseline = []")
  case False
  then show ?thesis
    using nearest_less [of baseline p r] by (auto simp: strip_pre_existing_def not_less)
qed (auto simp: strip_pre_existing_def)

lemma strip_residuals_less: "d \<in> set (snd (strip_pre_existing pts baseline r)) \<Longrightarrow> d < r"
  by (auto simp: strip_pre_existing_def split: if_splits)

lemma strip_lengths:
  "length (fst (strip_pre_existing pts baseline r)) + length (snd (strip_pre_existing pts baseline r))
     = length pts"
proof -
  have "length (filter (\<lambda>p. r \<le> nearest baseline p) pts)
          + length (filter (\<lambda>d. d < r) (map (nearest baseline) pts)) = length pts"
    by (induction pts) auto
  then show ?thesis by (auto simp: strip_pre_existing_def)
qed

text \<open>
  C31. The Baseline Marks are the marks that were on the Board: no two of them lie within the match
  radius of each other, every detection of every baseline frame lies within the radius of one of
  them, and so suppression against them leaves no detection of any baseline frame. What a later
  frame's suppression drops or keeps is a split of its detections: a detection survives exactly
  when it lies at least the radius away from every mark, and each one dropped gives a residual
  below the radius.
\<close>

theorem baseline_marks_suppress_the_baseline:
  assumes "0 < match_px" and baseline_def: "baseline = baseline_marks frames match_px"
  shows "separated match_px baseline
    \<and> (\<forall>pts\<in>set frames. fst (strip_pre_existing pts baseline match_px) = [])
    \<and> (\<forall>later p. p \<in> set (fst (strip_pre_existing later baseline match_px))
         \<longleftrightarrow> p \<in> set later \<and> (\<forall>m\<in>set baseline. match_px \<le> distance m p))
    \<and> (\<forall>later. length (fst (strip_pre_existing later baseline match_px))
               + length (snd (strip_pre_existing later baseline match_px)) = length later
         \<and> (\<forall>d\<in>set (snd (strip_pre_existing later baseline match_px)). d < match_px))"
proof (intro conjI ballI allI)
  show "separated match_px baseline"
    unfolding baseline_def baseline_marks_def
    by (rule frames_marks_separated) (simp add: separated_def)
next
  fix pts assume pts: "pts \<in> set frames"
  have "\<not> p \<in> set (fst (strip_pre_existing pts baseline match_px))" for p
    using frames_marks_covers [OF assms(1) pts, of p "[]"]
    unfolding strip_survivors baseline_def baseline_marks_def by force
  then have "set (fst (strip_pre_existing pts baseline match_px)) = {}"
    by (intro equals0I) simp
  then show "fst (strip_pre_existing pts baseline match_px) = []"
    by simp
qed (auto simp: strip_survivors strip_lengths dest: strip_residuals_less)

theorem baseline_marks_suppress_the_baseline_witness:
  "fst (strip_pre_existing [[10, 0, 4, 4]] (baseline_marks [[[0, 0, 4, 4]], [[10, 0, 4, 4]]] 3) 3)
     = []"
  using baseline_marks_suppress_the_baseline
    [of 3 _ "[[[0, 0, 4, 4]], [[10, 0, 4, 4]]]", OF _ refl] by simp

section \<open>Displaced sightings\<close>

record hole =
  hid :: nat
  pos :: detection
  box :: detection
  first_frame :: nat
  seen :: "nat list"
  persistence :: real
  judged_frame :: "nat option"
  corroborated :: bool
  target :: "nat option"
  mm :: "(real \<times> real) option"

text \<open>
  \<open>reference\<close> is a registered view's Targets, each a list of corner points, or None; the first
  Target's centre is the mean of its points.
\<close>

definition centre_of :: "(real \<times> real) list \<Rightarrow> detection" where
  "centre_of corners =
     [sum_list (map fst corners) / real (length corners),
      sum_list (map snd corners) / real (length corners)]"

definition displaced_sighting :: "detection \<Rightarrow> real \<Rightarrow> hole \<Rightarrow> hole \<Rightarrow> bool" where
  "displaced_sighting centre fraction later earlier \<longleftrightarrow>
     hid earlier \<noteq> hid later \<and> first_frame earlier < first_frame later
     \<and> set (seen earlier) \<inter> set (seen later) = {}
     \<and> Max (set (seen later)) \<le> Max (set (seen earlier))
     \<and> distance (pos later) (pos earlier) \<le> fraction * distance (pos later) centre"

definition merge_one ::
  "hole list \<Rightarrow> detection \<Rightarrow> real \<Rightarrow> nat list \<times> (hole \<times> hole) list \<Rightarrow> hole
    \<Rightarrow> nat list \<times> (hole \<times> hole) list" where
  "merge_one holes centre fraction = (\<lambda>(alive, merged) later.
     if hid later \<notin> set alive then (alive, merged)
     else case find (displaced_sighting centre fraction later)
                 (sort_key first_frame (filter (\<lambda>h. hid h \<in> set alive) holes)) of
            None \<Rightarrow> (alive, merged)
          | Some earlier \<Rightarrow> (remove1 (hid later) alive, merged @ [(earlier, later)]))"

definition merge_displaced_tracks ::
  "hole list \<Rightarrow> (real \<times> real) list list option \<Rightarrow> real \<Rightarrow> hole list \<times> (hole \<times> hole) list" where
  "merge_displaced_tracks holes reference fraction =
     (case reference of
        None \<Rightarrow> (holes, [])
      | Some [] \<Rightarrow> (holes, [])
      | Some (t # _) \<Rightarrow>
          if holes = [] then (holes, [])
          else let (alive, merged) =
                 foldl (merge_one holes (centre_of t) fraction) (map hid holes, [])
                   (sort_key (\<lambda>h. - int (first_frame h)) holes)
               in (filter (\<lambda>h. hid h \<in> set alive) holes, merged))"

text \<open>What the merge maintains: the holes are split into those alive and those absorbed.\<close>

definition merge_inv ::
  "hole list \<Rightarrow> detection \<Rightarrow> real \<Rightarrow> nat list \<times> (hole \<times> hole) list \<Rightarrow> bool" where
  "merge_inv holes centre fraction = (\<lambda>(alive, merged).
     distinct alive \<and> distinct (map (hid \<circ> snd) merged)
     \<and> set alive \<inter> (hid \<circ> snd) ` set merged = {}
     \<and> set alive \<union> (hid \<circ> snd) ` set merged = hid ` set holes
     \<and> (\<forall>(e, l)\<in>set merged. e \<in> set holes \<and> l \<in> set holes
           \<and> displaced_sighting centre fraction l e))"

lemma merge_inv_one:
  assumes inv: "merge_inv holes centre fraction s" and later: "later \<in> set holes"
  shows "merge_inv holes centre fraction (merge_one holes centre fraction s later)"
proof -
  obtain alive merged where s: "s = (alive, merged)" by (cases s)
  let ?cands = "sort_key first_frame (filter (\<lambda>h. hid h \<in> set alive) holes)"
  show ?thesis
  proof (cases "hid later \<in> set alive \<and> find (displaced_sighting centre fraction later) ?cands \<noteq> None")
    case True
    then obtain e where e: "find (displaced_sighting centre fraction later) ?cands = Some e" by auto
    then have "e \<in> set holes" "displaced_sighting centre fraction later e"
      by (auto dest: find_SomeD)
    then show ?thesis
      using inv True e later unfolding s merge_one_def merge_inv_def
      by (auto simp: case_prod_unfold)
  next
    case False
    then show ?thesis
      using inv unfolding s merge_one_def by (auto split: option.split)
  qed
qed

lemma merge_inv_fold:
  assumes "merge_inv holes centre fraction s" and "set ls \<subseteq> set holes"
  shows "merge_inv holes centre fraction (foldl (merge_one holes centre fraction) s ls)"
  using assms by (induction ls arbitrary: s) (simp_all add: merge_inv_one del: split_paired_All)

text \<open>
  Merging displaced sightings accounts for every Bullet Hole: each is kept or absorbed, never
  both, each at most once, and an absorbed one was folded into an earlier hole it was never seen
  in the same frame with, whose lifetime it ends within, and from which it lies no further than
  the given fraction of its own distance from the first Target's centre.
\<close>

theorem merge_accounts_for_every_hole:
  assumes ids: "distinct (map hid holes)"
    and merge: "merge_displaced_tracks holes (Some (t # ts)) fraction = (kept, merged)"
  shows "hid ` set kept \<inter> (hid \<circ> snd) ` set merged = {}
    \<and> hid ` set kept \<union> (hid \<circ> snd) ` set merged = hid ` set holes
    \<and> distinct (map (hid \<circ> snd) merged)
    \<and> (\<forall>(e, l)\<in>set merged. first_frame e < first_frame l
          \<and> set (seen e) \<inter> set (seen l) = {}
          \<and> Max (set (seen l)) \<le> Max (set (seen e))
          \<and> distance (pos l) (pos e) \<le> fraction * distance (pos l) (centre_of t))"
proof (cases "holes = []")
  case True
  then show ?thesis using merge by (auto simp: merge_displaced_tracks_def)
next
  case False
  obtain alive merged' where run: "foldl (merge_one holes (centre_of t) fraction) (map hid holes, [])
      (sort_key (\<lambda>h. - int (first_frame h)) holes) = (alive, merged')" (is "?f = _")
    by (cases ?f)
  have "merge_inv holes (centre_of t) fraction (alive, merged')"
    using merge_inv_fold [of holes "centre_of t" fraction "(map hid holes, [])"
        "sort_key (\<lambda>h. - int (first_frame h)) holes"] ids
    unfolding run by (auto simp: merge_inv_def)
  moreover have "kept = filter (\<lambda>h. hid h \<in> set alive) holes" and "merged = merged'"
    using merge False by (simp_all add: merge_displaced_tracks_def run)
  ultimately show ?thesis
    by (auto simp: merge_inv_def displaced_sighting_def)
qed

definition sample_hole :: "nat \<Rightarrow> detection \<Rightarrow> nat list \<Rightarrow> hole" where
  "sample_hole i p frames =
     \<lparr>hid = i, pos = p, box = p, first_frame = hd frames, seen = frames, persistence = 1,
      judged_frame = None, corroborated = True, target = None, mm = None\<rparr>"

theorem merge_accounts_for_every_hole_witness:
  "hid ` set (fst (merge_displaced_tracks
       [sample_hole 0 [100, 0] [1, 2, 9], sample_hole 1 [110, 0] [4, 5]]
       (Some [[(0, 0)]]) MAX_DISPLACEMENT_FRACTION))
     \<inter> (hid \<circ> snd) ` set (snd (merge_displaced_tracks
       [sample_hole 0 [100, 0] [1, 2, 9], sample_hole 1 [110, 0] [4, 5]]
       (Some [[(0, 0)]]) MAX_DISPLACEMENT_FRACTION)) = {}"
  using merge_accounts_for_every_hole
    [of "[sample_hole 0 [100, 0] [1, 2, 9], sample_hole 1 [110, 0] [4, 5]]" "[(0, 0)]" "[]"
        MAX_DISPLACEMENT_FRACTION, OF _ surjective_pairing]
  by (simp add: sample_hole_def)

end
