(* ===== verification/Persistence.thy ===== *)
theory Persistence
  imports Tracks
begin

text \<open>
  Persistence (\<open>ImageRecognitionService/detection/new_bullet_holes.py\<close>, \<open>_fold\<close>, \<open>_judge\<close>,
  \<open>_count_in\<close>, \<open>_looked_at\<close> and the class \<open>Persistence\<close>): each Look's detections are folded into
  candidates, and a candidate persists when enough of the frames of its window saw it.

  A candidate is the element of \<open>candidates\<close> at its index: candidates are only ever appended, so
  the index is its identity (Python's \<open>id\<close>), which \<open>open_ids\<close>, \<open>closed_ids\<close> and the \<open>hid\<close> of the
  holes in \<open>persisted\<close> refer to. \<open>bisect_left\<close> is the standard library's on a sorted list.

  The stream's reading thread extends \<open>unseen\<close> while a Look is being processed, so \<open>add_with_gap\<close>
  takes what that thread reported between the two judgements of \<open>add\<close>; the step relation lets it
  report at any other moment too.

  This theory holds the operations, the verdict read as a property of sets of frames, and the
  invariant; \<open>Persistence_Runs\<close> proves that the operations keep it and what follows.
\<close>

section \<open>Counting frames\<close>

definition bisect_left :: "nat list \<Rightarrow> nat \<Rightarrow> nat" where
  "bisect_left xs v = length (takeWhile (\<lambda>x. x < v) xs)"

definition count_in :: "nat list \<Rightarrow> nat \<Rightarrow> nat \<Rightarrow> nat" where
  "count_in sorted_indices lo hi = bisect_left sorted_indices hi - bisect_left sorted_indices lo"

definition looked_at_frame :: "nat \<Rightarrow> nat \<Rightarrow> nat \<Rightarrow> bool" where
  "looked_at_frame index stride baseline_frames \<longleftrightarrow>
     index < baseline_frames \<or> index mod stride = 0"

text \<open>\<open>sorted(set(sightings))\<close>.\<close>

definition sorted_set :: "nat list \<Rightarrow> nat list" where
  "sorted_set xs = remdups (sort xs)"

lemma set_sorted_set [simp]: "set (sorted_set xs) = set xs"
  by (simp add: sorted_set_def)

lemma distinct_sorted_set [simp]: "distinct (sorted_set xs)"
  by (simp add: sorted_set_def)

lemma bisect_left_card:
  "sorted_wrt (<) xs \<Longrightarrow> bisect_left xs v = card {x \<in> set xs. x < v}"
proof (induction xs)
  case (Cons x xs)
  show ?case
  proof (cases "x < v")
    case True
    then have "{y \<in> set (x # xs). y < v} = insert x {y \<in> set xs. y < v}" by auto
    then show ?thesis using Cons True by (auto simp: bisect_left_def)
  next
    case False
    then have "{y \<in> set (x # xs). y < v} = {}" using Cons.prems by auto
    then show ?thesis using False by (simp add: bisect_left_def)
  qed
qed (simp add: bisect_left_def)

lemma count_in_card:
  assumes "sorted_wrt (<) xs"
  shows "count_in xs lo hi = card (set xs \<inter> {lo..<hi})"
proof (cases "lo \<le> hi")
  case True
  have "{x \<in> set xs. x < hi} = {x \<in> set xs. x < lo} \<union> (set xs \<inter> {lo..<hi})"
    using True by auto
  moreover have "card ({x \<in> set xs. x < lo} \<union> (set xs \<inter> {lo..<hi}))
      = card {x \<in> set xs. x < lo} + card (set xs \<inter> {lo..<hi})"
    by (rule card_Un_disjoint) auto
  ultimately have "card {x \<in> set xs. x < hi} = card {x \<in> set xs. x < lo} + card (set xs \<inter> {lo..<hi})"
    by (rule trans [OF arg_cong])
  then show ?thesis
    using assms by (simp add: count_in_def bisect_left_card)
next
  case False
  then have "{x \<in> set xs. x < hi} \<subseteq> {x \<in> set xs. x < lo}" by auto
  then have "card {x \<in> set xs. x < hi} \<le> card {x \<in> set xs. x < lo}"
    by (intro card_mono) auto
  with False show ?thesis
    using assms by (simp add: count_in_def bisect_left_card)
qed

text \<open>A sorted list without its elements below a bound counts the same above the bound.\<close>

lemma sorted_dropWhile_less:
  assumes "sorted_wrt (<) (xs::nat list)"
  shows "set (dropWhile (\<lambda>x. x < m) xs) = {x \<in> set xs. m \<le> x}"
  using assms by (induction xs) auto

lemma drop_bisect_left: "drop (bisect_left xs m) xs = dropWhile (\<lambda>x. x < m) xs"
  by (simp add: bisect_left_def dropWhile_eq_drop)

lemma sorted_dropWhile: "sorted_wrt (<) xs \<Longrightarrow> sorted_wrt (<) (dropWhile P xs)"
  by (induction xs) auto

lemma count_in_slice:
  assumes "sorted_wrt (<) xs" "m \<le> lo"
  shows "count_in (drop (bisect_left xs m) xs) lo hi = count_in xs lo hi"
proof -
  have "set (dropWhile (\<lambda>x. x < m) xs) \<inter> {lo..<hi} = set xs \<inter> {lo..<hi}"
    using assms by (auto simp: sorted_dropWhile_less)
  then show ?thesis
    using assms(1) by (simp add: drop_bisect_left count_in_card sorted_dropWhile)
qed

section \<open>Candidates\<close>

record candidate =
  cpos :: detection
  sightings :: "nat list"
  first_idx :: nat

definition sighted :: "nat \<Rightarrow> detection \<Rightarrow> candidate \<Rightarrow> candidate" where
  "sighted idx p c =
     (let n = real (length (sightings c))
      in c\<lparr>cpos := map2 (\<lambda>x y. (x * n + y) / (n + 1)) (cpos c) p,
           sightings := sightings c @ [idx]\<rparr>)"

definition matching ::
  "candidate list \<Rightarrow> nat set \<Rightarrow> real \<Rightarrow> detection \<Rightarrow> nat option" where
  "matching candidates dead match_px p =
     find (\<lambda>k. k \<notin> dead \<and> same_bullet_hole (cpos (candidates ! k)) p match_px)
       [0..<length candidates]"

definition fold_one ::
  "nat \<Rightarrow> real \<Rightarrow> bool \<Rightarrow> nat set \<Rightarrow> candidate list \<Rightarrow> detection \<Rightarrow> candidate list" where
  "fold_one idx match_px opening dead candidates p =
     (case matching candidates dead match_px p of
        None \<Rightarrow> if opening then candidates @ [\<lparr>cpos = p, sightings = [idx], first_idx = idx\<rparr>]
                else candidates
      | Some k \<Rightarrow> candidates[k := sighted idx p (candidates ! k)])"

definition fold_look ::
  "candidate list \<Rightarrow> nat \<Rightarrow> detection list \<Rightarrow> real \<Rightarrow> bool \<Rightarrow> nat set \<Rightarrow> candidate list" where
  "fold_look candidates idx pts match_px opening dead =
     foldl (fold_one idx match_px opening dead) candidates pts"

definition judge ::
  "nat \<Rightarrow> candidate \<Rightarrow> nat list \<Rightarrow> nat list \<Rightarrow> real \<Rightarrow> nat \<Rightarrow> nat list \<Rightarrow> int \<Rightarrow> hole option" where
  "judge k c looked_at lost persist window unseen remaining =
     (let first = first_idx c;
          span = int (count_in looked_at first (first + window));
          tried = span + int (count_in lost first (first + window))
                  + int (count_in unseen first (first + window))
      in if span \<le> 0 \<or> real_of_int span < persist * real_of_int (tried + remaining) then None
         else let seen = sorted_set (sightings c);
                  hits = length (filter (\<lambda>i. first \<le> i \<and> i < first + window) seen)
              in if real hits / real_of_int (span + remaining) < persist then None
                 else Some \<lparr>hid = k, pos = take 2 (cpos c), box = cpos c, first_frame = first,
                           seen = seen, persistence = real hits / real_of_int span,
                           judged_frame = None, corroborated = False, target = None,
                           mm = None\<rparr>)"

section \<open>The class Persistence\<close>

record persist_config =
  match_px :: real
  persist :: real
  window :: nat
  stride :: nat
  baseline_frames :: nat

record persist_state =
  looked_at :: "nat list"
  lost :: "nat list"
  unseen :: "nat list"
  candidates :: "candidate list"
  open_ids :: "nat list"
  persisted :: "hole list"
  closed_ids :: "nat set"

definition new_persistence :: "nat list \<Rightarrow> persist_state" where
  "new_persistence unseen0 =
     \<lparr>looked_at = [], lost = [], unseen = unseen0, candidates = [], open_ids = [],
      persisted = [], closed_ids = {}\<rparr>"

definition due :: "persist_config \<Rightarrow> nat \<Rightarrow> bool" where
  "due cfg i = looked_at_frame i (stride cfg) (baseline_frames cfg)"

definition window_end :: "persist_config \<Rightarrow> persist_state \<Rightarrow> nat \<Rightarrow> nat" where
  "window_end cfg s k = first_idx (candidates s ! k) + window cfg"

text \<open>The verdict on the open candidate \<open>k\<close>, with the due Looks of its window still to come.\<close>

definition verdict :: "persist_config \<Rightarrow> persist_state \<Rightarrow> nat \<Rightarrow> nat list \<Rightarrow> nat \<Rightarrow> hole option" where
  "verdict cfg s processed unseen' k =
     (let remaining = int (length (filter (due cfg) [processed..<window_end cfg s k]))
                      - int (count_in unseen' processed (window_end cfg s k))
      in judge k (candidates s ! k) (looked_at s) (lost s) (persist cfg) (window cfg) unseen'
           remaining)"

definition judge_due ::
  "persist_config \<Rightarrow> persist_state \<Rightarrow> nat \<Rightarrow> nat option \<Rightarrow> persist_state \<times> hole list" where
  "judge_due cfg s processed look =
     (let unseen' = (case open_ids s of
                       [] \<Rightarrow> unseen s
                     | k # _ \<Rightarrow> drop (bisect_left (unseen s) (first_idx (candidates s ! k))) (unseen s));
          judged = (case look of None \<Rightarrow> processed - 1 | Some i \<Rightarrow> i);
          new = List.map_filter (\<lambda>k. map_option (\<lambda>h. h\<lparr>judged_frame := Some judged\<rparr>)
                                   (verdict cfg s processed unseen' k)) (open_ids s);
          undecided = filter (\<lambda>k. verdict cfg s processed unseen' k = None) (open_ids s)
      in (s\<lparr>open_ids := filter (\<lambda>k. window_end cfg s k > processed) undecided,
            closed_ids := closed_ids s
              \<union> set (filter (\<lambda>k. \<not> window_end cfg s k > processed) undecided),
            persisted := persisted s @ new\<rparr>,
          new))"

definition take_look ::
  "persist_config \<Rightarrow> persist_state \<Rightarrow> nat \<Rightarrow> detection list option \<Rightarrow> bool \<Rightarrow> persist_state" where
  "take_look cfg s index pts opening =
     (case pts of
        None \<Rightarrow> s\<lparr>lost := lost s @ [index]\<rparr>
      | Some ps \<Rightarrow>
          let made = length (candidates s);
              cs = fold_look (candidates s) index ps (match_px cfg) opening (closed_ids s)
          in s\<lparr>looked_at := looked_at s @ [index], candidates := cs,
               open_ids := open_ids s @ [made..<length cs]\<rparr>)"

definition add_with_gap ::
  "persist_config \<Rightarrow> persist_state \<Rightarrow> nat \<Rightarrow> detection list option \<Rightarrow> bool \<Rightarrow> nat list
    \<Rightarrow> persist_state \<times> hole list" where
  "add_with_gap cfg s index pts opening gap =
     (let (s1, persisted1) = judge_due cfg s index (Some index);
          s2 = take_look cfg (s1\<lparr>unseen := unseen s1 @ gap\<rparr>) index pts opening;
          (s3, persisted2) = judge_due cfg s2 (index + 1) None
      in (s3, persisted1 @ persisted2))"

text \<open>\<open>add\<close> is \<open>add_with_gap\<close> with nothing reported meanwhile, as on a Recording.\<close>

definition add ::
  "persist_config \<Rightarrow> persist_state \<Rightarrow> nat \<Rightarrow> detection list option \<Rightarrow> bool \<Rightarrow> persist_state \<times> hole list"
  where "add cfg s index pts opening = add_with_gap cfg s index pts opening []"

definition unjudged :: "persist_state \<Rightarrow> nat" where
  "unjudged s = length (open_ids s)"

definition position :: "persist_state \<Rightarrow> hole \<Rightarrow> detection" where
  "position s h = cpos (candidates s ! hid h)"

datatype assertion_error = AssertionError string

definition refresh :: "persist_state \<Rightarrow> hole \<Rightarrow> hole" where
  "refresh s h =
     (let c = candidates s ! hid h
      in h\<lparr>pos := take 2 (cpos c), box := cpos c, seen := sorted_set (sightings c)\<rparr>)"

text \<open>\<open>end\<close>'s loop body: the refreshed hole, and whether it is among those done.\<close>

definition settle ::
  "persist_config \<Rightarrow> persist_state \<Rightarrow> nat \<Rightarrow> bool \<Rightarrow> hole \<Rightarrow> assertion_error + (hole \<times> bool)" where
  "settle cfg s processed live h0 =
     (let h = refresh s h0
      in if window_end cfg s (hid h) \<le> processed
         then case judge (hid h) (candidates s ! hid h) (looked_at s) (lost s) (persist cfg)
                     (window cfg) (unseen s) 0 of
                None \<Rightarrow> Inl (AssertionError ''an early verdict the window's end reversed'')
              | Some final \<Rightarrow> Inr (h\<lparr>persistence := persistence final\<rparr>, True)
         else Inr (h, live))"

fun settle_all ::
  "persist_config \<Rightarrow> persist_state \<Rightarrow> nat \<Rightarrow> bool \<Rightarrow> hole list \<Rightarrow> assertion_error + (hole \<times> bool) list"
  where
    "settle_all cfg s processed live [] = Inr []"
  | "settle_all cfg s processed live (h # hs) =
       (case settle cfg s processed live h of
          Inl e \<Rightarrow> Inl e
        | Inr r \<Rightarrow> (case settle_all cfg s processed live hs of Inl e \<Rightarrow> Inl e | Inr rs \<Rightarrow> Inr (r # rs)))"

definition end_run ::
  "persist_config \<Rightarrow> persist_state \<Rightarrow> nat \<Rightarrow> bool \<Rightarrow> assertion_error + (persist_state \<times> hole list)" where
  "end_run cfg s processed live =
     (let s1 = fst (judge_due cfg s processed None)
      in case settle_all cfg s1 processed live (persisted s1) of
           Inl e \<Rightarrow> Inl e
         | Inr rs \<Rightarrow> Inr (s1\<lparr>persisted := map fst rs\<rparr>,
                          sort_key first_frame (map fst (filter snd rs))))"

section \<open>The verdict as a property of sets of frames\<close>

text \<open>
  What the frames recorded so far satisfy when \<open>p\<close> frames have passed: each list is sorted, no
  frame is in two of them, all are due, and only \<open>unseen\<close> may run ahead of \<open>p\<close>.
\<close>

definition frames_ok :: "persist_config \<Rightarrow> nat \<Rightarrow> persist_state \<Rightarrow> bool" where
  "frames_ok cfg p s \<longleftrightarrow>
     sorted_wrt (<) (looked_at s) \<and> sorted_wrt (<) (lost s) \<and> sorted_wrt (<) (unseen s)
     \<and> set (looked_at s) \<inter> set (lost s) = {} \<and> set (looked_at s) \<inter> set (unseen s) = {}
     \<and> set (lost s) \<inter> set (unseen s) = {}
     \<and> (\<forall>i\<in>set (looked_at s) \<union> set (lost s). i < p)
     \<and> (\<forall>i\<in>set (looked_at s) \<union> set (lost s) \<union> set (unseen s). due cfg i)"

definition frames_of :: "persist_config \<Rightarrow> persist_state \<Rightarrow> nat \<Rightarrow> nat set" where
  "frames_of cfg s k = {first_idx (candidates s ! k)..<window_end cfg s k}"

definition coming :: "persist_config \<Rightarrow> nat \<Rightarrow> persist_state \<Rightarrow> nat set" where
  "coming cfg p s = {i. p \<le> i \<and> due cfg i \<and> i \<notin> set (unseen s)}"

definition tried_frames :: "persist_config \<Rightarrow> nat \<Rightarrow> persist_state \<Rightarrow> nat set" where
  "tried_frames cfg p s = set (looked_at s) \<union> set (lost s) \<union> set (unseen s) \<union> coming cfg p s"

definition base_frames :: "persist_config \<Rightarrow> nat \<Rightarrow> persist_state \<Rightarrow> nat set" where
  "base_frames cfg p s = set (looked_at s) \<union> coming cfg p s"

definition looked_in :: "persist_config \<Rightarrow> persist_state \<Rightarrow> nat \<Rightarrow> nat" where
  "looked_in cfg s k = card (set (looked_at s) \<inter> frames_of cfg s k)"

definition hits_in :: "persist_config \<Rightarrow> persist_state \<Rightarrow> nat \<Rightarrow> nat" where
  "hits_in cfg s k = card (set (sightings (candidates s ! k)) \<inter> frames_of cfg s k)"

definition stands :: "persist_config \<Rightarrow> nat \<Rightarrow> persist_state \<Rightarrow> nat \<Rightarrow> bool" where
  "stands cfg p s k \<longleftrightarrow>
     0 < looked_in cfg s k
     \<and> persist cfg * real (card (tried_frames cfg p s \<inter> frames_of cfg s k)) \<le> real (looked_in cfg s k)
     \<and> persist cfg * real (card (base_frames cfg p s \<inter> frames_of cfg s k)) \<le> real (hits_in cfg s k)"

lemma finite_frames_of [simp]: "finite (frames_of cfg s k)"
  by (simp add: frames_of_def)

lemma frames_okD:
  assumes "frames_ok cfg p s"
  shows "sorted_wrt (<) (looked_at s)" "sorted_wrt (<) (lost s)" "sorted_wrt (<) (unseen s)"
    and "set (looked_at s) \<inter> set (lost s) = {}" "set (looked_at s) \<inter> set (unseen s) = {}"
      "set (lost s) \<inter> set (unseen s) = {}"
    and "i \<in> set (looked_at s) \<Longrightarrow> i < p" "i \<in> set (lost s) \<Longrightarrow> i < p"
    and "i \<in> set (looked_at s) \<Longrightarrow> due cfg i" "i \<in> set (lost s) \<Longrightarrow> due cfg i"
      "i \<in> set (unseen s) \<Longrightarrow> due cfg i"
  using assms unfolding frames_ok_def by auto

lemma frames_ok_later: "frames_ok cfg p s \<Longrightarrow> p \<le> q \<Longrightarrow> frames_ok cfg q s"
  unfolding frames_ok_def by (meson order_less_le_trans)

text \<open>The frames still to come, counted by the code.\<close>

lemma remaining_card:
  assumes ok: "frames_ok cfg p s" and first: "first_idx (candidates s ! k) \<le> p"
  shows "int (length (filter (due cfg) [p..<window_end cfg s k]))
           - int (count_in (unseen s) p (window_end cfg s k))
         = int (card (coming cfg p s \<inter> frames_of cfg s k))"
proof -
  let ?w = "window_end cfg s k"
  let ?due = "set (filter (due cfg) [p..<?w])" and ?un = "set (unseen s) \<inter> {p..<?w}"
  have "length (filter (due cfg) [p..<?w]) = card ?due"
    by (subst distinct_card) auto
  moreover have "?un \<subseteq> ?due"
    using frames_okD(11) [OF ok] by auto
  moreover have "coming cfg p s \<inter> frames_of cfg s k = ?due - ?un"
    using first by (auto simp: coming_def frames_of_def)
  ultimately show ?thesis
    using card_Diff_subset [of ?un ?due] card_mono [of ?due ?un]
    by (simp add: count_in_card [OF frames_okD(3) [OF ok]] of_nat_diff)
qed

lemma tried_card:
  assumes ok: "frames_ok cfg p s"
  shows "card (tried_frames cfg p s \<inter> frames_of cfg s k)
         = looked_in cfg s k + card (set (lost s) \<inter> frames_of cfg s k)
           + card (set (unseen s) \<inter> frames_of cfg s k) + card (coming cfg p s \<inter> frames_of cfg s k)"
proof -
  note d = frames_okD [OF ok]
  let ?W = "frames_of cfg s k"
  have "tried_frames cfg p s \<inter> ?W
      = ((set (looked_at s) \<inter> ?W \<union> set (lost s) \<inter> ?W) \<union> set (unseen s) \<inter> ?W) \<union> coming cfg p s \<inter> ?W"
    by (auto simp: tried_frames_def)
  moreover have "(set (looked_at s) \<inter> ?W) \<inter> (set (lost s) \<inter> ?W) = {}"
    "(set (looked_at s) \<inter> ?W \<union> set (lost s) \<inter> ?W) \<inter> (set (unseen s) \<inter> ?W) = {}"
    using d(4,5,6) by auto
  moreover have "(set (looked_at s) \<inter> ?W \<union> set (lost s) \<inter> ?W \<union> set (unseen s) \<inter> ?W)
      \<inter> (coming cfg p s \<inter> ?W) = {}"
    using d(7,8) by (fastforce simp: coming_def)
  ultimately show ?thesis
    by (simp add: card_Un_disjoint looked_in_def)
qed

lemma base_card:
  assumes ok: "frames_ok cfg p s"
  shows "card (base_frames cfg p s \<inter> frames_of cfg s k)
         = looked_in cfg s k + card (coming cfg p s \<inter> frames_of cfg s k)"
proof -
  let ?W = "frames_of cfg s k"
  have "base_frames cfg p s \<inter> ?W = set (looked_at s) \<inter> ?W \<union> coming cfg p s \<inter> ?W"
    by (auto simp: base_frames_def)
  moreover have "(set (looked_at s) \<inter> ?W) \<inter> (coming cfg p s \<inter> ?W) = {}"
    using frames_okD(7) [OF ok] by (fastforce simp: coming_def)
  ultimately show ?thesis
    by (simp add: card_Un_disjoint looked_in_def)
qed

lemma hits_length:
  "length (filter (\<lambda>i. lo \<le> i \<and> i < hi) (sorted_set xs)) = card (set xs \<inter> {lo..<hi})"
proof -
  have "length (filter (\<lambda>i. lo \<le> i \<and> i < hi) (sorted_set xs))
      = card (set (filter (\<lambda>i. lo \<le> i \<and> i < hi) (sorted_set xs)))"
    by (subst distinct_card) auto
  also have "set (filter (\<lambda>i. lo \<le> i \<and> i < hi) (sorted_set xs)) = set xs \<inter> {lo..<hi}"
    by auto
  finally show ?thesis .
qed

lemma judge_Some_iff:
  assumes "sorted_wrt (<) ls" "sorted_wrt (<) los" "sorted_wrt (<) us"
    and "0 \<le> remaining"
  shows "judge k c ls los ps w us remaining \<noteq> None \<longleftrightarrow>
     (let W = {first_idx c..<first_idx c + w}; span = card (set ls \<inter> W)
      in 0 < span
         \<and> ps * (real span + real (card (set los \<inter> W)) + real (card (set us \<inter> W))
                 + real_of_int remaining) \<le> real span
         \<and> ps * (real span + real_of_int remaining) \<le> real (card (set (sightings c) \<inter> W)))"
proof -
  let ?W = "{first_idx c..<first_idx c + w}"
  define a where "a = card (set ls \<inter> ?W)"
  define b where "b = card (set los \<inter> ?W)"
  define d where "d = card (set us \<inter> ?W)"
  define h where "h = card (set (sightings c) \<inter> ?W)"
  have counts: "count_in ls (first_idx c) (first_idx c + w) = a"
    "count_in los (first_idx c) (first_idx c + w) = b"
    "count_in us (first_idx c) (first_idx c + w) = d"
    by (simp_all add: count_in_card assms(1-3) a_def b_def d_def)
  have "real h / real_of_int (int a + remaining) < ps
      \<longleftrightarrow> \<not> ps * (real a + real_of_int remaining) \<le> real h" if "0 < a"
    using that assms(4) by (simp add: pos_divide_less_eq not_le)
  then show ?thesis
    unfolding judge_def Let_def hits_length counts a_def [symmetric] b_def [symmetric]
      d_def [symmetric] h_def [symmetric]
    by (cases "0 < a") (simp_all add: not_less)
qed

lemma judge_facts:
  assumes "judge k c ls los ps w us remaining = Some h"
  shows "hid h = k" "first_frame h = first_idx c" "seen h = sorted_set (sightings c)"
    and "pos h = take 2 (cpos c)" "box h = cpos c"
    and "persistence h = real (card (set (sightings c) \<inter> {first_idx c..<first_idx c + w}))
           / real (count_in ls (first_idx c) (first_idx c + w))"
  using assms by (auto simp: judge_def Let_def hits_length split: if_splits)

lemma verdict_stands:
  assumes ok: "frames_ok cfg p s" and first: "first_idx (candidates s ! k) \<le> p"
  shows "verdict cfg s p (unseen s) k \<noteq> None \<longleftrightarrow> stands cfg p s k"
proof -
  note d = frames_okD [OF ok]
  show ?thesis
    unfolding verdict_def Let_def remaining_card [OF ok first]
      stands_def tried_card [OF ok] base_card [OF ok]
    by (subst judge_Some_iff [OF d(1-3)])
      (simp_all add: looked_in_def hits_in_def frames_of_def window_end_def Let_def)
qed

text \<open>Only the unseen frames from the window's first on count, so the slice the code takes is
  enough.\<close>

lemma verdict_slice:
  assumes "sorted_wrt (<) us" "m \<le> first_idx (candidates s ! k)" "m \<le> p"
  shows "verdict cfg s p (drop (bisect_left us m) us) k = verdict cfg s p us k"
  using assms by (simp add: verdict_def judge_def count_in_slice Let_def)

text \<open>At the end of its window a candidate's verdict is \<open>_judge\<close>'s with nothing to come.\<close>

lemma stands_final:
  assumes ok: "frames_ok cfg p s" and passed: "window_end cfg s k \<le> p"
  shows "stands cfg p s k \<longleftrightarrow>
    judge (hid h) (candidates s ! k) (looked_at s) (lost s) (persist cfg) (window cfg) (unseen s) 0
      \<noteq> None"
proof -
  note d = frames_okD [OF ok]
  have "coming cfg p s \<inter> frames_of cfg s k = {}"
    using passed by (auto simp: coming_def frames_of_def)
  then show ?thesis
    unfolding stands_def tried_card [OF ok] base_card [OF ok]
    by (subst judge_Some_iff [OF d(1-3)])
      (simp_all add: looked_in_def hits_in_def frames_of_def window_end_def Let_def)
qed

text \<open>
  What makes an early verdict safe: as frames pass, the frames a window tried or may still try, and
  those it looked at or may still look at, can only become fewer, while its Looks and its hits can
  only become more.
\<close>

lemma stands_later:
  assumes st: "stands cfg p s k" and persist: "0 \<le> persist cfg"
    and first: "first_idx (candidates s' ! k) = first_idx (candidates s ! k)"
    and tried: "tried_frames cfg q s' \<subseteq> tried_frames cfg p s"
    and base: "base_frames cfg q s' \<subseteq> base_frames cfg p s"
    and looked: "set (looked_at s) \<subseteq> set (looked_at s')"
    and hits: "set (sightings (candidates s ! k)) \<subseteq> set (sightings (candidates s' ! k))"
  shows "stands cfg q s' k"
proof -
  let ?W = "frames_of cfg s k"
  have W: "frames_of cfg s' k = ?W"
    by (simp add: frames_of_def window_end_def first)
  have "card (tried_frames cfg q s' \<inter> ?W) \<le> card (tried_frames cfg p s \<inter> ?W)"
    "card (base_frames cfg q s' \<inter> ?W) \<le> card (base_frames cfg p s \<inter> ?W)"
    "looked_in cfg s k \<le> looked_in cfg s' k" "hits_in cfg s k \<le> hits_in cfg s' k"
    unfolding looked_in_def hits_in_def W using tried base looked hits
    by (auto intro!: card_mono)
  then show ?thesis
    using st persist unfolding stands_def W
    by (smt (verit) mult_left_mono of_nat_le_iff order_less_le_trans)
qed

section \<open>Folding a Look\<close>

text \<open>
  Folding one Look only adds sightings of that Look to candidates that are not dead, and opens
  candidates whose first sighting it is.
\<close>

definition grown :: "nat \<Rightarrow> nat set \<Rightarrow> candidate list \<Rightarrow> candidate list \<Rightarrow> bool" where
  "grown idx dead cs cs' \<longleftrightarrow>
     length cs \<le> length cs'
     \<and> (\<forall>k<length cs. first_idx (cs' ! k) = first_idx (cs ! k)
          \<and> set (sightings (cs ! k)) \<subseteq> set (sightings (cs' ! k))
          \<and> set (sightings (cs' ! k)) \<subseteq> insert idx (set (sightings (cs ! k)))
          \<and> (k \<in> dead \<longrightarrow> cs' ! k = cs ! k))
     \<and> (\<forall>k<length cs'. length cs \<le> k \<longrightarrow> first_idx (cs' ! k) = idx \<and> set (sightings (cs' ! k)) = {idx})"

lemma grown_refl: "grown idx dead cs cs"
  by (auto simp: grown_def)

lemma grown_trans: "grown idx dead cs cs' \<Longrightarrow> grown idx dead cs' cs'' \<Longrightarrow> grown idx dead cs cs''"
  unfolding grown_def by (smt (verit) insert_absorb2 insert_mono insertI1 order_less_le_trans
      not_le subset_antisym subset_trans singletonD insert_absorb singleton_insert_inj_eq)

lemma matching_SomeD:
  assumes "matching cs dead r p = Some k"
  shows "k < length cs" "k \<notin> dead"
  using assms find_SomeD [of _ "[0..<length cs]" k] by (auto simp: matching_def)

lemma grown_one: "grown idx dead cs (fold_one idx r opening dead cs p)"
proof (cases "matching cs dead r p")
  case None
  then show ?thesis
    by (auto simp: fold_one_def grown_def nth_append less_Suc_eq)
next
  case (Some k)
  then show ?thesis
    using matching_SomeD [OF Some]
    by (auto simp: fold_one_def grown_def sighted_def Let_def nth_list_update)
qed

lemma grown_look: "grown idx dead cs (fold_look cs idx pts r opening dead)"
  unfolding fold_look_def
proof (induction pts arbitrary: cs)
  case (Cons p pts)
  show ?case
    using grown_trans [OF grown_one Cons.IH] by simp
qed (simp add: grown_refl)

text \<open>A Look in a Run that is finishing opens nothing.\<close>

lemma fold_look_not_opening: "length (fold_look cs idx pts r False dead) = length cs"
  unfolding fold_look_def
  by (induction pts arbitrary: cs) (auto simp: fold_one_def split: option.splits)

section \<open>The invariant\<close>

definition candidates_ok :: "nat \<Rightarrow> persist_state \<Rightarrow> bool" where
  "candidates_ok p s \<longleftrightarrow>
     sorted (map first_idx (candidates s))
     \<and> (\<forall>c\<in>set (candidates s). first_idx c < p \<and> set (sightings c) \<subseteq> set (looked_at s))"

definition ids_ok :: "persist_state \<Rightarrow> bool" where
  "ids_ok s \<longleftrightarrow>
     sorted_wrt (<) (open_ids s) \<and> distinct (map hid (persisted s))
     \<and> set (open_ids s) \<union> hid ` set (persisted s) \<union> closed_ids s = {..<length (candidates s)}
     \<and> set (open_ids s) \<inter> hid ` set (persisted s) = {} \<and> set (open_ids s) \<inter> closed_ids s = {}
     \<and> hid ` set (persisted s) \<inter> closed_ids s = {}"

definition hole_of :: "persist_state \<Rightarrow> hole \<Rightarrow> bool" where
  "hole_of s h \<longleftrightarrow> first_frame h = first_idx (candidates s ! hid h)
     \<and> \<not> corroborated h \<and> target h = None \<and> mm h = None"

definition decided_ok :: "persist_config \<Rightarrow> nat \<Rightarrow> persist_state \<Rightarrow> bool" where
  "decided_ok cfg p s \<longleftrightarrow>
     (\<forall>h\<in>set (persisted s). stands cfg p s (hid h) \<and> hole_of s h)
     \<and> (\<forall>k\<in>closed_ids s. window_end cfg s k \<le> p \<and> \<not> stands cfg p s k)"

definition persist_inv :: "persist_config \<Rightarrow> nat \<Rightarrow> persist_state \<Rightarrow> bool" where
  "persist_inv cfg p s \<longleftrightarrow>
     frames_ok cfg p s \<and> candidates_ok p s \<and> ids_ok s \<and> decided_ok cfg p s"

definition open_ok :: "persist_config \<Rightarrow> nat \<Rightarrow> persist_state \<Rightarrow> bool" where
  "open_ok cfg p s \<longleftrightarrow> (\<forall>k\<in>set (open_ids s). p < window_end cfg s k)"

lemma ids_in_range:
  assumes "ids_ok s"
  shows "k \<in> set (open_ids s) \<Longrightarrow> k < length (candidates s)"
    and "h \<in> set (persisted s) \<Longrightarrow> hid h < length (candidates s)"
    and "k \<in> closed_ids s \<Longrightarrow> k < length (candidates s)"
  using assms unfolding ids_ok_def by blast+

text \<open>Once a window has passed, nothing that happens later changes its verdict.\<close>

lemma stands_frozen:
  assumes passed: "window_end cfg s k \<le> p" "p \<le> q"
    and same: "candidates s' ! k = candidates s ! k"
    and looked: "set (looked_at s') \<inter> {..<p} = set (looked_at s) \<inter> {..<p}"
    and lost: "set (lost s') \<inter> {..<p} = set (lost s) \<inter> {..<p}"
    and unseen: "set (unseen s') \<inter> {..<p} = set (unseen s) \<inter> {..<p}"
  shows "stands cfg q s' k \<longleftrightarrow> stands cfg p s k"
proof -
  let ?W = "frames_of cfg s k"
  have W: "frames_of cfg s' k = ?W"
    by (simp add: frames_of_def window_end_def same)
  have sub: "?W \<subseteq> {..<p}"
    using passed by (auto simp: frames_of_def)
  have cut: "A \<inter> ?W = B \<inter> ?W" if "A \<inter> {..<p} = B \<inter> {..<p}" for A B :: "nat set"
    using that sub by blast
  have "coming cfg q s' \<inter> ?W = {}" "coming cfg p s \<inter> ?W = {}"
    using sub passed(2) by (auto simp: coming_def)
  then have "tried_frames cfg q s' \<inter> ?W = tried_frames cfg p s \<inter> ?W"
    "base_frames cfg q s' \<inter> ?W = base_frames cfg p s \<inter> ?W"
    using cut [OF looked] cut [OF lost] cut [OF unseen]
    unfolding tried_frames_def base_frames_def by blast+
  then show ?thesis
    unfolding stands_def looked_in_def hits_in_def W same cut [OF looked] by simp
qed

text \<open>The invariant only depends on how many frames have passed through what is still to come.\<close>

lemma coming_later: "p \<le> q \<Longrightarrow> coming cfg q s \<subseteq> coming cfg p s"
  by (auto simp: coming_def)

lemma decided_mono:
  assumes dec: "decided_ok cfg p s" and persist: "0 \<le> persist cfg" and le: "p \<le> q"
    and ids: "ids_ok s" and persisted: "persisted s' = persisted s" "closed_ids s' = closed_ids s"
    and first: "\<And>k. k < length (candidates s) \<Longrightarrow> first_idx (candidates s' ! k) = first_idx (candidates s ! k)
        \<and> set (sightings (candidates s ! k)) \<subseteq> set (sightings (candidates s' ! k))"
    and dead: "\<And>k. k \<in> closed_ids s \<Longrightarrow> candidates s' ! k = candidates s ! k"
    and tried: "tried_frames cfg q s' \<subseteq> tried_frames cfg p s"
    and base: "base_frames cfg q s' \<subseteq> base_frames cfg p s"
    and grow: "set (looked_at s) \<subseteq> set (looked_at s')"
    and looked: "set (looked_at s') \<inter> {..<p} = set (looked_at s) \<inter> {..<p}"
    and lost: "set (lost s') \<inter> {..<p} = set (lost s) \<inter> {..<p}"
    and unseen: "set (unseen s') \<inter> {..<p} = set (unseen s) \<inter> {..<p}"
  shows "decided_ok cfg q s'"
proof -
  have "stands cfg q s' (hid h) \<and> hole_of s' h" if h: "h \<in> set (persisted s)" for h
  proof
    have k: "hid h < length (candidates s)" by (rule ids_in_range(2) [OF ids h])
    show "stands cfg q s' (hid h)"
      by (rule stands_later [OF _ persist])
        (use dec h first [OF k] tried base grow in \<open>auto simp: decided_ok_def\<close>)
    show "hole_of s' h"
      using dec h first [OF k] by (auto simp: decided_ok_def hole_of_def)
  qed
  moreover have "window_end cfg s' k \<le> q \<and> \<not> stands cfg q s' k" if k: "k \<in> closed_ids s" for k
  proof -
    have passed: "window_end cfg s k \<le> p" and no: "\<not> stands cfg p s k"
      using dec k by (auto simp: decided_ok_def)
    have "stands cfg q s' k \<longleftrightarrow> stands cfg p s k"
      by (rule stands_frozen [OF passed le dead [OF k] looked lost unseen])
    then show ?thesis
      using passed no le dead [OF k] by (simp add: window_end_def)
  qed
  ultimately show ?thesis
    by (simp add: decided_ok_def persisted)
qed

lemma persist_inv_later:
  assumes inv: "persist_inv cfg p s" and persist: "0 \<le> persist cfg" and le: "p \<le> q"
  shows "persist_inv cfg q s"
proof -
  have "decided_ok cfg q s"
    by (rule decided_mono [OF _ persist le, where s = s])
      (use inv coming_later [OF le, of cfg s] in
        \<open>auto simp: persist_inv_def tried_frames_def base_frames_def\<close>)
  moreover have "candidates_ok q s"
    using inv le unfolding persist_inv_def candidates_ok_def by (meson order_less_le_trans)
  ultimately show ?thesis
    using inv frames_ok_later [OF _ le] by (simp add: persist_inv_def)
qed

text \<open>Frames reported missing while nothing is judged.\<close>

definition reportable :: "persist_config \<Rightarrow> nat \<Rightarrow> persist_state \<Rightarrow> nat list \<Rightarrow> bool" where
  "reportable cfg p s gap \<longleftrightarrow> sorted_wrt (<) (unseen s @ gap) \<and> (\<forall>f\<in>set gap. p \<le> f \<and> due cfg f)"

lemma persist_inv_gap:
  assumes inv: "persist_inv cfg p s" and persist: "0 \<le> persist cfg" and gap: "reportable cfg p s gap"
  shows "persist_inv cfg p (s\<lparr>unseen := unseen s @ gap\<rparr>)" (is "persist_inv cfg p ?t")
proof -
  have "decided_ok cfg p ?t"
    by (rule decided_mono [OF _ persist order_refl, where s = s])
      (use inv gap in \<open>auto simp: persist_inv_def tried_frames_def base_frames_def coming_def
          reportable_def\<close>)
  moreover have "frames_ok cfg p ?t"
  proof -
    have ok: "frames_ok cfg p s" using inv by (simp add: persist_inv_def)
    have "f \<notin> set (looked_at s) \<and> f \<notin> set (lost s)" if "f \<in> set gap" for f
      using frames_okD(7,8) [OF ok, of f] gap that by (auto simp: reportable_def)
    then have "set (looked_at s) \<inter> set gap = {}" "set (lost s) \<inter> set gap = {}"
      by blast+
    then show ?thesis
      using ok gap by (simp add: frames_ok_def reportable_def Int_Un_distrib ball_Un)
  qed
  ultimately show ?thesis
    using inv by (simp add: persist_inv_def candidates_ok_def ids_ok_def)
qed

end
