(* ===== verification/Persistence_Runs.thy ===== *)
theory Persistence_Runs
  imports Persistence
begin

text \<open>
  The runs of the class \<open>Persistence\<close>: every operation keeps the invariant of \<open>Persistence\<close>, for
  Looks, Lost Looks and frames reported missing in any order. The theorems show that judging a
  candidate before its window has passed is safe: an early verdict is the one the window's end
  gives, so the assertion in \<open>end\<close> never fails, and a run's result is exactly the candidates that
  judging at the end of their windows accepts.
\<close>

section \<open>Judging and adding keep the invariant\<close>

lemma open_first_least:
  assumes inv: "persist_inv cfg p s" and ids: "open_ids s = k0 # ks" and k: "k \<in> set (open_ids s)"
  shows "first_idx (candidates s ! k0) \<le> first_idx (candidates s ! k)"
proof -
  have "sorted_wrt (<) (open_ids s)" "k < length (candidates s)" "sorted (map first_idx (candidates s))"
    using inv k ids_in_range(1) [of s k] by (auto simp: persist_inv_def ids_ok_def candidates_ok_def)
  moreover then have "k0 \<le> k"
    using ids k by auto
  ultimately show ?thesis
    using sorted_nth_mono [of "map first_idx (candidates s)" k0 k] by simp
qed

lemma first_passed:
  "persist_inv cfg p s \<Longrightarrow> k < length (candidates s) \<Longrightarrow> first_idx (candidates s ! k) < p"
  by (auto simp: persist_inv_def candidates_ok_def)

text \<open>The verdicts \<open>_judge_due\<close> takes, on the slice of \<open>unseen\<close> it takes.\<close>

lemma judge_due_verdict:
  assumes inv: "persist_inv cfg p s" and k: "k \<in> set (open_ids s)"
    and slice: "unseen' = (case open_ids s of [] \<Rightarrow> unseen s
        | k # _ \<Rightarrow> drop (bisect_left (unseen s) (first_idx (candidates s ! k))) (unseen s))"
  shows "verdict cfg s p unseen' k \<noteq> None \<longleftrightarrow> stands cfg p s k"
proof -
  have ids: "ids_ok s" and ok: "frames_ok cfg p s"
    using inv by (auto simp: persist_inv_def)
  have first: "first_idx (candidates s ! k) \<le> p"
    using first_passed [OF inv ids_in_range(1) [OF ids k]] by simp
  obtain k0 ks where open': "open_ids s = k0 # ks" using k by (cases "open_ids s") auto
  have least: "first_idx (candidates s ! k0) \<le> first_idx (candidates s ! k)"
    by (rule open_first_least [OF inv open' k])
  then have "verdict cfg s p unseen' k = verdict cfg s p (unseen s) k"
    using first by (simp add: slice open' verdict_slice frames_okD(3) [OF ok])
  then show ?thesis
    by (simp only: verdict_stands [OF ok first])
qed

lemma verdict_facts:
  "verdict cfg s p us k = Some h \<Longrightarrow> hid h = k \<and> first_frame h = first_idx (candidates s ! k)
     \<and> \<not> corroborated h \<and> target h = None \<and> mm h = None"
  by (auto simp: verdict_def judge_def Let_def split: if_splits)

lemma map_filter_verdicts:
  "(\<forall>k\<in>set ks. \<forall>h. f k = Some h \<longrightarrow> hid h = k) \<Longrightarrow>
     map hid (List.map_filter f ks) = filter (\<lambda>k. f k \<noteq> None) ks"
  by (induction ks) (auto simp: map_filter_simps split: option.split)

lemma judge_due_fields:
  assumes "judge_due cfg s p look = (t, new)"
  shows "candidates t = candidates s" "looked_at t = looked_at s" "lost t = lost s"
    "unseen t = unseen s" "persisted t = persisted s @ new"
  using assms by (auto simp: judge_due_def Let_def)

lemma same_frames_stands:
  "candidates t = candidates s \<Longrightarrow> looked_at t = looked_at s \<Longrightarrow> lost t = lost s \<Longrightarrow> unseen t = unseen s
    \<Longrightarrow> stands cfg p t k = stands cfg p s k"
  by (simp add: stands_def tried_frames_def base_frames_def coming_def looked_in_def hits_in_def
      frames_of_def window_end_def)

lemma judge_due_splits:
  assumes inv: "persist_inv cfg p s" and run: "judge_due cfg s p look = (t, new)"
  shows "map hid new = filter (stands cfg p s) (open_ids s)"
    and "open_ids t = filter (\<lambda>k. \<not> stands cfg p s k \<and> p < window_end cfg s k) (open_ids s)"
    and "closed_ids t = closed_ids s
           \<union> {k \<in> set (open_ids s). \<not> stands cfg p s k \<and> window_end cfg s k \<le> p}"
    and "\<forall>h\<in>set new. hole_of s h"
proof -
  define us where "us = (case open_ids s of [] \<Rightarrow> unseen s
        | k # _ \<Rightarrow> drop (bisect_left (unseen s) (first_idx (candidates s ! k))) (unseen s))"
  define judged where "judged = (case look of None \<Rightarrow> p - 1 | Some i \<Rightarrow> i)"
  let ?f = "\<lambda>k. map_option (\<lambda>h. h\<lparr>judged_frame := Some judged\<rparr>) (verdict cfg s p us k)"
  have st: "verdict cfg s p us k = None \<longleftrightarrow> \<not> stands cfg p s k" if "k \<in> set (open_ids s)" for k
    using judge_due_verdict [OF inv that us_def] by auto
  have t: "t = s\<lparr>open_ids := filter (\<lambda>k. window_end cfg s k > p)
                 (filter (\<lambda>k. verdict cfg s p us k = None) (open_ids s)),
            closed_ids := closed_ids s \<union> set (filter (\<lambda>k. \<not> window_end cfg s k > p)
                 (filter (\<lambda>k. verdict cfg s p us k = None) (open_ids s))),
            persisted := persisted s @ new\<rparr>"
    and new: "new = List.map_filter ?f (open_ids s)"
    using run unfolding judge_due_def us_def [symmetric] judged_def [symmetric] Let_def by auto
  show "map hid new = filter (stands cfg p s) (open_ids s)"
  proof -
    have "map hid new = filter (\<lambda>k. ?f k \<noteq> None) (open_ids s)"
      unfolding new by (rule map_filter_verdicts) (auto dest: verdict_facts)
    also have "\<dots> = filter (stands cfg p s) (open_ids s)"
      by (rule filter_cong [OF refl]) (simp only: map_option_is_None st not_not)
    finally show ?thesis .
  qed
  show "open_ids t = filter (\<lambda>k. \<not> stands cfg p s k \<and> p < window_end cfg s k) (open_ids s)"
    unfolding t by (auto simp: st intro!: filter_cong)
  show "closed_ids t = closed_ids s
           \<union> {k \<in> set (open_ids s). \<not> stands cfg p s k \<and> window_end cfg s k \<le> p}"
    unfolding t by (auto simp: st)
  show "\<forall>h\<in>set new. hole_of s h"
  proof
    fix h assume "h \<in> set new"
    then obtain k v where "verdict cfg s p us k = Some v" "h = v\<lparr>judged_frame := Some judged\<rparr>"
      unfolding new by (auto simp: List.map_filter_def)
    then show "hole_of s h"
      by (auto simp: hole_of_def dest!: verdict_facts)
  qed
qed

lemma judge_due_inv:
  assumes inv: "persist_inv cfg p s" and run: "judge_due cfg s p look = (t, new)"
  shows "persist_inv cfg p t" "open_ok cfg p t"
proof -
  note f = judge_due_fields [OF run] and sp = judge_due_splits [OF inv run]
  have ids: "ids_ok s" and dec: "decided_ok cfg p s"
    using inv by (auto simp: persist_inv_def)
  have st: "stands cfg p t k = stands cfg p s k" for k
    by (rule same_frames_stands [OF f(1-4)])
  have we: "window_end cfg t k = window_end cfg s k" for k
    by (simp add: window_end_def f(1))
  have hid: "hid ` set new = {k \<in> set (open_ids s). stands cfg p s k}"
    using arg_cong [OF sp(1), of set] by auto
  have "distinct (map hid new)"
    unfolding sp(1) using ids by (auto simp: ids_ok_def strict_sorted_iff)
  then have ids': "ids_ok t"
    using ids hid unfolding ids_ok_def sp(2,3) f(1,5)
    by (auto simp: sorted_wrt_filter image_Un)
  have "hole_of t h \<longleftrightarrow> hole_of s h" for h
    by (simp add: hole_of_def f(1))
  then have "decided_ok cfg p t"
    using dec hid sp(4) unfolding decided_ok_def st we f(5) sp(3) by auto
  then show "persist_inv cfg p t"
    using inv ids' by (simp add: persist_inv_def frames_ok_def candidates_ok_def f)
  show "open_ok cfg p t"
    by (simp add: open_ok_def we sp(2))
qed

text \<open>A due frame that was still to come and is now looked at or lost.\<close>

lemma decided_look:
  assumes inv: "persist_inv cfg i s" and persist: "0 \<le> persist cfg"
    and i: "due cfg i" "i \<notin> set (unseen s)"
    and fields: "persisted t = persisted s" "closed_ids t = closed_ids s" "unseen t = unseen s"
      "set (looked_at t) \<union> set (lost t) = insert i (set (looked_at s) \<union> set (lost s))"
      "set (looked_at s) \<subseteq> set (looked_at t)" "set (looked_at t) \<subseteq> insert i (set (looked_at s))"
      "set (lost s) \<subseteq> set (lost t)" "set (lost t) \<subseteq> insert i (set (lost s))"
    and grown: "grown i (closed_ids s) (candidates s) (candidates t)"
  shows "decided_ok cfg (Suc i) t"
proof -
  have "coming cfg (Suc i) t \<subseteq> coming cfg i s" and "i \<in> coming cfg i s"
    using i fields(3) by (auto simp: coming_def)
  then have sub: "tried_frames cfg (Suc i) t \<subseteq> tried_frames cfg i s"
    "base_frames cfg (Suc i) t \<subseteq> base_frames cfg i s"
    using fields(4,6) unfolding tried_frames_def base_frames_def fields(3) by auto
  have cut: "A \<inter> {..<i} = B \<inter> {..<i}" if "B \<subseteq> A" "A \<subseteq> insert i B" for A B
    using that by auto
  have dec: "decided_ok cfg i s" and ids: "ids_ok s" using inv by (simp_all add: persist_inv_def)
  have dead: "candidates t ! k = candidates s ! k" if "k \<in> closed_ids s" for k
    using grown ids_in_range(3) [OF ids that] that unfolding grown_def by blast
  have first: "first_idx (candidates t ! k) = first_idx (candidates s ! k)
        \<and> set (sightings (candidates s ! k)) \<subseteq> set (sightings (candidates t ! k))"
    if "k < length (candidates s)" for k
    using grown that unfolding grown_def by blast
  show ?thesis
    by (rule decided_mono [OF dec persist _ ids fields(1,2) first dead sub fields(5)
          cut [OF fields(5,6)] cut [OF fields(7,8)]]) (simp_all add: fields(3))
qed

lemma ids_ok_open_more:
  assumes ids: "ids_ok s" and le: "length (candidates s) \<le> length cs"
  shows "ids_ok (s\<lparr>looked_at := ls, candidates := cs,
           open_ids := open_ids s @ [length (candidates s)..<length cs]\<rparr>)"
proof -
  let ?n = "length (candidates s)" and ?m = "length cs"
  define A where "A = hid ` set (persisted s)"
  have all: "set (open_ids s) \<union> A \<union> closed_ids s = {..<?n}"
    and sorted: "sorted_wrt (<) (open_ids s)" "distinct (map hid (persisted s))"
    and dis: "set (open_ids s) \<inter> A = {}" "set (open_ids s) \<inter> closed_ids s = {}" "A \<inter> closed_ids s = {}"
    using ids by (auto simp: ids_ok_def A_def)
  have new: "{?n..<?m} \<inter> {..<?n} = {}" "{..<?n} \<union> {?n..<?m} = {..<?m}"
    using le by auto
  have "sorted_wrt (<) (open_ids s @ [?n..<?m])"
    using sorted(1) by (auto simp: sorted_wrt_append dest: ids_in_range(1) [OF ids])
  moreover have "set (open_ids s) \<union> {?n..<?m} \<union> A \<union> closed_ids s = {..<?m}"
    using all new(2) by blast
  moreover have "(set (open_ids s) \<union> {?n..<?m}) \<inter> A = {}"
    "(set (open_ids s) \<union> {?n..<?m}) \<inter> closed_ids s = {}"
    using all new(1) dis by blast+
  ultimately show ?thesis
    using sorted(2) dis(3) by (simp add: ids_ok_def A_def [symmetric])
qed

lemma take_look_inv:
  assumes inv: "persist_inv cfg i s" and persist: "0 \<le> persist cfg"
    and i: "due cfg i" "i \<notin> set (unseen s)"
  shows "persist_inv cfg (Suc i) (take_look cfg s i pts opening)"
proof (cases pts)
  case None
  have fr: "frames_ok cfg i s" and ids: "ids_ok s" using inv by (auto simp: persist_inv_def)
  have "i \<notin> set (looked_at s)" "i \<notin> set (lost s)" using frames_okD(7,8) [OF fr] by blast+
  then have "frames_ok cfg (Suc i) (s\<lparr>lost := lost s @ [i]\<rparr>)"
    using fr i unfolding frames_ok_def by (auto simp: sorted_wrt_append ball_Un intro: less_SucI)
  moreover have "decided_ok cfg (Suc i) (s\<lparr>lost := lost s @ [i]\<rparr>)"
    by (rule decided_look [OF inv persist i]) (auto simp: grown_refl)
  ultimately show ?thesis
    using inv None unfolding persist_inv_def candidates_ok_def
    by (auto simp: take_look_def ids_ok_def less_Suc_eq)
next
  case (Some ps)
  have fr: "frames_ok cfg i s" and ids: "ids_ok s" and co: "candidates_ok i s"
    using inv by (auto simp: persist_inv_def)
  have un: "i \<notin> set (looked_at s)" "i \<notin> set (lost s)" using frames_okD(7,8) [OF fr] by blast+
  define cs where "cs = fold_look (candidates s) i ps (match_px cfg) opening (closed_ids s)"
  have g: "grown i (closed_ids s) (candidates s) cs"
    unfolding cs_def by (rule grown_look)
  define t where "t = s\<lparr>looked_at := looked_at s @ [i], candidates := cs,
      open_ids := open_ids s @ [length (candidates s)..<length cs]\<rparr>"
  have t: "take_look cfg s i pts opening = t"
    by (simp add: take_look_def Some cs_def t_def Let_def)
  have "frames_ok cfg (Suc i) t"
    using fr i un unfolding frames_ok_def t_def by (auto simp: sorted_wrt_append ball_Un intro: less_SucI)
  moreover have "decided_ok cfg (Suc i) t"
    by (rule decided_look [OF inv persist i]) (use g in \<open>auto simp: t_def\<close>)
  moreover have "ids_ok t"
    unfolding t_def by (rule ids_ok_open_more [OF ids]) (use g in \<open>simp add: grown_def\<close>)
  moreover have "candidates_ok (Suc i) t"
  proof -
    have "first_idx (cs ! k) < Suc i \<and> set (sightings (cs ! k)) \<subseteq> insert i (set (looked_at s))"
      if "k < length cs" for k
    proof (cases "k < length (candidates s)")
      case True
      then have "candidates s ! k \<in> set (candidates s)" by simp
      then have "first_idx (candidates s ! k) < i" "set (sightings (candidates s ! k)) \<subseteq> set (looked_at s)"
        using co unfolding candidates_ok_def by blast+
      then show ?thesis
        using g True unfolding grown_def by (metis insert_mono less_SucI subset_trans)
    next
      case False
      then show ?thesis using g that unfolding grown_def by force
    qed
    moreover have "sorted (map first_idx cs)"
      unfolding sorted_iff_nth_mono_less length_map
    proof (intro allI impI)
      fix a b assume ab: "a < b" "b < length cs"
      consider "b < length (candidates s)" | "length (candidates s) \<le> b" by linarith
      then show "map first_idx cs ! a \<le> map first_idx cs ! b"
      proof cases
        case 1
        then show ?thesis
          using g ab co sorted_nth_mono [of "map first_idx (candidates s)" a b]
          by (auto simp: grown_def candidates_ok_def)
      next
        case 2
        then have "first_idx (cs ! b) = i" using g ab unfolding grown_def by auto
        moreover have "first_idx (cs ! a) < Suc i"
          using calculation ab \<open>\<And>k. k < length cs \<Longrightarrow> first_idx (cs ! k) < Suc i \<and> _ k\<close> by auto
        ultimately show ?thesis using ab by simp
      qed
    qed
    ultimately show ?thesis
      unfolding candidates_ok_def t_def by (simp add: all_set_conv_all_nth)
  qed
  ultimately show ?thesis
    unfolding t persist_inv_def by simp
qed

section \<open>Runs\<close>

text \<open>
  A run of the class as the loop and the stream's thread drive it: \<open>p\<close> frames have passed, and
  \<open>told\<close> lists the candidates \<open>add\<close> has returned, by identity. A Look is of a due frame that was not
  reported missing, and the thread reports due frames later than any Look taken, each once.
\<close>

type_synonym persist_run = "nat \<times> persist_state \<times> nat list"

inductive persist_step :: "persist_config \<Rightarrow> persist_run \<Rightarrow> persist_run \<Rightarrow> bool"
  for cfg where
  look_step: "p \<le> i \<Longrightarrow> due cfg i \<Longrightarrow> i \<notin> set (unseen s) \<Longrightarrow> reportable cfg (Suc i) s gap
    \<Longrightarrow> add_with_gap cfg s i pts opens gap = (t, new)
    \<Longrightarrow> persist_step cfg (p, s, told) (Suc i, t, told @ map hid new)"
| gap_step: "reportable cfg p s gap
    \<Longrightarrow> persist_step cfg (p, s, told) (p, s\<lparr>unseen := unseen s @ gap\<rparr>, told)"

inductive_cases persist_stepE: "persist_step cfg (p, s, told) r"

definition persist_start :: "persist_config \<Rightarrow> persist_run \<Rightarrow> bool" where
  "persist_start cfg = (\<lambda>(p, s, told). \<exists>us. s = new_persistence us \<and> sorted_wrt (<) us
     \<and> (\<forall>i\<in>set us. due cfg i) \<and> 0 \<le> persist cfg \<and> p = 0 \<and> told = [])"

definition run_inv :: "persist_config \<Rightarrow> persist_run \<Rightarrow> bool" where
  "run_inv cfg = (\<lambda>(p, s, told). 0 \<le> persist cfg \<and> persist_inv cfg p s \<and> told = map hid (persisted s))"

lemma add_with_gap_inv:
  assumes inv: "persist_inv cfg p s" and persist: "0 \<le> persist cfg" and le: "p \<le> i"
    and i: "due cfg i" "i \<notin> set (unseen s)" and gap: "reportable cfg (Suc i) s gap"
    and run: "add_with_gap cfg s i pts opening gap = (t, new)"
  shows "persist_inv cfg (Suc i) t" "open_ok cfg (Suc i) t"
    and "map hid (persisted t) = map hid (persisted s) @ map hid new"
    and "closed_ids s \<subseteq> closed_ids t"
    and "\<forall>k\<in>closed_ids s. candidates t ! k = candidates s ! k"
proof -
  obtain s1 n1 where j1: "judge_due cfg s i (Some i) = (s1, n1)" by fastforce
  let ?g = "s1\<lparr>unseen := unseen s1 @ gap\<rparr>"
  define s2 where "s2 = take_look cfg ?g i pts opening"
  obtain s3 n2 where j2: "judge_due cfg s2 (Suc i) None = (s3, n2)" by fastforce
  have t: "t = s3" "new = n1 @ n2"
    using run j1 j2 by (simp_all add: add_with_gap_def s2_def [symmetric])
  note f1 = judge_due_fields [OF j1] and f2 = judge_due_fields [OF j2]
  have inv0: "persist_inv cfg i s" by (rule persist_inv_later [OF inv persist le])
  have inv1: "persist_inv cfg i s1" by (rule judge_due_inv(1) [OF inv0 j1])
  have "reportable cfg i s1 gap" using gap by (auto simp: reportable_def f1)
  then have inv2: "persist_inv cfg i ?g" by (rule persist_inv_gap [OF inv1 persist])
  have "i \<notin> set (unseen ?g)" using i(2) gap by (auto simp: reportable_def f1)
  then have inv3: "persist_inv cfg (Suc i) s2"
    unfolding s2_def by (intro take_look_inv [OF inv2 persist i(1)])
  show "persist_inv cfg (Suc i) t" "open_ok cfg (Suc i) t"
    using judge_due_inv [OF inv3 j2] by (simp_all add: t)
  have same: "persisted s2 = persisted ?g" "closed_ids s2 = closed_ids ?g"
    by (auto simp: s2_def take_look_def Let_def split: option.split)
  show "map hid (persisted t) = map hid (persisted s) @ map hid new"
    by (simp add: t f2(5) same f1(5))
  have grow: "closed_ids s \<subseteq> closed_ids s1" "closed_ids s1 \<subseteq> closed_ids t"
    using judge_due_splits(3) [OF inv0 j1] judge_due_splits(3) [OF inv3 j2] same by (auto simp: t)
  then show "closed_ids s \<subseteq> closed_ids t" by blast
  show "\<forall>k\<in>closed_ids s. candidates t ! k = candidates s ! k"
  proof
    fix k assume "k \<in> closed_ids s"
    then have dead: "k \<in> closed_ids ?g" and k: "k < length (candidates ?g)"
      using grow ids_in_range(3) [of s1 k] inv1 by (auto simp: persist_inv_def)
    have "candidates s2 ! k = candidates ?g ! k"
      using grown_look [of i "closed_ids ?g" "candidates ?g" _ "match_px cfg" "opening"] dead k
      by (auto simp: s2_def take_look_def Let_def grown_def split: option.split)
    then show "candidates t ! k = candidates s ! k" by (simp add: t f2(1) f1(1))
  qed
qed

interpretation persist_runs: invariant_system "persist_start cfg" "persist_step cfg" "run_inv cfg"
proof
  fix r assume "persist_start cfg r"
  then show "run_inv cfg r"
    by (auto simp: persist_start_def run_inv_def persist_inv_def new_persistence_def frames_ok_def
        candidates_ok_def ids_ok_def decided_ok_def)
next
  fix r r' assume inv: "run_inv cfg r" and "persist_step cfg r r'"
  from this(2) show "run_inv cfg r'"
  proof (cases rule: persist_step.cases)
    case (look_step p i s gap pts op t new told)
    then show ?thesis
      using inv add_with_gap_inv(1,3) [OF _ _ look_step(3-7)] by (simp add: run_inv_def)
  next
    case (gap_step p s gap told)
    then show ?thesis
      using inv persist_inv_gap [OF _ _ gap_step(3)] by (simp add: run_inv_def)
  qed
qed

text \<open>What \<open>end\<close> does with the persisted candidates when no verdict has been reversed.\<close>

definition final_judge :: "persist_config \<Rightarrow> persist_state \<Rightarrow> nat \<Rightarrow> hole option" where
  "final_judge cfg s k = judge k (candidates s ! k) (looked_at s) (lost s) (persist cfg) (window cfg)
     (unseen s) 0"

lemma settle_final:
  assumes "window_end cfg s (hid h0) \<le> processed" "final_judge cfg s (hid h0) = Some v" "hole_of s h0"
  shows "\<exists>h. settle cfg s processed live h0 = Inr (h, True) \<and> hid h = hid h0
    \<and> first_frame h = first_frame h0 \<and> h\<lparr>judged_frame := None\<rparr> = v"
  using assms judge_facts [OF assms(2) [unfolded final_judge_def]]
  by (auto simp: settle_def refresh_def final_judge_def hole_of_def judge_def Let_def
      split: if_splits intro!: hole.equality)

lemma settle_early:
  assumes "\<not> window_end cfg s (hid h0) \<le> processed"
  shows "settle cfg s processed live h0 = Inr (refresh s h0, live)"
  using assms by (simp add: settle_def refresh_def Let_def)

lemma settle_all_Inr:
  assumes "\<forall>h\<in>set hs. \<exists>r. settle cfg s processed live h = Inr r"
  shows "\<exists>rs. settle_all cfg s processed live hs = Inr rs
    \<and> list_all2 (\<lambda>h r. settle cfg s processed live h = Inr r) hs rs"
  using assms
proof (induction hs)
  case (Cons h hs)
  then obtain r rs where "settle cfg s processed live h = Inr r"
    "settle_all cfg s processed live hs = Inr rs"
    "list_all2 (\<lambda>h r. settle cfg s processed live h = Inr r) hs rs"
    by force
  then show ?case by simp
qed simp

lemma settle_cases:
  assumes inv: "persist_inv cfg p s" and h: "h0 \<in> set (persisted s)"
  shows "\<exists>h b. settle cfg s p live h0 = Inr (h, b) \<and> hid h = hid h0 \<and> first_frame h = first_frame h0
    \<and> (b \<longleftrightarrow> live \<or> window_end cfg s (hid h) \<le> p)
    \<and> (window_end cfg s (hid h) \<le> p \<longrightarrow> final_judge cfg s (hid h) = Some (h\<lparr>judged_frame := None\<rparr>))"
proof (cases "window_end cfg s (hid h0) \<le> p")
  case True
  have ok: "frames_ok cfg p s" and st: "stands cfg p s (hid h0)" and hole: "hole_of s h0"
    using inv h by (auto simp: persist_inv_def decided_ok_def)
  have "final_judge cfg s (hid h0) \<noteq> None"
    using stands_final [OF ok True, of h0] st by (simp only: final_judge_def)
  then obtain v where v: "final_judge cfg s (hid h0) = Some v" by auto
  show ?thesis
    using settle_final [OF True v hole, of live] True v by fastforce
next
  case False
  then show ?thesis
    using settle_early [OF False, of live] by (simp add: refresh_def Let_def)
qed

lemma map_fst_list_all2:
  "list_all2 P xs rs \<Longrightarrow> (\<And>x r. x \<in> set xs \<Longrightarrow> P x r \<Longrightarrow> g (fst r) = f x)
    \<Longrightarrow> map (g \<circ> fst) rs = map f xs"
  by (induction rule: list_all2_induct) auto

lemma list_all2_right: "list_all2 P xs ys \<Longrightarrow> y \<in> set ys \<Longrightarrow> \<exists>x\<in>set xs. P x y"
  by (induction rule: list_all2_induct) auto

text \<open>Of the candidates whose window has passed, those persisted are those the window's end accepts.\<close>

lemma persisted_iff_final:
  assumes inv: "persist_inv cfg p s" and openok: "open_ok cfg p s" and passed: "window_end cfg s k \<le> p"
  shows "k \<in> hid ` set (persisted s) \<longleftrightarrow> k < length (candidates s) \<and> final_judge cfg s k \<noteq> None"
proof -
  have ok: "frames_ok cfg p s" and ids: "ids_ok s" and dec: "decided_ok cfg p s"
    using inv by (auto simp: persist_inv_def)
  have final: "final_judge cfg s k \<noteq> None \<longleftrightarrow> stands cfg p s k"
    using stands_final [OF ok passed, of "sample_hole k [] []"]
    by (simp only: final_judge_def sample_hole_def hole.simps)
  have "k \<notin> set (open_ids s)"
    using openok passed by (auto simp: open_ok_def)
  moreover have "k \<in> closed_ids s \<Longrightarrow> \<not> stands cfg p s k" "k \<in> hid ` set (persisted s) \<Longrightarrow> stands cfg p s k"
    using dec by (auto simp: decided_ok_def)
  moreover have "k < length (candidates s) \<longleftrightarrow>
      k \<in> set (open_ids s) \<or> k \<in> hid ` set (persisted s) \<or> k \<in> closed_ids s"
    using ids unfolding ids_ok_def by blast
  ultimately show ?thesis
    unfolding final by blast
qed

lemma end_run_result:
  assumes inv: "persist_inv cfg p s" and persist: "0 \<le> persist cfg" and le: "p \<le> processed"
  shows "\<exists>t result. end_run cfg s processed live = Inr (t, result)
    \<and> sorted (map first_frame result) \<and> distinct (map hid result)
    \<and> (\<forall>h\<in>set result. live \<or> window_end cfg s (hid h) \<le> processed)
    \<and> (\<forall>h\<in>set result. window_end cfg s (hid h) \<le> processed
          \<longrightarrow> final_judge cfg s (hid h) = Some (h\<lparr>judged_frame := None\<rparr>))
    \<and> (\<forall>k. window_end cfg s k \<le> processed
          \<longrightarrow> (k \<in> hid ` set result \<longleftrightarrow> k < length (candidates s) \<and> final_judge cfg s k \<noteq> None))
    \<and> (live \<longrightarrow> hid ` set (persisted s) \<subseteq> hid ` set result)"
proof -
  obtain s1 new where j: "judge_due cfg s processed None = (s1, new)" by fastforce
  note f = judge_due_fields [OF j]
  have inv0: "persist_inv cfg processed s" by (rule persist_inv_later [OF inv persist le])
  note inv1 = judge_due_inv [OF inv0 j]
  have same: "window_end cfg s1 k = window_end cfg s k" "final_judge cfg s1 k = final_judge cfg s k" for k
    by (simp_all add: window_end_def final_judge_def f)
  let ?P = "\<lambda>h0 r. settle cfg s1 processed live h0 = Inr r"
  have each: "\<forall>h0\<in>set (persisted s1). \<exists>r. ?P h0 r"
    using settle_cases [OF inv1(1), of _ live] by blast
  obtain rs where rs: "settle_all cfg s1 processed live (persisted s1) = Inr rs"
    and all2: "list_all2 ?P (persisted s1) rs"
    using settle_all_Inr [OF each] by blast
  have hids: "map (hid \<circ> fst) rs = map hid (persisted s1)"
    by (rule map_fst_list_all2 [OF all2]) (use settle_cases [OF inv1(1), of _ live] in fastforce)
  have facts: "(b \<longleftrightarrow> live \<or> window_end cfg s (hid h) \<le> processed)
      \<and> (window_end cfg s (hid h) \<le> processed \<longrightarrow> final_judge cfg s (hid h) = Some (h\<lparr>judged_frame := None\<rparr>))"
    if hb: "(h, b) \<in> set rs" for h b
  proof -
    obtain h0 where "h0 \<in> set (persisted s1)" "?P h0 (h, b)"
      using list_all2_right [OF all2 hb] by blast
    then show ?thesis using settle_cases [OF inv1(1), of h0 live] by (auto simp: same)
  qed
  define result where "result = sort_key first_frame (map fst (filter snd rs))"
  have run: "end_run cfg s processed live = Inr (s1\<lparr>persisted := map fst rs\<rparr>, result)"
    by (simp add: end_run_def j rs result_def)
  have hid_rs: "(hid \<circ> fst) ` set rs = hid ` set (persisted s1)"
    using arg_cong [OF hids, of set] by simp
  have in_result: "h \<in> set result \<longleftrightarrow> (h, True) \<in> set rs" for h
    by (auto simp: result_def image_iff)
  have "distinct (map (hid \<circ> fst) rs)"
    unfolding hids using inv1(1) by (simp add: persist_inv_def ids_ok_def)
  then have "distinct (map (hid \<circ> fst) (filter snd rs))"
    by (rule distinct_map_filter)
  then have dist: "distinct (map hid result)"
    by (simp add: result_def distinct_map inj_on_def image_iff)
  have mem: "k \<in> hid ` set result \<longleftrightarrow> k < length (candidates s) \<and> final_judge cfg s k \<noteq> None"
    if "window_end cfg s k \<le> processed" for k
  proof -
    have "k \<in> hid ` set result \<longleftrightarrow> (\<exists>h. (h, True) \<in> set rs \<and> hid h = k)"
      by (auto simp: image_iff in_result)
    also have "\<dots> \<longleftrightarrow> (\<exists>h b. (h, b) \<in> set rs \<and> hid h = k)"
      using facts that by metis
    also have "\<dots> \<longleftrightarrow> k \<in> hid ` set (persisted s1)"
      unfolding hid_rs [symmetric] by force
    finally have "k \<in> hid ` set result \<longleftrightarrow> k \<in> hid ` set (persisted s1)" .
    then show ?thesis
      using persisted_iff_final [OF inv1, of k] that by (simp add: same f(1))
  qed
  have live: "hid ` set (persisted s) \<subseteq> hid ` set result" if live
  proof
    fix k assume "k \<in> hid ` set (persisted s)"
    then have "k \<in> (hid \<circ> fst) ` set rs" unfolding hid_rs f(5) by auto
    then obtain h b where hb: "(h, b) \<in> set rs" and k: "k = hid h" by auto
    have b using facts [OF hb] that by simp
    then have "h \<in> set result" using hb in_result [of h] by simp
    then show "k \<in> hid ` set result" unfolding k by (rule imageI)
  qed
  have each_result: "live \<or> window_end cfg s (hid h) \<le> processed"
    "window_end cfg s (hid h) \<le> processed \<longrightarrow> final_judge cfg s (hid h) = Some (h\<lparr>judged_frame := None\<rparr>)"
    if "h \<in> set result" for h
    using facts [of h True] that by (simp_all add: in_result)
  have "sorted (map first_frame result)"
    by (simp add: result_def)
  then show ?thesis
    by (intro exI conjI ballI allI impI)
      (rule run dist mem live each_result(1) each_result(2) [THEN mp] | assumption)+
qed

text \<open>
  C3. Judging early is judging at the window's end. After any run of Looks, Lost Looks and missed
  frames, \<open>end\<close> never fails its assertion: it returns, in first-detection order and each once,
  the candidates that persisted. Of the candidates whose window has passed these are exactly the
  ones \<open>_judge\<close> accepts when asked once, at the end, with nothing still to come, and each is
  reported with that verdict's position, frames and persistence. On a recording nothing else is
  returned; live, every candidate ever returned by \<open>add\<close> is still there.
\<close>

theorem early_verdict_is_the_windows:
  assumes "reach (persist_start cfg) (persist_step cfg) (p, s, told)" and "p \<le> processed"
  shows "\<exists>t result. end_run cfg s processed live = Inr (t, result)
    \<and> sorted (map first_frame result) \<and> distinct (map hid result)
    \<and> (\<forall>h\<in>set result. live \<or> window_end cfg s (hid h) \<le> processed)
    \<and> (\<forall>h\<in>set result. window_end cfg s (hid h) \<le> processed
          \<longrightarrow> final_judge cfg s (hid h) = Some (h\<lparr>judged_frame := None\<rparr>))
    \<and> (\<forall>k. window_end cfg s k \<le> processed
          \<longrightarrow> (k \<in> hid ` set result \<longleftrightarrow> k < length (candidates s) \<and> final_judge cfg s k \<noteq> None))
    \<and> (live \<longrightarrow> set told \<subseteq> hid ` set result)"
  using persist_runs.reach_inv [OF assms(1)] end_run_result [of cfg p s processed live] assms(2)
  by (auto simp: run_inv_def)

lemma rejected_stay:
  assumes "persist_step cfg r r'" and inv: "run_inv cfg r"
  shows "closed_ids (fst (snd r)) \<subseteq> closed_ids (fst (snd r'))
    \<and> (\<forall>k\<in>closed_ids (fst (snd r)). candidates (fst (snd r')) ! k = candidates (fst (snd r)) ! k)"
  using assms(1)
proof (cases rule: persist_step.cases)
  case (look_step p i s gap pts op t new told)
  then show ?thesis
    using inv add_with_gap_inv(4,5) [OF _ _ look_step(3-7)] by (simp add: run_inv_def)
next
  case (gap_step p s gap told)
  then show ?thesis by simp
qed

text \<open>
  C32. Every candidate is reported by \<open>add\<close> at most once, and is at any time exactly one of open,
  persisted and rejected; a rejected one stays rejected and gathers no further sighting.
\<close>

theorem candidates_are_judged_once:
  assumes run: "reach (persist_start cfg) (persist_step cfg) (p, s, told)"
    and next_step: "persist_step cfg (p, s, told) (p', s', told')"
  shows "distinct told'
    \<and> set (open_ids s') \<union> set told' \<union> closed_ids s' = {..<length (candidates s')}
    \<and> set (open_ids s') \<inter> set told' = {} \<and> set (open_ids s') \<inter> closed_ids s' = {}
    \<and> set told' \<inter> closed_ids s' = {}
    \<and> closed_ids s \<subseteq> closed_ids s' \<and> (\<forall>k\<in>closed_ids s. candidates s' ! k = candidates s ! k)"
proof -
  have inv: "run_inv cfg (p, s, told)" by (rule persist_runs.reach_inv [OF run])
  have "run_inv cfg (p', s', told')"
    by (rule persist_runs.reach_inv [OF reach_step [OF run next_step]])
  then have "ids_ok s'" "told' = map hid (persisted s')"
    by (auto simp: run_inv_def persist_inv_def)
  moreover have "closed_ids s \<subseteq> closed_ids s' \<and> (\<forall>k\<in>closed_ids s. candidates s' ! k = candidates s ! k)"
    using rejected_stay [OF next_step inv] by simp
  ultimately show ?thesis
    by (auto simp: ids_ok_def)
qed


section \<open>Sample runs\<close>

definition sample_cfg :: "nat \<Rightarrow> persist_config" where
  "sample_cfg w = \<lparr>match_px = 3, persist = 1 / 2, window = w, stride = 1, baseline_frames = 1\<rparr>"

definition one_look :: "nat \<Rightarrow> persist_state \<times> hole list" where
  "one_look w = add (sample_cfg w) (new_persistence []) 1 (Some [[10, 10, 4, 4]]) True"

lemma sample_due [simp]: "due (sample_cfg w) i"
  by (simp add: due_def looked_at_frame_def sample_cfg_def)

lemma sample_start: "persist_start (sample_cfg w) (0, new_persistence [], [])"
  by (auto simp: persist_start_def sample_cfg_def)

lemma one_look_step:
  "persist_step (sample_cfg w) (0, new_persistence [], []) (Suc 1, fst (one_look w), map hid (snd (one_look w)))"
  using look_step [of 0 1 "sample_cfg w" "new_persistence []" "[]" "Some [[10, 10, 4, 4]]" True
      "fst (one_look w)" "snd (one_look w)" "[]"]
  by (simp add: reportable_def one_look_def add_def new_persistence_def del: One_nat_def)

lemma judge_due_none [simp]: "open_ids s = [] \<Longrightarrow> judge_due cfg s p look = (s, [])"
  by (simp add: judge_due_def map_filter_simps)

lemma judge_due_one:
  assumes "open_ids s = [k]"
    and "verdict cfg s p (drop (bisect_left (unseen s) (first_idx (candidates s ! k))) (unseen s)) k = v"
    and "h' = (the v)\<lparr>judged_frame := Some (case look of None \<Rightarrow> p - 1 | Some i \<Rightarrow> i)\<rparr>"
  shows "judge_due cfg s p look =
    (if v \<noteq> None then (s\<lparr>open_ids := [], persisted := persisted s @ [h']\<rparr>, [h'])
     else if p < window_end cfg s k then (s, [])
     else (s\<lparr>open_ids := [], closed_ids := insert k (closed_ids s)\<rparr>, []))"
  using assms by (cases s) (auto simp: judge_due_def map_filter_simps Let_def window_end_def)

definition seen_once :: hole where
  "seen_once = \<lparr>hid = 0, pos = [10, 10], box = [10, 10, 4, 4], first_frame = 1, seen = [1],
     persistence = 1, judged_frame = None, corroborated = False, target = None, mm = None\<rparr>"

definition looked_once :: "nat list \<Rightarrow> nat list \<Rightarrow> persist_state" where
  "looked_once looks us = \<lparr>looked_at = looks, lost = [], unseen = us,
     candidates = [\<lparr>cpos = [10, 10, 4, 4], sightings = [1], first_idx = 1\<rparr>], open_ids = [0],
     persisted = [], closed_ids = {}\<rparr>"

lemma looked_once_sel [simp]:
  "open_ids (looked_once looks us) = [0]" "unseen (looked_once looks us) = us"
  "persisted (looked_once looks us) = []"
  "first_idx (candidates (looked_once looks us) ! 0) = 1"
  "window_end (sample_cfg w) (looked_once looks us) 0 = w + 1"
  by (simp_all add: looked_once_def window_end_def sample_cfg_def)

lemmas verdict_eval = verdict_def judge_def window_end_def count_in_def bisect_left_def
  sorted_set_def looked_once_def seen_once_def

lemma one_look_judged: "one_look w = judge_due (sample_cfg w) (looked_once [1] []) 2 None"
proof -
  have "take_look (sample_cfg w) (new_persistence []) 1 (Some [[10, 10, 4, 4]]) True = looked_once [1] []"
    by (simp add: take_look_def new_persistence_def fold_look_def fold_one_def matching_def
        looked_once_def)
  moreover have "(new_persistence [])\<lparr>unseen := unseen (new_persistence []) @ []\<rparr> = new_persistence []"
    by (simp add: new_persistence_def)
  moreover have "judge_due (sample_cfg w) (new_persistence []) 1 (Some 1) = (new_persistence [], [])"
    by (simp add: new_persistence_def)
  ultimately show ?thesis
    unfolding one_look_def add_def add_with_gap_def by (simp add: case_prod_beta numeral_2_eq_2)
qed

lemma one_look_eval:
  "one_look 1 = ((looked_once [1] [])\<lparr>open_ids := [],
     persisted := [seen_once\<lparr>judged_frame := Some 1\<rparr>]\<rparr>, [seen_once\<lparr>judged_frame := Some 1\<rparr>])"
proof -
  have "verdict (sample_cfg 1) (looked_once [1] []) 2 [] 0 = Some seen_once"
    by (simp add: verdict_eval sample_cfg_def)
  then show ?thesis
    unfolding one_look_judged
    by (subst judge_due_one [where k = 0 and v = "Some seen_once", OF _ _ refl])
      (simp_all add: looked_once_def bisect_left_def)
qed

theorem early_verdict_is_the_windows_witness:
  "\<exists>t result. end_run (sample_cfg 1) (fst (one_look 1)) 2 False = Inr (t, result)
     \<and> 0 \<in> hid ` set result"
proof -
  have run: "reach (persist_start (sample_cfg 1)) (persist_step (sample_cfg 1))
      (Suc 1, fst (one_look 1), map hid (snd (one_look 1)))"
    by (rule reach_step [where s = "(0, new_persistence [], [])"])
      (rule reach_init sample_start one_look_step)+
  have "window_end (sample_cfg 1) (fst (one_look 1)) 0 \<le> 2"
    and "final_judge (sample_cfg 1) (fst (one_look 1)) 0 \<noteq> None"
    and "length (candidates (fst (one_look 1))) = 1"
    unfolding one_look_eval by (simp_all add: final_judge_def verdict_eval sample_cfg_def)
  then show ?thesis
    using early_verdict_is_the_windows [OF run, of 2 False] by fastforce
qed

theorem candidates_are_judged_once_witness:
  "map hid (snd (one_look 1)) = [0] \<and> distinct (map hid (snd (one_look 1)))
     \<and> open_ids (fst (one_look 1)) = []"
  using candidates_are_judged_once
    [OF reach_init [where init = "persist_start (sample_cfg 1)", OF sample_start] one_look_step]
  by (simp add: one_look_eval looked_once_def seen_once_def del: One_nat_def)

definition late_gap_run :: persist_state where
  "late_gap_run =
     (let s1 = fst (one_look 4); s2 = fst (add (sample_cfg 4) s1 2 (Some []) True)
      in s2\<lparr>unseen := unseen s2 @ [3, 4]\<rparr>)"

lemma one_look_four: "one_look 4 = (looked_once [1] [], [])"
proof -
  have "verdict (sample_cfg 4) (looked_once [1] []) 2 [] 0 = None"
    by (simp add: verdict_eval sample_cfg_def upt_rec due_def looked_at_frame_def)
  then show ?thesis
    unfolding one_look_judged
    by (subst judge_due_one [where k = 0 and v = None, OF _ _ refl])
      (simp_all add: looked_once_def bisect_left_def window_end_def sample_cfg_def)
qed

lemma second_look: "add (sample_cfg 4) (looked_once [1] []) 2 (Some []) True = (looked_once [1, 2] [], [])"
proof -
  have one: "verdict (sample_cfg 4) (looked_once [1] []) 2 [] 0 = None"
    and two: "verdict (sample_cfg 4) (looked_once [1, 2] []) 3 [] 0 = None"
    by (simp_all add: verdict_eval sample_cfg_def upt_rec due_def looked_at_frame_def)
  have "judge_due (sample_cfg 4) (looked_once [1] []) 2 (Some 2) = (looked_once [1] [], [])"
    by (subst judge_due_one [where k = 0 and v = None, OF _ _ refl])
      (simp_all add: one bisect_left_def del: One_nat_def)
  moreover have "judge_due (sample_cfg 4) (looked_once [1, 2] []) 3 None = (looked_once [1, 2] [], [])"
    by (subst judge_due_one [where k = 0 and v = None, OF _ _ refl])
      (simp_all add: two bisect_left_def del: One_nat_def)
  moreover have "take_look (sample_cfg 4) (looked_once [1] []) 2 (Some []) True = looked_once [1, 2] []"
    by (simp add: take_look_def fold_look_def looked_once_def)
  moreover have "(looked_once [1] [])\<lparr>unseen := unseen (looked_once [1] []) @ []\<rparr> = looked_once [1] []"
    by (simp add: looked_once_def)
  ultimately show ?thesis
    by (simp add: add_def add_with_gap_def del: One_nat_def)
qed

lemma late_gap_eval: "late_gap_run = looked_once [1, 2] [3, 4]"
  unfolding late_gap_run_def one_look_four Let_def fst_conv second_look by (simp add: looked_once_def)

lemma late_gap_reach:
  "reach (persist_start (sample_cfg 4)) (persist_step (sample_cfg 4)) (3, late_gap_run, [])"
proof -
  let ?start = "persist_start (sample_cfg 4)" and ?step = "persist_step (sample_cfg 4)"
  have "reach ?start ?step (0, new_persistence [], [])"
    by (rule reach_init [where init = ?start, OF sample_start])
  moreover have "?step (0, new_persistence [], []) (Suc 1, looked_once [1] [], [])"
    using one_look_step [of 4] by (simp add: one_look_four)
  ultimately have one: "reach ?start ?step (Suc 1, looked_once [1] [], [])"
    by (rule reach_step)
  have "?step (Suc 1, looked_once [1] [], []) (Suc 2, looked_once [1, 2] [], [] @ map hid ([] :: hole list))"
    by (rule look_step [where gap = "[]" and pts = "Some []" and opens = True])
      (use second_look in \<open>simp_all add: add_def reportable_def\<close>)
  then have two: "reach ?start ?step (Suc 2, looked_once [1, 2] [], [])"
    using reach_step [OF one] by simp
  have "?step (Suc 2, looked_once [1, 2] [], [])
      (Suc 2, (looked_once [1, 2] [])\<lparr>unseen := unseen (looked_once [1, 2] []) @ [3, 4]\<rparr>, [])"
    by (rule gap_step) (simp add: reportable_def)
  moreover have "(looked_once [1, 2] [])\<lparr>unseen := unseen (looked_once [1, 2] []) @ [3, 4]\<rparr> = late_gap_run"
    by (simp add: late_gap_eval looked_once_def)
  ultimately show ?thesis
    using reach_step [OF two] by simp
qed

text \<open>
  A gap reported after the last Look can make \<open>end\<close> find a candidate persisted that was never
  announced: with a window of four frames, one detected on the first and not on the second is
  undecided after two Looks, and persists at the end once the stream has reported the other two
  missing. (\<open>process\<close> takes the live end to judge nothing new.)
\<close>

theorem end_judges_a_late_gap:
  "reach (persist_start (sample_cfg 4)) (persist_step (sample_cfg 4)) (3, late_gap_run, [])
    \<and> (\<exists>t r. end_run (sample_cfg 4) late_gap_run 3 True = Inr (t, r) \<and> map hid r = [0])"
proof
  define h where "h = seen_once\<lparr>persistence := 1 / 2\<rparr>"
  have v: "verdict (sample_cfg 4) (looked_once [1, 2] [3, 4]) 3 [3, 4] 0 = Some h"
    by (simp add: verdict_eval h_def sample_cfg_def upt_rec due_def looked_at_frame_def)
  let ?t = "(looked_once [1, 2] [3, 4])\<lparr>open_ids := [], persisted := [h\<lparr>judged_frame := Some 2\<rparr>]\<rparr>"
  have "judge_due (sample_cfg 4) (looked_once [1, 2] [3, 4]) 3 None
      = (?t, [h\<lparr>judged_frame := Some 2\<rparr>])"
    by (subst judge_due_one [where k = 0 and v = "Some h", OF _ _ refl])
      (simp_all add: v bisect_left_def del: One_nat_def)
  moreover have "settle (sample_cfg 4) ?t 3 True (h\<lparr>judged_frame := Some 2\<rparr>)
      = Inr (refresh ?t (h\<lparr>judged_frame := Some 2\<rparr>), True)"
    by (rule settle_early)
      (simp add: h_def seen_once_def looked_once_def window_end_def sample_cfg_def)
  ultimately show "\<exists>t r. end_run (sample_cfg 4) late_gap_run 3 True = Inr (t, r) \<and> map hid r = [0]"
    by (simp add: end_run_def late_gap_eval refresh_def h_def seen_once_def Let_def)
qed (rule late_gap_reach)

end
