(* ===== verification/Run_Loop.thy ===== *)
theory Run_Loop
  imports Persistence_Runs "HOL-Library.Multiset"
begin

text \<open>
  A Run (\<open>ImageRecognitionService/detection/new_bullet_holes.py\<close>): the loop \<open>process\<close>, the
  announcer of a live Run (\<open>_Announcer\<close>), and what is published (\<open>_confirmed\<close>).

  The image processing is a parameter: a registered view is the functions the loop asks of it
  (\<open>assign\<close>, \<open>to_millimetres\<close>, \<open>board_to_template\<close>, the Targets' outlines), and a Look carries its
  detections and what Change Evidence says of a point on it. The iteration \<open>RegisteredFrames.looks\<close>
  is the list of its turns: a Look, whether \<open>finish\<close> had been called when the loop read the flag,
  and the frames the stream's thread reported missing before the Look was added and while it was.

  A hole is one dict shared by \<open>Persistence\<close> and the announcer; here each keeps its fields of it
  under the hole's \<open>hid\<close>, and \<open>refreshed\<close> joins them at the end, as the shared dict does.
\<close>

section \<open>The data\<close>

record view_ops =
  assign :: "detection \<Rightarrow> nat option"
  to_millimetres :: "detection \<Rightarrow> nat option \<Rightarrow> (real \<times> real) option"
  board_to_template :: "detection \<Rightarrow> real \<times> real"
  outlines :: "(real \<times> real) list list"

record look =
  index :: nat
  view :: "view_ops option"
  detections :: "detection list"
  changed :: "detection \<Rightarrow> bool"

record turn =
  gap_before :: "nat list"
  gap_during :: "nat list"
  finishing :: bool
  the_look :: look

record confirmed_hole =
  first_frame_of :: nat
  first_seen_at :: time
  template_xy :: "real \<times> real"
  target_of :: "nat option"
  mm_of :: "(real \<times> real) option"

record run_env =
  config :: persist_config
  require :: bool
  live :: bool
  merge_displaced :: bool
  wall_clock :: "nat \<Rightarrow> time"

definition LIVE_STRIDE :: nat where
  "LIVE_STRIDE = 4"

text \<open>The settings \<open>process\<close> starts from: \<open>stride\<close> None is the caller giving none.\<close>

definition run_config :: "real \<Rightarrow> bool \<Rightarrow> nat option \<Rightarrow> nat \<Rightarrow> persist_config" where
  "run_config match_radius is_live given_stride n_baseline =
     \<lparr>match_px = match_radius, persist = PERSIST, window = PERSIST_FRAMES,
      stride = (case given_stride of Some n \<Rightarrow> if n = 0 then (if is_live then LIVE_STRIDE else 1) else n
                | None \<Rightarrow> if is_live then LIVE_STRIDE else 1),
      baseline_frames = max 1 n_baseline\<rparr>"

text \<open>\<open>_measure\<close>: a Miss has no millimetres; \<open>to_millimetres\<close> is None where the code raises
  \<open>NotCalibrated\<close>. The ring score is only printed.\<close>

definition measure_hole :: "view_ops \<Rightarrow> hole \<Rightarrow> hole" where
  "measure_hole v h =
     h\<lparr>mm := (if target h = None then None else to_millimetres v (pos h) (target h))\<rparr>"

definition confirmed :: "view_ops \<Rightarrow> (nat \<Rightarrow> time) \<Rightarrow> hole \<Rightarrow> confirmed_hole" where
  "confirmed v clock h =
     \<lparr>first_frame_of = first_frame h, first_seen_at = clock (first_frame h),
      template_xy = board_to_template v (pos h), target_of = target h, mm_of = mm h\<rparr>"

definition corroborates :: "detection list \<Rightarrow> detection \<Rightarrow> real \<Rightarrow> bool" where
  "corroborates points b r \<longleftrightarrow> (\<exists>c\<in>set points. same_bullet_hole c b r)"

section \<open>The announcer\<close>

record announcer =
  waiting :: "hole list"
  announced :: "hole list"
  published :: "confirmed_hole list"

definition holding :: "run_env \<Rightarrow> announcer \<Rightarrow> nat \<Rightarrow> bool" where
  "holding env a looked \<longleftrightarrow>
     (\<exists>h\<in>set (waiting a). first_frame h + window (config env) > looked + 1)"

definition announce_one :: "run_env \<Rightarrow> view_ops \<Rightarrow> announcer \<Rightarrow> hole \<Rightarrow> announcer" where
  "announce_one env v a h =
     (if require env \<and> \<not> corroborated h then a\<lparr>waiting := waiting a @ [h]\<rparr>
      else let h' = measure_hole v (h\<lparr>target := assign v (pos h)\<rparr>)
           in a\<lparr>announced := announced a @ [h'],
                published := published a @ [confirmed v (wall_clock env) h']\<rparr>)"

definition announce ::
  "run_env \<Rightarrow> view_ops \<Rightarrow> persist_state \<Rightarrow> detection list \<Rightarrow> announcer \<Rightarrow> hole list \<Rightarrow> detection list
    \<Rightarrow> announcer" where
  "announce env v s corroboration a persisted_now corroborating =
     (let r = match_px (config env);
          again = map (\<lambda>h. h\<lparr>corroborated := corroborates corroborating (position s h) r\<rparr>) (waiting a);
          fresh = map (\<lambda>h. h\<lparr>corroborated := corroborates corroboration (box h) r\<rparr>) persisted_now
      in foldl (announce_one env v) (a\<lparr>waiting := []\<rparr>) (again @ fresh))"

section \<open>The loop\<close>

record run_state =
  pstate :: persist_state
  ann :: announcer
  corroboration :: "detection list"
  residuals :: "real list"
  last_view :: view_ops

definition one_turn ::
  "run_env \<Rightarrow> detection list \<Rightarrow> run_state \<Rightarrow> turn \<Rightarrow> run_state \<times> hole list" where
  "one_turn env baseline st t =
     (let l = the_look t; cfg = config env;
          s0 = (pstate st)\<lparr>unseen := unseen (pstate st) @ gap_before t\<rparr>;
          (pts, matched, corroborating) =
            (case view l of
               None \<Rightarrow> (None, [], [])
             | Some v \<Rightarrow>
                 let (kept, res) = strip_pre_existing (detections l) baseline (match_px cfg)
                 in (Some kept, res, filter (changed l) kept));
          v = (case view l of None \<Rightarrow> last_view st | Some v \<Rightarrow> v);
          corr = corroboration st @ corroborating;
          (s, persisted_now) = add_with_gap cfg s0 (index l) pts (\<not> finishing t) (gap_during t)
      in (\<lparr>pstate = s,
           ann = (if live env then announce env v s corr (ann st) persisted_now corroborating
                  else ann st),
           corroboration = corr, residuals = residuals st @ matched, last_view = v\<rparr>,
          persisted_now))"

definition stops :: "run_env \<Rightarrow> run_state \<Rightarrow> turn \<Rightarrow> bool" where
  "stops env st t \<longleftrightarrow>
     finishing t \<and> unjudged (pstate st) = 0 \<and> \<not> (live env \<and> holding env (ann st) (index (the_look t)))"

fun run_turns :: "run_env \<Rightarrow> detection list \<Rightarrow> run_state \<Rightarrow> turn list \<Rightarrow> run_state" where
  "run_turns env baseline st [] = st"
| "run_turns env baseline st (t # ts) =
     (let st' = fst (one_turn env baseline st t)
      in if stops env st' t then st' else run_turns env baseline st' ts)"

definition no_announcements :: announcer where
  "no_announcements = \<lparr>waiting = [], announced = [], published = []\<rparr>"

definition baseline_of :: "run_env \<Rightarrow> look list \<Rightarrow> detection list" where
  "baseline_of env looks =
     baseline_marks (map detections (filter (\<lambda>l. view l \<noteq> None) looks)) (match_px (config env))"

definition start_run :: "nat list \<Rightarrow> view_ops \<Rightarrow> look list \<Rightarrow> run_state" where
  "start_run unseen0 board_space baseline_looks =
     \<lparr>pstate = new_persistence unseen0, ann = no_announcements, corroboration = [], residuals = [],
      last_view = foldl (\<lambda>v l. case view l of None \<Rightarrow> v | Some v' \<Rightarrow> v') board_space baseline_looks\<rparr>"

text \<open>
  What \<open>process\<close> returns and publishes: \<open>all_persisted\<close> lists the persisted holes by identity. The
  re-anchor count of the code's \<open>Run\<close> is \<open>Board_Registration\<close>'s.
\<close>

text \<open>What the shared dict of an announced hole holds after \<open>end\<close> has refreshed it.\<close>

definition refreshed :: "hole list \<Rightarrow> hole \<Rightarrow> hole" where
  "refreshed kept h =
     (case find (\<lambda>q. hid q = hid h) kept of
        None \<Rightarrow> h
      | Some q \<Rightarrow> h\<lparr>pos := pos q, box := box q, seen := seen q, persistence := persistence q\<rparr>)"

record run_result =
  holes :: "hole list"
  baseline :: "detection list"
  residual :: "real list"
  lost_looks :: nat
  all_persisted :: "nat list"
  published_holes :: "confirmed_hole list"

definition report_run ::
  "run_env \<Rightarrow> detection list \<Rightarrow> run_state \<Rightarrow> nat \<Rightarrow> assertion_error + run_result" where
  "report_run env marks st processed =
     (case end_run (config env) (pstate st) processed (live env) of
        Inl e \<Rightarrow> Inl e
      | Inr (s, persisted_all) \<Rightarrow>
          let r = match_px (config env);
              checked = map (\<lambda>h. h\<lparr>corroborated := corroborates (corroboration st) (box h) r\<rparr>)
                          persisted_all;
              new = (if live env
                     then map (refreshed (persisted s)) (sort_key first_frame (announced (ann st)))
                     else if require env then filter corroborated checked else checked);
              placed = map (\<lambda>h. h\<lparr>target := assign (last_view st) (pos h)\<rparr>) new;
              kept = (if merge_displaced env
                      then fst (merge_displaced_tracks placed (Some (outlines (last_view st)))
                                  MAX_DISPLACEMENT_FRACTION)
                      else placed);
              measured = map (measure_hole (last_view st)) kept
          in Inr \<lparr>holes = measured, baseline = marks, residual = residuals st,
                  lost_looks = length (lost (pstate st)), all_persisted = map hid persisted_all,
                  published_holes =
                    (if live env then published (ann st)
                     else map (confirmed (last_view st) (wall_clock env)) measured)\<rparr>)"

definition process_run ::
  "run_env \<Rightarrow> nat list \<Rightarrow> view_ops \<Rightarrow> look list \<Rightarrow> turn list \<Rightarrow> nat \<Rightarrow> assertion_error + run_result" where
  "process_run env unseen0 board_space baseline_looks turns processed =
     (let marks = baseline_of env baseline_looks
      in report_run env marks
           (run_turns env marks (start_run unseen0 board_space baseline_looks) turns) processed)"

section \<open>Turns\<close>

text \<open>The turns a source can hand the loop: see \<open>persist_step\<close>.\<close>

fun turns_ok :: "persist_config \<Rightarrow> nat \<Rightarrow> nat list \<Rightarrow> turn list \<Rightarrow> bool" where
  "turns_ok cfg p us [] = True"
| "turns_ok cfg p us (t # ts) =
     (let i = index (the_look t); us' = us @ gap_before t
      in sorted_wrt (<) us' \<and> (\<forall>f\<in>set (gap_before t). p \<le> f \<and> due cfg f)
         \<and> p \<le> i \<and> due cfg i \<and> i \<notin> set us'
         \<and> sorted_wrt (<) (us' @ gap_during t) \<and> (\<forall>f\<in>set (gap_during t). Suc i \<le> f \<and> due cfg f)
         \<and> turns_ok cfg (Suc i) (us' @ gap_during t) ts)"

lemma add_with_gap_unseen:
  assumes "add_with_gap cfg s i pts opn gap = (t, new)"
  shows "unseen t = unseen s @ gap"
proof -
  obtain s1 n1 where j1: "judge_due cfg s i (Some i) = (s1, n1)" by fastforce
  obtain s3 n2 where j2: "judge_due cfg (take_look cfg (s1\<lparr>unseen := unseen s1 @ gap\<rparr>) i pts opn)
      (Suc i) None = (s3, n2)" by fastforce
  have "t = s3" using assms j1 j2 by (simp add: add_with_gap_def)
  moreover have "unseen (take_look cfg (s1\<lparr>unseen := unseen s1 @ gap\<rparr>) i pts opn) = unseen s1 @ gap"
    by (simp add: take_look_def Let_def split: option.split)
  ultimately show ?thesis
    by (simp add: judge_due_fields(4) [OF j2] judge_due_fields(4) [OF j1])
qed

lemma one_turn_add:
  "\<exists>pts. add_with_gap (config env) ((pstate st)\<lparr>unseen := unseen (pstate st) @ gap_before t\<rparr>)
      (index (the_look t)) pts (\<not> finishing t) (gap_during t)
    = (pstate (fst (one_turn env marks st t)), snd (one_turn env marks st t))"
  by (auto simp: one_turn_def Let_def case_prod_unfold)

lemma one_turn_persist:
  assumes inv: "persist_inv (config env) p (pstate st)" and persist: "0 \<le> persist (config env)"
    and ok: "turns_ok (config env) p (unseen (pstate st)) (t # ts)"
    and st': "one_turn env marks st t = (st', new)"
  shows "persist_inv (config env) (Suc (index (the_look t))) (pstate st')"
    and "open_ok (config env) (Suc (index (the_look t))) (pstate st')"
    and "map hid (persisted (pstate st')) = map hid (persisted (pstate st)) @ map hid new"
    and "turns_ok (config env) (Suc (index (the_look t))) (unseen (pstate st')) ts"
proof -
  let ?s0 = "(pstate st)\<lparr>unseen := unseen (pstate st) @ gap_before t\<rparr>"
  obtain pts where add: "add_with_gap (config env) ?s0 (index (the_look t)) pts (\<not> finishing t)
      (gap_during t) = (pstate st', new)"
    using one_turn_add [of env st t marks] st' by auto
  have gap: "reportable (config env) p (pstate st) (gap_before t)"
    "reportable (config env) (Suc (index (the_look t))) ?s0 (gap_during t)"
    using ok by (auto simp: reportable_def Let_def)
  have inv0: "persist_inv (config env) p ?s0"
    by (rule persist_inv_gap [OF inv persist gap(1)])
  have i: "p \<le> index (the_look t)" "due (config env) (index (the_look t))"
    "index (the_look t) \<notin> set (unseen ?s0)"
    using ok by (auto simp: Let_def)
  note r = add_with_gap_inv [OF inv0 persist i gap(2) add]
  show "persist_inv (config env) (Suc (index (the_look t))) (pstate st')"
    "open_ok (config env) (Suc (index (the_look t))) (pstate st')"
    "map hid (persisted (pstate st')) = map hid (persisted (pstate st)) @ map hid new"
    using r(1-3) by simp_all
  show "turns_ok (config env) (Suc (index (the_look t))) (unseen (pstate st')) ts"
    using ok add_with_gap_unseen [OF add] by (simp add: Let_def)
qed

section \<open>What the announcer keeps\<close>

text \<open>
  Each persisted hole is waiting or announced, once; what was published is what was announced, in
  that order.
\<close>

definition announcer_ok :: "bool \<Rightarrow> nat list \<Rightarrow> announcer \<Rightarrow> bool" where
  "announcer_ok req told a \<longleftrightarrow>
     mset (map hid (waiting a @ announced a)) = mset told
     \<and> map first_frame_of (published a) = map first_frame (announced a)
     \<and> (req \<longrightarrow> (\<forall>h\<in>set (announced a). corroborated h))"

lemma announce_one_ok:
  assumes "announcer_ok (require env) told a"
  shows "announcer_ok (require env) (told @ [hid h]) (announce_one env v a h)"
  using assms by (auto simp: announcer_ok_def announce_one_def Let_def measure_hole_def confirmed_def)

lemma announce_fold_ok:
  "announcer_ok (require env) told a \<Longrightarrow>
     announcer_ok (require env) (told @ map hid hs) (foldl (announce_one env v) a hs)"
proof (induction hs arbitrary: told a)
  case (Cons h hs)
  then show ?case
    using Cons.IH [OF announce_one_ok [OF Cons.prems], of h v] by simp
qed simp

lemma announce_ok:
  assumes "announcer_ok (require env) told a"
  shows "announcer_ok (require env) (told @ map hid new) (announce env v s corr a new corroborating)"
proof -
  let ?again = "map (\<lambda>h. h\<lparr>corroborated := corroborates corroborating (position s h)
      (match_px (config env))\<rparr>) (waiting a)"
  let ?fresh = "map (\<lambda>h. h\<lparr>corroborated := corroborates corr (box h) (match_px (config env))\<rparr>) new"
  have "announcer_ok (require env) (map hid (announced a)) (a\<lparr>waiting := []\<rparr>)"
    using assms by (simp add: announcer_ok_def)
  then have "announcer_ok (require env) (map hid (announced a) @ map hid (?again @ ?fresh))
      (announce env v s corr a new corroborating)"
    unfolding announce_def Let_def by (rule announce_fold_ok)
  moreover have "mset (map hid (announced a) @ map hid (?again @ ?fresh)) = mset (told @ map hid new)"
    using assms by (simp add: announcer_ok_def comp_def ac_simps)
  ultimately show ?thesis
    by (simp add: announcer_ok_def)
qed

lemma announce_one_prefix: "prefix (published a) (published (announce_one env v a h))"
  by (simp add: announce_one_def Let_def)

lemma announce_prefix: "prefix (published a) (published (announce env v s corr a new corroborating))"
proof -
  have "prefix (published b) (published (foldl (announce_one env v) b hs))" for b hs
  proof (induction hs arbitrary: b)
    case (Cons h hs)
    show ?case
      using prefix_order.trans [OF announce_one_prefix Cons.IH [of "announce_one env v b h"]] by simp
  qed simp
  from this [of "a\<lparr>waiting := []\<rparr>"] show ?thesis
    by (simp add: announce_def Let_def del: foldl_append)
qed

lemma one_turn_ann:
  "ann (fst (one_turn env marks st t)) =
     (if live env
      then announce env (last_view (fst (one_turn env marks st t))) (pstate (fst (one_turn env marks st t)))
             (corroboration (fst (one_turn env marks st t))) (ann st) (snd (one_turn env marks st t))
             (case view (the_look t) of None \<Rightarrow> []
              | Some v \<Rightarrow> filter (changed (the_look t))
                  (fst (strip_pre_existing (detections (the_look t)) marks (match_px (config env)))))
      else ann st)"
  by (auto simp: one_turn_def Let_def case_prod_unfold split: option.split)

lemma run_turns_prefix: "prefix (published (ann st)) (published (ann (run_turns env marks st ts)))"
proof (induction ts arbitrary: st)
  case (Cons t ts)
  have "prefix (published (ann st)) (published (ann (fst (one_turn env marks st t))))"
    by (simp add: one_turn_ann announce_prefix)
  then show ?case
    using Cons.IH [of "fst (one_turn env marks st t)"] prefix_order.trans by (auto simp: Let_def)
qed simp

lemma run_turns_append:
  "run_turns env marks st (ts @ ts') = run_turns env marks st ts
   \<or> run_turns env marks st (ts @ ts') = run_turns env marks (run_turns env marks st ts) ts'"
  by (induction ts arbitrary: st) (auto simp: Let_def)

text \<open>
  What a Run has published stays published: however the Run goes on, what was published after
  some turns is the first part of what is published after more.
\<close>

theorem announcements_are_never_retracted:
  "prefix (published (ann (run_turns env marks st ts)))
     (published (ann (run_turns env marks st (ts @ later))))"
  using run_turns_append [of env marks st ts later] run_turns_prefix [of "run_turns env marks st ts"]
  by auto

section \<open>The whole run\<close>

definition live_inv :: "run_env \<Rightarrow> nat \<Rightarrow> run_state \<Rightarrow> bool" where
  "live_inv env p st \<longleftrightarrow> persist_inv (config env) p (pstate st)
     \<and> (live env \<longrightarrow> announcer_ok (require env) (map hid (persisted (pstate st))) (ann st))"

lemma one_turn_inv:
  assumes inv: "live_inv env p st" and persist: "0 \<le> persist (config env)"
    and ok: "turns_ok (config env) p (unseen (pstate st)) (t # ts)"
    and st': "one_turn env marks st t = (st', new)"
  shows "live_inv env (Suc (index (the_look t))) st'"
proof -
  note r = one_turn_persist [OF _ persist ok st']
  have "announcer_ok (require env) (map hid (persisted (pstate st'))) (ann st')" if "live env"
    using inv r(3) that one_turn_ann [of env marks st t] st' announce_ok
    by (simp add: live_inv_def)
  then show ?thesis
    using inv r(1) by (simp add: live_inv_def)
qed

lemma run_turns_inv:
  assumes "live_inv env p st" and persist: "0 \<le> persist (config env)"
    and "turns_ok (config env) p (unseen (pstate st)) ts"
  shows "\<exists>q. live_inv env q (run_turns env marks st ts)
    \<and> (q = p \<or> (\<exists>t\<in>set ts. q = Suc (index (the_look t))))"
  using assms(1,3)
proof (induction ts arbitrary: p st)
  case (Cons t ts)
  obtain st' new where st': "one_turn env marks st t = (st', new)" by fastforce
  have inv: "live_inv env (Suc (index (the_look t))) st'"
    by (rule one_turn_inv [OF Cons.prems(1) persist Cons.prems(2) st'])
  have "turns_ok (config env) (Suc (index (the_look t))) (unseen (pstate st')) ts"
    using one_turn_persist(4) [OF _ persist Cons.prems(2) st'] Cons.prems(1)
    by (simp add: live_inv_def)
  from Cons.IH [OF inv this] show ?case
    using inv st' by (auto simp: Let_def)
qed auto

lemma start_run_inv:
  assumes "sorted_wrt (<) us" "\<forall>i\<in>set us. due (config env) i"
  shows "live_inv env 0 (start_run us board_space bl)"
  using assms by (auto simp: live_inv_def start_run_def persist_inv_def new_persistence_def frames_ok_def
      candidates_ok_def ids_ok_def decided_ok_def announcer_ok_def no_announcements_def)


lemma measure_keeps [simp]:
  "hid (measure_hole v h) = hid h" "first_frame (measure_hole v h) = first_frame h"
  "corroborated (measure_hole v h) = corroborated h" "pos (measure_hole v h) = pos h"
  "box (measure_hole v h) = box h"
  by (simp_all add: measure_hole_def)

text \<open>The state a run ends in, and what \<open>end\<close> then gives.\<close>

lemma run_end:
  assumes persist: "0 \<le> persist (config env)"
    and us: "sorted_wrt (<) us" "\<forall>i\<in>set us. due (config env) i"
    and ok: "turns_ok (config env) 0 us turns"
    and passed: "\<forall>t\<in>set turns. index (the_look t) < processed"
    and st: "st = run_turns env marks (start_run us board_space bl) turns"
  shows "\<exists>p. p \<le> processed \<and> live_inv env p st"
proof -
  have "unseen (pstate (start_run us board_space bl)) = us"
    by (simp add: start_run_def new_persistence_def)
  then obtain q where "live_inv env q st" "q = 0 \<or> (\<exists>t\<in>set turns. q = Suc (index (the_look t)))"
    using run_turns_inv [OF start_run_inv [OF us] persist, of board_space bl turns marks] ok st by auto
  then show ?thesis
    using passed by (intro exI [of _ q]) auto
qed









definition sample_view :: view_ops where
  "sample_view = \<lparr>assign = (\<lambda>_. Some 0), to_millimetres = (\<lambda>p _. Some (p ! 0, p ! 1)),
     board_to_template = (\<lambda>p. (p ! 0, p ! 1)), outlines = [[(0, 0)]]\<rparr>"

definition sample_env :: "bool \<Rightarrow> run_env" where
  "sample_env alive = \<lparr>config = sample_cfg 1, require = True, live = alive, merge_displaced = False,
     wall_clock = (\<lambda>i. seconds (int i))\<rparr>"

definition sample_turn :: turn where
  "sample_turn = \<lparr>gap_before = [], gap_during = [], finishing = False,
     the_look = \<lparr>index = 1, view = Some sample_view, detections = [[10, 10, 4, 4]],
                 changed = (\<lambda>_. True)\<rparr>\<rparr>"

lemma sample_turns_ok: "turns_ok (config (sample_env alive)) 0 [] [sample_turn]"
  by (simp add: sample_turn_def sample_env_def)


text \<open>What a recording's report makes of the holes \<open>end\<close> returns.\<close>

definition reported :: "run_env \<Rightarrow> run_state \<Rightarrow> hole list \<Rightarrow> hole list" where
  "reported env st result =
     (let checked = map (\<lambda>h. h\<lparr>corroborated := corroborates (corroboration st) (box h) (match_px (config env))\<rparr>) result;
          new = (if require env then filter corroborated checked else checked)
      in map (measure_hole (last_view st)) (map (\<lambda>h. h\<lparr>target := assign (last_view st) (pos h)\<rparr>) new))"

lemma report_recording:
  assumes "\<not> live env" "\<not> merge_displaced env" "end_run (config env) (pstate st) processed False = Inr (t, result)"
  shows "report_run env marks st processed = Inr \<lparr>holes = reported env st result, baseline = marks,
    residual = residuals st, lost_looks = length (lost (pstate st)), all_persisted = map hid result,
    published_holes = map (confirmed (last_view st) (wall_clock env)) (reported env st result)\<rparr>"
  unfolding report_run_def Let_def reported_def
  using assms by (simp only: sum.case prod.case if_True if_False simp_thms)

lemma reported_keys:
  "map hid (reported env st result) = map hid (filter (\<lambda>h. require env \<longrightarrow>
     corroborates (corroboration st) (box h) (match_px (config env))) result)"
  "map first_frame (reported env st result) = map first_frame (filter (\<lambda>h. require env \<longrightarrow>
     corroborates (corroboration st) (box h) (match_px (config env))) result)"
  by (simp_all add: reported_def Let_def comp_def filter_map)

lemma recording_run_ends:
  assumes persist: "0 \<le> persist (config env)" and live: "\<not> live env" and merge: "\<not> merge_displaced env"
    and us: "sorted_wrt (<) us" "\<forall>i\<in>set us. due (config env) i"
    and ok: "turns_ok (config env) 0 us turns"
    and passed: "\<forall>t\<in>set turns. index (the_look t) < processed"
    and st: "st = run_turns env (baseline_of env bl) (start_run us board_space bl) turns"
  shows "\<exists>r result. process_run env us board_space bl turns processed = Inr r \<and> holes r = reported env st result
    \<and> published_holes r = map (confirmed (last_view st) (wall_clock env)) (holes r)
    \<and> lost_looks r = length (lost (pstate st))
    \<and> sorted (map first_frame (holes r)) \<and> distinct (map hid (holes r))
    \<and> (\<forall>h\<in>set result. window_end (config env) (pstate st) (hid h) \<le> processed
         \<and> final_judge (config env) (pstate st) (hid h) = Some (h\<lparr>judged_frame := None\<rparr>))
    \<and> (\<forall>k. window_end (config env) (pstate st) k \<le> processed \<longrightarrow>
        (k \<in> hid ` set result \<longleftrightarrow> k < length (candidates (pstate st)) \<and> final_judge (config env) (pstate st) k \<noteq> None))"
proof -
  obtain p where p: "p \<le> processed" "live_inv env p st"
    using run_end [OF persist us ok passed st] by blast
  then have inv: "persist_inv (config env) p (pstate st)"
    by (simp add: live_inv_def)
  obtain t result where en: "end_run (config env) (pstate st) processed False = Inr (t, result)"
    and result: "sorted (map first_frame result)" "distinct (map hid result)"
      "\<forall>h\<in>set result. False \<or> window_end (config env) (pstate st) (hid h) \<le> processed"
      "\<forall>h\<in>set result. window_end (config env) (pstate st) (hid h) \<le> processed \<longrightarrow>
         final_judge (config env) (pstate st) (hid h) = Some (h\<lparr>judged_frame := None\<rparr>)"
      "\<forall>k. window_end (config env) (pstate st) k \<le> processed \<longrightarrow>
        (k \<in> hid ` set result \<longleftrightarrow> k < length (candidates (pstate st)) \<and> final_judge (config env) (pstate st) k \<noteq> None)"
    using end_run_result [OF inv persist p(1), of False] by (elim exE conjE) (rule that)
  have run: "process_run env us board_space bl turns processed = report_run env (baseline_of env bl) st processed"
    by (simp add: process_run_def st Let_def)
  have "sorted (map first_frame (reported env st result))" "distinct (map hid (reported env st result))"
    unfolding reported_keys using result(1,2) by (simp_all add: sorted_filter distinct_map_filter)
  note facts = this
  define r where "r = \<lparr>holes = reported env st result, baseline = baseline_of env bl,
    residual = residuals st, lost_looks = length (lost (pstate st)), all_persisted = map hid result,
    published_holes = map (confirmed (last_view st) (wall_clock env)) (reported env st result)\<rparr>"
  have "process_run env us board_space bl turns processed = Inr r" "holes r = reported env st result"
      "published_holes r = map (confirmed (last_view st) (wall_clock env)) (reported env st result)"
      "lost_looks r = length (lost (pstate st))"
    unfolding run report_recording [OF live merge en] r_def by (simp_all only: run_result.simps)
  moreover have "\<forall>h\<in>set result. window_end (config env) (pstate st) (hid h) \<le> processed
      \<and> final_judge (config env) (pstate st) (hid h) = Some (h\<lparr>judged_frame := None\<rparr>)"
    using result(3,4) by simp
  ultimately show ?thesis
    using result(5) facts
    by (intro exI [of _ r] exI [of _ result] conjI) (simp_all only: simp_thms)
qed

text \<open>Whether displaced sightings are merged or not, a recording's report is what follows of the holes kept.\<close>

lemma merge_keeps_some: "\<exists>P. fst (merge_displaced_tracks hs reference fraction) = filter P hs"
proof -
  have "\<exists>P. hs = filter P hs" by (intro exI [of _ "\<lambda>_. True"]) simp
  then show ?thesis
    by (auto simp: merge_displaced_tracks_def Let_def case_prod_unfold split: option.split list.split)
qed

lemma recording_run_measures:
  assumes persist: "0 \<le> persist (config env)" and live: "\<not> live env"
    and us: "sorted_wrt (<) us" "\<forall>i\<in>set us. due (config env) i"
    and ok: "turns_ok (config env) 0 us turns"
    and passed: "\<forall>t\<in>set turns. index (the_look t) < processed"
    and st: "st = run_turns env (baseline_of env bl) (start_run us board_space bl) turns"
  shows "\<exists>r. process_run env us board_space bl turns processed = Inr r
    \<and> sorted (map first_frame (holes r)) \<and> distinct (map hid (holes r))
    \<and> (\<forall>h\<in>set (holes r). target h = assign (last_view st) (pos h)
        \<and> mm h = (if target h = None then None else to_millimetres (last_view st) (pos h) (target h)))
    \<and> published_holes r = map (confirmed (last_view st) (wall_clock env)) (holes r)
    \<and> lost_looks r = length (lost (pstate st))"
proof -
  obtain p where p: "p \<le> processed" "live_inv env p st"
    using run_end [OF persist us ok passed st] by blast
  then have inv: "persist_inv (config env) p (pstate st)"
    by (simp add: live_inv_def)
  obtain t result where en: "end_run (config env) (pstate st) processed False = Inr (t, result)"
    and result: "sorted (map first_frame result)" "distinct (map hid result)"
    using end_run_result [OF inv persist p(1), of False] by (elim exE conjE) (rule that)
  define new where "new = (let checked = map (\<lambda>h. h\<lparr>corroborated := corroborates (corroboration st) (box h)
      (match_px (config env))\<rparr>) result in if require env then filter corroborated checked else checked)"
  define keep where "keep = (\<lambda>placed. if merge_displaced env
      then fst (merge_displaced_tracks placed (Some (outlines (last_view st))) MAX_DISPLACEMENT_FRACTION) else placed)"
  define placed where "placed = map (\<lambda>h. h\<lparr>target := assign (last_view st) (pos h)\<rparr>) new"
  have keys: "map hid placed = map hid (filter (\<lambda>h. require env \<longrightarrow>
      corroborates (corroboration st) (box h) (match_px (config env))) result)"
    "map first_frame placed = map first_frame (filter (\<lambda>h. require env \<longrightarrow>
      corroborates (corroboration st) (box h) (match_px (config env))) result)"
    by (simp_all add: placed_def new_def Let_def comp_def filter_map)
  have "\<exists>P. placed = filter P placed" by (rule exI [of _ "\<lambda>_. True"]) simp
  then obtain P where P: "keep placed = filter P placed"
    using merge_keeps_some [of placed] unfolding keep_def by (cases "merge_displaced env") auto
  have ends: "sorted (map first_frame (keep placed))" "distinct (map hid (keep placed))"
    unfolding P using result keys sorted_filter [of first_frame placed P]
    by (simp_all add: sorted_filter distinct_map_filter)
  define r where "r = \<lparr>holes = map (measure_hole (last_view st)) (keep placed), baseline = baseline_of env bl,
    residual = residuals st, lost_looks = length (lost (pstate st)), all_persisted = map hid result,
    published_holes = map (confirmed (last_view st) (wall_clock env)) (map (measure_hole (last_view st)) (keep placed))\<rparr>"
  have run: "process_run env us board_space bl turns processed = Inr r"
    unfolding process_run_def st [symmetric] report_run_def Let_def r_def keep_def placed_def new_def
    using en live by (simp only: sum.case prod.case if_False if_True simp_thms)
  have "\<forall>h\<in>set (keep placed). target h = assign (last_view st) (pos h)"
    unfolding P by (auto simp: placed_def)
  then show ?thesis
    using run ends by (intro exI [of _ r]) (simp add: r_def comp_def, simp add: measure_hole_def)
qed

text \<open>
  A recording's Run reports exactly the candidates of which the end of the window accepts the
  verdict and whose place, at their final position, some corroborated detection of the Run fell on
  (any, where Change Evidence is not required); and publishes each of them once, in the report's
  order.
\<close>

theorem recording_run_reports_the_window_verdicts:
  assumes persist: "0 \<le> persist (config env)" and live: "\<not> live env" and merge: "\<not> merge_displaced env"
    and us: "sorted_wrt (<) us" "\<forall>i\<in>set us. due (config env) i"
    and ok: "turns_ok (config env) 0 us turns"
    and passed: "\<forall>t\<in>set turns. index (the_look t) < processed"
    and st: "st = run_turns env (baseline_of env bl) (start_run us board_space bl) turns"
  shows "\<exists>r. process_run env us board_space bl turns processed = Inr r
    \<and> sorted (map first_frame (holes r)) \<and> distinct (map hid (holes r))
    \<and> published_holes r = map (confirmed (last_view st) (wall_clock env)) (holes r)
    \<and> (\<forall>k. k \<in> hid ` set (holes r) \<longleftrightarrow>
          k < length (candidates (pstate st)) \<and> window_end (config env) (pstate st) k \<le> processed
          \<and> (\<exists>h. final_judge (config env) (pstate st) k = Some h
               \<and> (require env \<longrightarrow> corroborates (corroboration st) (box h) (match_px (config env)))))"
proof -
  let ?we = "window_end (config env) (pstate st)" and ?fj = "final_judge (config env) (pstate st)"
  let ?corr = "\<lambda>h. corroborates (corroboration st) (box h) (match_px (config env))"
  obtain r result where run: "process_run env us board_space bl turns processed = Inr r" "holes r = reported env st result"
      "published_holes r = map (confirmed (last_view st) (wall_clock env)) (holes r)"
      "sorted (map first_frame (holes r))" "distinct (map hid (holes r))"
    and val: "\<forall>h\<in>set result. ?we (hid h) \<le> processed \<and> ?fj (hid h) = Some (h\<lparr>judged_frame := None\<rparr>)"
    and mem: "\<forall>k. ?we k \<le> processed \<longrightarrow>
        (k \<in> hid ` set result \<longleftrightarrow> k < length (candidates (pstate st)) \<and> ?fj k \<noteq> None)"
    using recording_run_ends [OF assms] by blast
  have "k \<in> hid ` set (holes r) \<longleftrightarrow> (\<exists>h\<in>set result. hid h = k \<and> (require env \<longrightarrow> ?corr h))" for k
    unfolding run(2) set_map [symmetric] reported_keys(1) by auto
  moreover have "(\<exists>h\<in>set result. hid h = k \<and> (require env \<longrightarrow> ?corr h))
      \<longleftrightarrow> k < length (candidates (pstate st)) \<and> ?we k \<le> processed
        \<and> (\<exists>h. ?fj k = Some h \<and> (require env \<longrightarrow> ?corr h))" for k
  proof
    assume "\<exists>h\<in>set result. hid h = k \<and> (require env \<longrightarrow> ?corr h)"
    then obtain h where h: "h \<in> set result" "hid h = k" "require env \<longrightarrow> ?corr h" by blast
    with val mem show "k < length (candidates (pstate st)) \<and> ?we k \<le> processed
        \<and> (\<exists>h. ?fj k = Some h \<and> (require env \<longrightarrow> ?corr h))" by auto
  next
    assume r: "k < length (candidates (pstate st)) \<and> ?we k \<le> processed
        \<and> (\<exists>h. ?fj k = Some h \<and> (require env \<longrightarrow> ?corr h))"
    then obtain h where h: "h \<in> set result" "hid h = k" using mem by auto
    with val r show "\<exists>h\<in>set result. hid h = k \<and> (require env \<longrightarrow> ?corr h)" by (intro bexI [of _ h]) auto
  qed
  ultimately show ?thesis
    using run(1,3-5) by (intro exI [of _ r] conjI allI) simp_all
qed

theorem recording_run_reports_the_window_verdicts_witness:
  "\<exists>r. process_run (sample_env False) [] sample_view [] [sample_turn] 2 = Inr r
     \<and> length (published_holes r) = length (holes r)"
  using recording_run_reports_the_window_verdicts
    [of "sample_env False" "[]" "[sample_turn]" 2 _ "[]" sample_view, OF _ _ _ _ _ _ _ refl]
    sample_turns_ok [of False]
  by (force simp: sample_env_def sample_cfg_def sample_turn_def)

section \<open>A Run that finishes\<close>

lemma take_look_not_opening:
  "map first_idx (candidates (take_look cfg s i pts False)) = map first_idx (candidates s)"
proof (cases pts)
  case (Some ps)
  let ?cs = "fold_look (candidates s) i ps (match_px cfg) False (closed_ids s)"
  have "grown i (closed_ids s) (candidates s) ?cs" by (rule grown_look)
  then have "map first_idx ?cs = map first_idx (candidates s)"
    by (intro nth_equalityI) (simp_all add: fold_look_not_opening grown_def)
  then show ?thesis by (simp add: take_look_def Some Let_def)
qed (simp add: take_look_def)

lemma add_not_opening:
  assumes "add_with_gap cfg s i pts False gap = (t, new)"
  shows "map first_idx (candidates t) = map first_idx (candidates s)"
proof -
  obtain s1 n1 where j1: "judge_due cfg s i (Some i) = (s1, n1)" by fastforce
  obtain s3 n2 where j2: "judge_due cfg (take_look cfg (s1\<lparr>unseen := unseen s1 @ gap\<rparr>) i pts False)
      (Suc i) None = (s3, n2)" by fastforce
  have "t = s3" using assms j1 j2 by (simp add: add_with_gap_def)
  then show ?thesis
    by (simp add: judge_due_fields(1) [OF j2] take_look_not_opening judge_due_fields(1) [OF j1])
qed

lemma add_with_gap_persisted:
  assumes "add_with_gap cfg s i pts opn gap = (t, new)"
  shows "persisted t = persisted s @ new"
proof -
  obtain s1 n1 where j1: "judge_due cfg s i (Some i) = (s1, n1)" by fastforce
  obtain s3 n2 where j2: "judge_due cfg (take_look cfg (s1\<lparr>unseen := unseen s1 @ gap\<rparr>) i pts opn)
      (Suc i) None = (s3, n2)" by fastforce
  have "t = s3" "new = n1 @ n2" using assms j1 j2 by (simp_all add: add_with_gap_def)
  moreover have "persisted (take_look cfg (s1\<lparr>unseen := unseen s1 @ gap\<rparr>) i pts opn) = persisted s1"
    by (simp add: take_look_def Let_def split: option.split)
  ultimately show ?thesis
    by (simp add: judge_due_fields(5) [OF j2] judge_due_fields(5) [OF j1])
qed

text \<open>The candidates and the waiting holes were first seen before frame \<open>q\<close>.\<close>

definition seen_before :: "nat \<Rightarrow> run_state \<Rightarrow> bool" where
  "seen_before q st \<longleftrightarrow> (\<forall>f\<in>set (map first_idx (candidates (pstate st))). f < q)
     \<and> (\<forall>h\<in>set (waiting (ann st)). first_frame h < q)"

lemma announce_fold_waiting:
  "(\<forall>h\<in>set (waiting a). first_frame h < q) \<Longrightarrow> (\<forall>h\<in>set hs. first_frame h < q)
    \<Longrightarrow> \<forall>h\<in>set (waiting (foldl (announce_one env v) a hs)). first_frame h < q"
proof (induction hs arbitrary: a)
  case (Cons h hs)
  have "\<forall>h\<in>set (waiting (announce_one env v a h)). first_frame h < q"
    using Cons.prems by (auto simp: announce_one_def Let_def)
  then show ?case using Cons.IH [of "announce_one env v a h"] Cons.prems(2) by simp
qed simp

lemma announce_waiting:
  assumes "\<forall>h\<in>set (waiting a). first_frame h < q" "\<forall>h\<in>set new. first_frame h < q"
  shows "\<forall>h\<in>set (waiting (announce env v s corr a new corroborating)). first_frame h < q"
  unfolding announce_def Let_def by (rule announce_fold_waiting) (use assms in auto)

lemma one_turn_seen_before:
  assumes inv: "live_inv env p st" and persist: "0 \<le> persist (config env)"
    and ok: "turns_ok (config env) p (unseen (pstate st)) (t # ts)"
    and st': "one_turn env marks st t = (st', new)"
    and wait: "\<forall>h\<in>set (waiting (ann st)). first_frame h < q"
    and cands: "\<forall>f\<in>set (map first_idx (candidates (pstate st'))). f < q"
  shows "seen_before q st'"
proof -
  have inv': "live_inv env (Suc (index (the_look t))) st'"
    by (rule one_turn_inv [OF inv persist ok st'])
  obtain pts where add: "add_with_gap (config env) ((pstate st)\<lparr>unseen := unseen (pstate st) @ gap_before t\<rparr>)
      (index (the_look t)) pts (\<not> finishing t) (gap_during t) = (pstate st', new)"
    using one_turn_add [of env st t marks] st' by auto
  have "first_frame h < q" if "h \<in> set new" for h
  proof -
    have "h \<in> set (persisted (pstate st'))"
      using add_with_gap_persisted [OF add] that by simp
    then have "hid h < length (candidates (pstate st'))" "hole_of (pstate st') h"
      using inv' ids_in_range(2) [of "pstate st'" h]
      by (auto simp: live_inv_def persist_inv_def decided_ok_def)
    then show ?thesis using cands by (simp add: hole_of_def)
  qed
  then have "\<forall>h\<in>set (waiting (ann st')). first_frame h < q"
    using one_turn_ann [of env marks st t] st' announce_waiting [OF wait, of new] wait by simp
  then show ?thesis using cands by (simp add: seen_before_def)
qed

lemma finishing_turn:
  assumes inv: "live_inv env p st" and persist: "0 \<le> persist (config env)"
    and ok: "turns_ok (config env) p (unseen (pstate st)) (t # ts)"
    and st': "one_turn env marks st t = (st', new)" and fin: "finishing t"
    and bound: "seen_before q st"
  shows "seen_before q st'"
    and "map first_idx (candidates (pstate st')) = map first_idx (candidates (pstate st))"
proof -
  obtain pts where add: "add_with_gap (config env) ((pstate st)\<lparr>unseen := unseen (pstate st) @ gap_before t\<rparr>)
      (index (the_look t)) pts False (gap_during t) = (pstate st', new)"
    using one_turn_add [of env st t marks] st' fin by auto
  show same: "map first_idx (candidates (pstate st')) = map first_idx (candidates (pstate st))"
    using add_not_opening [OF add] by simp
  show "seen_before q st'"
    by (rule one_turn_seen_before [OF inv persist ok st']) (use bound same in \<open>simp_all add: seen_before_def\<close>)
qed

text \<open>Once every window it knows of has passed, a finishing Run stops.\<close>

lemma finished_stops:
  assumes "seen_before q st'" and "open_ok (config env) (Suc (index (the_look t))) (pstate st')"
    and ids: "ids_ok (pstate st')" and fin: "finishing t"
    and late: "q + window (config env) \<le> index (the_look t) + 2"
  shows "stops env st' t"
proof -
  have "\<not> k \<in> set (open_ids (pstate st'))" for k
  proof
    assume k: "k \<in> set (open_ids (pstate st'))"
    then have "first_idx (candidates (pstate st') ! k) < q"
      using assms(1) ids_in_range(1) [OF ids k] by (simp add: seen_before_def)
    moreover have "Suc (index (the_look t)) < window_end (config env) (pstate st') k"
      using assms(2) k by (simp add: open_ok_def)
    ultimately show False using late by (simp add: window_end_def)
  qed
  then have "open_ids (pstate st') = []"
    by (cases "open_ids (pstate st')") auto
  moreover have "\<not> holding env (ann st') (index (the_look t))"
    using assms(1) late by (force simp: seen_before_def holding_def)
  ultimately show ?thesis
    using fin by (simp add: stops_def unjudged_def)
qed

lemma finishing_run:
  assumes "live_inv env p st" and persist: "0 \<le> persist (config env)"
    and "turns_ok (config env) p (unseen (pstate st)) (ts @ t # rest)"
    and "\<forall>u\<in>set ts. finishing u" "finishing t" "seen_before q st"
    and late: "q + window (config env) \<le> index (the_look t) + 2"
  shows "run_turns env marks st (ts @ t # rest) = run_turns env marks st (ts @ [t])
    \<and> unjudged (pstate (run_turns env marks st (ts @ t # rest))) = 0
    \<and> map first_idx (candidates (pstate (run_turns env marks st (ts @ t # rest))))
        = map first_idx (candidates (pstate st))"
  using assms(1,3-6)
proof (induction ts arbitrary: p st)
  case Nil
  obtain st' new where st': "one_turn env marks st t = (st', new)" by fastforce
  have ok: "turns_ok (config env) p (unseen (pstate st)) (t # rest)" using Nil.prems(2) by simp
  note f = finishing_turn [OF Nil.prems(1) persist ok st' Nil.prems(4,5)]
  note o = one_turn_persist [OF _ persist ok st']
  have "open_ok (config env) (Suc (index (the_look t))) (pstate st')" "ids_ok (pstate st')"
    using o(1,2) Nil.prems(1) by (auto simp: live_inv_def persist_inv_def)
  then have "stops env st' t"
    by (intro finished_stops [OF f(1)] Nil.prems(4) late)
  then show ?case
    using st' f(2) by (simp add: Let_def stops_def)
next
  case (Cons u ts)
  obtain st' new where st': "one_turn env marks st u = (st', new)" by fastforce
  have ok: "turns_ok (config env) p (unseen (pstate st)) (u # ts @ t # rest)" using Cons.prems(2) by simp
  have "finishing u" using Cons.prems(3) by simp
  note f = finishing_turn [OF Cons.prems(1) persist ok st' this Cons.prems(5)]
  have inv': "live_inv env (Suc (index (the_look u))) st'"
    by (rule one_turn_inv [OF Cons.prems(1) persist ok st'])
  have ok': "turns_ok (config env) (Suc (index (the_look u))) (unseen (pstate st')) (ts @ t # rest)"
    using one_turn_persist(4) [OF _ persist ok st'] Cons.prems(1) by (simp add: live_inv_def)
  show ?case
  proof (cases "stops env st' u")
    case True
    then show ?thesis using st' f(2) by (simp add: Let_def stops_def)
  next
    case False
    have "\<forall>u\<in>set ts. finishing u" using Cons.prems(3) by simp
    note ih = Cons.IH [OF inv' ok' this Cons.prems(4) f(1)]
    show ?thesis
      unfolding append_Cons run_turns.simps Let_def st' fst_conv f(2) [symmetric]
      using conjunct1 [OF ih] conjunct2 [OF ih] False by (simp only: if_False simp_thms)
  qed
qed

text \<open>Turns read before \<open>finish\<close> was called never stop the loop.\<close>

lemma run_turns_open:
  assumes "live_inv env p st" and persist: "0 \<le> persist (config env)"
    and "turns_ok (config env) p (unseen (pstate st)) (ts @ ts')"
    and "\<forall>u\<in>set ts. \<not> finishing u" "\<forall>u\<in>set ts. index (the_look u) < q" "p \<le> q"
    and "\<forall>h\<in>set (waiting (ann st)). first_frame h < q"
  shows "\<exists>p'. live_inv env p' (run_turns env marks st ts) \<and> p' \<le> q
    \<and> turns_ok (config env) p' (unseen (pstate (run_turns env marks st ts))) ts'
    \<and> run_turns env marks st (ts @ ts') = run_turns env marks (run_turns env marks st ts) ts'
    \<and> seen_before q (run_turns env marks st ts)"
  using assms(1,3-7)
proof (induction ts arbitrary: p st)
  case Nil
  have "candidates_ok p (pstate st)"
    using Nil.prems(1) by (simp add: live_inv_def persist_inv_def)
  then have "\<forall>f\<in>set (map first_idx (candidates (pstate st))). f < q"
    using Nil.prems(5) by (auto simp: candidates_ok_def)
  then show ?case
    using Nil.prems by (intro exI [of _ p]) (simp add: seen_before_def)
next
  case (Cons u ts)
  obtain st' new where st': "one_turn env marks st u = (st', new)" by fastforce
  have ok: "turns_ok (config env) p (unseen (pstate st)) (u # ts @ ts')" using Cons.prems(2) by simp
  have inv': "live_inv env (Suc (index (the_look u))) st'"
    by (rule one_turn_inv [OF Cons.prems(1) persist ok st'])
  have ok': "turns_ok (config env) (Suc (index (the_look u))) (unseen (pstate st')) (ts @ ts')"
    using one_turn_persist(4) [OF _ persist ok st'] Cons.prems(1) by (simp add: live_inv_def)
  have le: "Suc (index (the_look u)) \<le> q" and open_turns: "\<forall>u\<in>set ts. \<not> finishing u"
    "\<forall>u\<in>set ts. index (the_look u) < q" "\<not> stops env st' u"
    using Cons.prems(3,4) by (auto simp: stops_def)
  have "\<forall>f\<in>set (map first_idx (candidates (pstate st'))). f < q"
    using inv' le by (auto simp: live_inv_def persist_inv_def candidates_ok_def)
  then have "seen_before q st'"
    by (rule one_turn_seen_before [OF Cons.prems(1) persist ok st' Cons.prems(6)])
  then have "\<forall>h\<in>set (waiting (ann st')). first_frame h < q"
    by (simp add: seen_before_def)
  from Cons.IH [OF inv' ok' open_turns(1,2) le this] show ?case
    using open_turns(3) st' by (simp add: Let_def)
qed

text \<open>
  C11. A Run that finishes ends by itself. Once \<open>finish\<close> has been called with \<open>q\<close> frames passed, no
  Look opens a candidate, and the loop stops at the latest at the first Look one persistence window
  on, whatever Looks are still to come; then every candidate has been judged.
\<close>

theorem finishing_run_stops:
  assumes persist: "0 \<le> persist (config env)"
    and us: "sorted_wrt (<) us" "\<forall>i\<in>set us. due (config env) i"
    and ok: "turns_ok (config env) 0 us (ts @ late_ts @ t # rest)"
    and before_finish: "\<forall>u\<in>set ts. \<not> finishing u \<and> index (the_look u) < q"
    and after: "\<forall>u\<in>set late_ts. finishing u" "finishing t"
    and late: "q + window (config env) \<le> index (the_look t) + 2"
    and st0: "st0 = start_run us board_space bl"
  shows "run_turns env marks st0 (ts @ late_ts @ t # rest) = run_turns env marks st0 (ts @ late_ts @ [t])
    \<and> unjudged (pstate (run_turns env marks st0 (ts @ late_ts @ t # rest))) = 0
    \<and> length (candidates (pstate (run_turns env marks st0 (ts @ late_ts @ t # rest))))
        = length (candidates (pstate (run_turns env marks st0 ts)))"
proof -
  let ?st = "run_turns env marks st0 ts"
  have st: "live_inv env 0 st0" "unseen (pstate st0) = us" "waiting (ann st0) = []"
    unfolding st0 by (rule start_run_inv [OF us])
      (simp_all add: start_run_def new_persistence_def no_announcements_def)
  have reach: "\<exists>p. live_inv env p ?st \<and> p \<le> q \<and> turns_ok (config env) p (unseen (pstate ?st)) ts'
      \<and> run_turns env marks st0 (ts @ ts') = run_turns env marks ?st ts' \<and> seen_before q ?st"
    if "turns_ok (config env) 0 us (ts @ ts')" for ts'
    by (rule run_turns_open [OF st(1) persist]) (use st that before_finish in auto)
  obtain p where p: "live_inv env p ?st" "turns_ok (config env) p (unseen (pstate ?st)) (late_ts @ t # rest)"
    "run_turns env marks st0 (ts @ late_ts @ t # rest) = run_turns env marks ?st (late_ts @ t # rest)"
    "seen_before q ?st"
    using reach [OF ok] by blast
  have prefix_ok: "turns_ok cfg p us (xs @ y # ys) \<Longrightarrow> turns_ok cfg p us (xs @ [y])"
    for cfg p us xs ys y
    by (induction xs arbitrary: p us) (auto simp: Let_def)
  have "turns_ok (config env) 0 us (ts @ late_ts @ [t])"
    using prefix_ok [of _ _ _ "ts @ late_ts" t rest] ok by simp
  then have short: "run_turns env marks st0 (ts @ late_ts @ [t]) = run_turns env marks ?st (late_ts @ [t])"
    using reach by blast
  note f = finishing_run [OF p(1) persist p(2) after p(4) late]
  show ?thesis
    unfolding p(3) short using f by (metis length_map)
qed

definition finish_turn :: "nat \<Rightarrow> turn" where
  "finish_turn i = \<lparr>gap_before = [], gap_during = [], finishing = True,
     the_look = \<lparr>index = i, view = None, detections = [], changed = (\<lambda>_. False)\<rparr>\<rparr>"

theorem finishing_run_stops_witness:
  "unjudged (pstate (run_turns (sample_env True) [] (start_run [] sample_view [])
     [sample_turn, finish_turn 2, finish_turn 3])) = 0"
proof -
  have sel: "config (sample_env True) = sample_cfg 1" "persist (sample_cfg 1) = 1 / 2"
    "window (sample_cfg 1) = 1" "index (the_look sample_turn) = 1" "\<not> finishing sample_turn"
    "index (the_look (finish_turn i)) = i" "finishing (finish_turn i)" for i
    by (simp_all add: sample_env_def sample_cfg_def sample_turn_def finish_turn_def)
  have "turns_ok (config (sample_env True)) 0 [] ([sample_turn] @ [] @ finish_turn 2 # [finish_turn 3])"
    by (simp add: sel) (simp add: sample_turn_def finish_turn_def)
  from finishing_run_stops [OF _ _ _ this, of 2 _ sample_view "[]" "[]", OF _ _ _ _ _ _ _ refl, THEN conjunct2, THEN conjunct1]
  show ?thesis by (simp add: sel del: run_turns.simps One_nat_def)
qed

end
