(* ===== verification/Footage.thy ===== *)
theory Footage
  imports Persistence_Runs
begin

text \<open>
  The two sources of frames (\<open>ImageRecognitionService/detection/new_bullet_holes.py\<close>): \<open>Recording\<close>,
  a file read from a start, and \<open>Stream\<close>, a live stream read on a thread of its own. Both hand over
  the frames a Look is due on and skip the others; a Stream also places its frames by their timestamps
  and reports the due frames it missed.

  OpenCV's capture is the list of outcomes of its calls: the images left in the file, or for a
  Stream what each \<open>grab\<close> did (its timestamp in milliseconds, the wall clock after it, how long it
  waited and whether \<open>retrieve\<close> decodes it). Times are real numbers of seconds. What is logged and
  printed is not modelled, nor the Frame Wait, which is only measured.
\<close>

section \<open>Recording\<close>

record 'img recording =
  left :: "'img list"
  fps :: real
  start_s :: real
  passed :: nat
  wanted :: nat
  r_stride :: nat
  r_baseline :: nat

definition open_recording :: "'img list \<Rightarrow> real \<Rightarrow> real \<Rightarrow> (string + 'img recording \<times> 'img)" where
  "open_recording from_start f s =
     (case from_start of
        [] \<Rightarrow> Inl ''cannot read''
      | base # others \<Rightarrow> Inr (\<lparr>left = others, fps = f, start_s = s, passed = 0, wanted = 0, r_stride = 1,
                            r_baseline = 0\<rparr>, base))"

definition start_recording :: "'img recording \<Rightarrow> nat \<Rightarrow> nat \<Rightarrow> nat \<Rightarrow> 'img recording" where
  "start_recording r n_frames every n_base =
     r\<lparr>wanted := n_frames, r_stride := every, r_baseline := n_base,
       passed := if n_frames > 0 then 1 else 0\<rparr>"

text \<open>The loop of \<open>read\<close>: it ends because every turn takes a frame off the file.\<close>

function read_recording :: "'img recording \<Rightarrow> (nat \<times> 'img) option \<times> 'img recording" where
  "read_recording r =
     (if passed r < wanted r
      then case left r of
             [] \<Rightarrow> (None, r)
           | img # others \<Rightarrow>
               let r' = r\<lparr>left := others, passed := passed r + 1\<rparr>
               in if looked_at_frame (passed r) (r_stride r) (r_baseline r)
                  then (Some (passed r, img), r')
                  else read_recording r'
      else (None, r))"
  by pat_completeness auto

termination by (relation "measure (\<lambda>r. length (left r))") auto

declare read_recording.simps [simp del]

lemma read_recording_takes:
  "read_recording r = (Some f, r') \<Longrightarrow> length (left r') < length (left r)"
proof (induction r rule: read_recording.induct)
  case (1 r)
  then show ?case
    by (subst (asm) (2) read_recording.simps)
      (fastforce simp: Let_def split: if_splits list.splits)
qed

text \<open>Seconds into the Recording of a frame: what \<open>when\<close> prints and \<open>wall_clock\<close> adds.\<close>

definition recording_time :: "'img recording \<Rightarrow> nat \<Rightarrow> real" where
  "recording_time r i = start_s r + real i / fps r"

text \<open>\<open>frames_from\<close>: frame 0 first, then what \<open>read\<close> hands over until it hands None.\<close>

function read_all :: "'img recording \<Rightarrow> (nat \<times> 'img) list \<times> 'img recording" where
  "read_all r = (case read_recording r of
     (None, r') \<Rightarrow> ([], r')
   | (Some f, r') \<Rightarrow> (let (fs, r'') = read_all r' in (f # fs, r'')))"
  by pat_completeness auto
termination
  by (relation "measure (\<lambda>r. length (left r))") (auto dest: read_recording_takes [OF sym])

declare read_all.simps [simp del]

definition recording_frames ::
  "'img recording \<Rightarrow> 'img \<Rightarrow> nat \<Rightarrow> nat \<Rightarrow> nat \<Rightarrow> (nat \<times> 'img) list \<times> 'img recording" where
  "recording_frames r base n_frames every n_base =
     (let (fs, r') = read_all (start_recording r n_frames every n_base)
      in ((if n_frames > 0 then [(0, base)] else []) @ fs, r'))"

text \<open>What one \<open>read\<close> does, and what reading to the end gives.\<close>

lemma read_all_frames:
  "fst (read_all r) = filter (\<lambda>f. looked_at_frame (fst f) (r_stride r) (r_baseline r))
      (take (wanted r - passed r) (enumerate (passed r) (left r)))
   \<and> passed (snd (read_all r)) = max (passed r) (min (wanted r) (passed r + length (left r)))"
proof (induction "length (left r)" arbitrary: r rule: less_induct)
  case less
  show ?case
  proof (cases "passed r < wanted r \<and> left r \<noteq> []")
    case False
    then have "read_recording r = (None, r)"
      by (subst read_recording.simps) (auto split: list.split)
    with False show ?thesis
      by (subst (1 2) read_all.simps) auto
  next
    case True
    then obtain img others where left: "left r = img # others" by (cases "left r") auto
    define r' where "r' = r\<lparr>left := others, passed := passed r + 1\<rparr>"
    have "length (left r') < length (left r)" by (simp add: r'_def left)
    note IH = less.hyps [OF this]
    have n: "wanted r - passed r = Suc (wanted r - Suc (passed r))" using True by linarith
    show ?thesis
    proof (cases "looked_at_frame (passed r) (r_stride r) (r_baseline r)")
      case due: True
      then have "read_recording r = (Some (passed r, img), r')"
        using True left by (subst read_recording.simps) (simp add: r'_def)
      then have "read_all r = ((passed r, img) # fst (read_all r'), snd (read_all r'))"
        by (subst read_all.simps) (simp add: case_prod_beta)
      then show ?thesis
        using IH due True by (simp add: left r'_def n)
    next
      case gap: False
      then have "read_recording r = read_recording r'"
        using True left by (subst read_recording.simps) (simp add: r'_def)
      then have "read_all r = read_all r'"
        by (subst (1 2) read_all.simps) simp
      then show ?thesis
        using IH gap True by (simp add: left r'_def n)
    qed
  qed
qed

lemma recording_frames_due:
  assumes "0 < n_frames"
  shows "fst (recording_frames r base n_frames every n_base)
      = filter (\<lambda>f. fst f = 0 \<or> looked_at_frame (fst f) every n_base)
          (take n_frames (enumerate 0 (base # left r)))
    \<and> passed (snd (recording_frames r base n_frames every n_base))
      = min n_frames (length (base # left r))"
proof -
  let ?r = "start_recording r n_frames every n_base"
  have sel: "left ?r = left r" "passed ?r = 1" "wanted ?r = n_frames" "r_stride ?r = every"
    "r_baseline ?r = n_base"
    using assms by (simp_all add: start_recording_def)
  have "filter (\<lambda>f. looked_at_frame (fst f) every n_base) (take n (enumerate 1 xs))
      = filter (\<lambda>f. fst f = 0 \<or> looked_at_frame (fst f) every n_base)
          (take n (enumerate 1 xs))" for n and xs :: "'a list"
    by (rule filter_cong) (auto simp: in_set_enumerate_eq dest!: in_set_takeD)
  note frames = this
  obtain m where m: "n_frames = Suc m" using assms by (cases n_frames) auto
  show ?thesis
    using read_all_frames [of ?r] frames [of m "left r"] unfolding recording_frames_def sel
    by (simp add: m case_prod_beta)
qed

text \<open>
  A Recording hands over exactly the due frames among the first wanted ones the file holds, each
  with its own image and in order, frame 0 first; and in the end it has passed every frame wanted
  that the file holds, the gaps after the last due frame included.
\<close>

theorem recording_hands_over_the_due_frames:
  assumes "0 < n_frames"
  shows "fst (recording_frames r base n_frames every n_base)
      = filter (\<lambda>f. fst f = 0 \<or> looked_at_frame (fst f) every n_base)
          (take n_frames (enumerate 0 (base # left r)))
    \<and> passed (snd (recording_frames r base n_frames every n_base))
      = min n_frames (length (base # left r))"
  using assms by (rule recording_frames_due)

theorem recording_hands_over_the_due_frames_witness:
  "map fst (fst (recording_frames \<lparr>left = ''bcdefghi'', fps = 25, start_s = 0, passed = 0, wanted = 0,
       r_stride = 1, r_baseline = 0\<rparr> (CHR ''a'') 8 4 2)) = [0, 1, 4]"
  using recording_hands_over_the_due_frames
    [of 8 "\<lparr>left = ''bcdefghi'', fps = 25, start_s = 0, passed = 0, wanted = 0, r_stride = 1,
            r_baseline = 0\<rparr>" "CHR ''a''" 4 2]
  by (simp add: looked_at_frame_def)

end
