(* ===== verification/Frame_Source.thy ===== *)
theory Frame_Source
  imports Footage
begin

text \<open>
  What \<open>Persistence\<close> asks of a source of frames, as the history of what the source handed over and
  reported missing, newest first; and what it then guarantees. A Recording and a Stream
  (\<open>Live_Stream\<close>) are shown to be such sources.
\<close>

section \<open>The history of a source\<close>

datatype event = Handed nat | Missed "nat list"

fun handed_in :: "event list \<Rightarrow> nat list" where
  "handed_in [] = []"
| "handed_in (Handed i # es) = handed_in es @ [i]"
| "handed_in (Missed gap # es) = handed_in es"

fun missed_in :: "event list \<Rightarrow> nat list" where
  "missed_in [] = []"
| "missed_in (Handed i # es) = missed_in es"
| "missed_in (Missed gap # es) = missed_in es @ gap"

text \<open>
  Frame 0 was read when the source was opened, so the frame handed over as the \<open>n\<close>-th is the
  \<open>n\<close>-th past it; from the \<open>n_base\<close>-th on they are past the baseline, and due.
\<close>

fun history_ok :: "nat \<Rightarrow> nat \<Rightarrow> event list \<Rightarrow> bool" where
  "history_ok every n_base [] \<longleftrightarrow> True"
| "history_ok every n_base (Handed i # es) \<longleftrightarrow> history_ok every n_base es
     \<and> 0 < i \<and> (\<forall>j\<in>set (handed_in es). j < i) \<and> i \<notin> set (missed_in es)
     \<and> (n_base \<le> length (handed_in es) + 1 \<longrightarrow> looked_at_frame i every n_base)"
| "history_ok every n_base (Missed gap # es) \<longleftrightarrow> history_ok every n_base es
     \<and> sorted_wrt (<) (missed_in es @ gap)
     \<and> (\<forall>f\<in>set gap. looked_at_frame f every n_base \<and> (\<forall>j\<in>set (handed_in es). j < f))"

text \<open>
  \<open>Persistence\<close> as the loop and the source's thread drive it along a history: the loop is at its frame
  \<open>Some i\<close> from the moment it was handed over until \<open>add\<close> has taken the Look (whatever that saw), or at
  none; the thread reports missing frames busy any moment, also while the loop is looking, and inside
  \<open>add\<close> between its two judgements. The baseline's frames are not added.
\<close>

inductive feeds :: "persist_config \<Rightarrow> event list \<Rightarrow> nat option \<Rightarrow> persist_run \<Rightarrow> bool" for cfg where
  feeds_start: "feeds cfg [] None (0, new_persistence [], [])"
| feeds_baseline: "feeds cfg es None r \<Longrightarrow> length (handed_in es) + 1 < baseline_frames cfg
    \<Longrightarrow> feeds cfg (Handed i # es) None r"
| feeds_handed: "feeds cfg es None r \<Longrightarrow> baseline_frames cfg \<le> length (handed_in es) + 1
    \<Longrightarrow> feeds cfg (Handed i # es) (Some i) r"
| feeds_missed: "feeds cfg es busy (p, s, told)
    \<Longrightarrow> feeds cfg (Missed gap # es) busy (p, s\<lparr>unseen := unseen s @ gap\<rparr>, told)"
| feeds_looked: "feeds cfg es (Some i) (p, s, told) \<Longrightarrow> add cfg s i pts opns = (t, new)
    \<Longrightarrow> feeds cfg es None (Suc i, t, told @ map hid new)"
| feeds_looked_beside: "feeds cfg es (Some i) (p, s, told) \<Longrightarrow> add_with_gap cfg s i pts opns gap = (t, new)
    \<Longrightarrow> feeds cfg (Missed gap # es) None (Suc i, t, told @ map hid new)"

lemma add_unseen: "add_with_gap cfg s i pts opns gap = (t, new) \<Longrightarrow> unseen t = unseen s @ gap"
proof -
  assume add: "add_with_gap cfg s i pts opns gap = (t, new)"
  obtain s1 n1 where j1: "judge_due cfg s i (Some i) = (s1, n1)" by fastforce
  obtain s3 n2 where j2: "judge_due cfg (take_look cfg (s1\<lparr>unseen := unseen s1 @ gap\<rparr>) i pts opns)
      (Suc i) None = (s3, n2)" by fastforce
  have "t = s3" using add j1 j2 by (simp add: add_with_gap_def)
  moreover have "unseen (take_look cfg (s1\<lparr>unseen := unseen s1 @ gap\<rparr>) i pts opns) = unseen s1 @ gap"
    by (simp add: take_look_def Let_def split: option.split)
  ultimately show ?thesis
    by (simp add: judge_due_fields(4) [OF j2] judge_due_fields(4) [OF j1])
qed

text \<open>Where a driven \<open>Persistence\<close> is: what it reached, what it was told missing, and the loop's frame.\<close>

definition driven :: "persist_config \<Rightarrow> event list \<Rightarrow> nat option \<Rightarrow> persist_run \<Rightarrow> bool" where
  "driven cfg es busy = (\<lambda>(p, s, told). reach (persist_start cfg) (persist_step cfg) (p, s, told)
     \<and> unseen s = missed_in es
     \<and> (case busy of
          None \<Rightarrow> p = 0 \<or> (\<exists>j\<in>set (handed_in es). p = Suc j)
        | Some i \<Rightarrow> i \<in> set (handed_in es) \<and> p \<le> i \<and> due cfg i \<and> i \<notin> set (missed_in es)))"

lemma driven_looked:
  assumes d: "driven cfg es (Some i) (p, s, told)" and gap: "reportable cfg (Suc i) s gap"
    and add: "add_with_gap cfg s i pts opns gap = (t, new)"
  shows "driven cfg (Missed gap # es) None (Suc i, t, told @ map hid new)"
proof -
  have run: "reach (persist_start cfg) (persist_step cfg) (p, s, told)" and un: "unseen s = missed_in es"
    and i: "i \<in> set (handed_in es)" "p \<le> i" "due cfg i" "i \<notin> set (unseen s)"
    using d by (simp_all add: driven_def)
  from reach_step [OF run look_step [OF i(2-4) gap add]] show ?thesis
    using un i(1) add_unseen [OF add] by (auto simp: driven_def)
qed

lemma feeds_driven:
  assumes persist: "0 \<le> persist cfg"
  shows "feeds cfg es busy r \<Longrightarrow> history_ok (stride cfg) (baseline_frames cfg) es \<Longrightarrow> driven cfg es busy r"
proof (induction rule: feeds.induct)
  case feeds_start
  have "persist_start cfg (0, new_persistence [], [])"
    using persist by (auto simp: persist_start_def)
  then show ?case by (simp add: driven_def new_persistence_def reach_init)
next
  case (feeds_baseline es r i)
  then show ?case by (auto simp: driven_def)
next
  case (feeds_handed es r i)
  obtain p s told where r: "r = (p, s, told)" by (cases r)
  show ?case using feeds_handed by (auto simp: r driven_def due_def Suc_le_eq)
next
  case (feeds_missed es busy p s told gap)
  then have d: "driven cfg es busy (p, s, told)" by simp
  then have "reportable cfg p s gap"
    using feeds_missed.prems by (cases busy) (fastforce simp: driven_def reportable_def due_def Suc_le_eq)+
  moreover have "reach (persist_start cfg) (persist_step cfg) (p, s, told)" using d by (simp add: driven_def)
  ultimately have "reach (persist_start cfg) (persist_step cfg) (p, s\<lparr>unseen := unseen s @ gap\<rparr>, told)"
    by (blast intro: reach_step gap_step)
  moreover have "i \<notin> set gap" if "busy = Some i" for i
    using feeds_missed.prems d that by (auto simp: driven_def)
  ultimately show ?case using d by (cases busy) (auto simp: driven_def)
next
  case (feeds_looked es i p s told pts opns t new)
  then have d: "driven cfg es (Some i) (p, s, told)" by simp
  moreover have "reportable cfg (Suc i) s []"
    using d persist_runs.reach_inv frames_okD(3) [of cfg p s]
    by (fastforce simp: driven_def reportable_def run_inv_def persist_inv_def)
  ultimately show ?case
    using driven_looked [of cfg es i p s told "[]"] feeds_looked.hyps(2) by (simp add: driven_def add_def)
next
  case (feeds_looked_beside es i p s told pts opns gap t new)
  then have d: "driven cfg es (Some i) (p, s, told)" by simp
  moreover have "reportable cfg (Suc i) s gap"
    using d feeds_looked_beside.prems by (auto simp: driven_def reportable_def due_def Suc_le_eq)
  ultimately show ?case using feeds_looked_beside.hyps(2) by (rule driven_looked)
qed

lemma feeds_reach:
  "0 \<le> persist cfg \<Longrightarrow> history_ok (stride cfg) (baseline_frames cfg) es \<Longrightarrow> feeds cfg es busy r \<Longrightarrow>
    reach (persist_start cfg) (persist_step cfg) r"
  using feeds_driven [of cfg es busy r] by (cases r) (simp add: driven_def)

section \<open>The interface\<close>

text \<open>
  A source is known by its runs and the history of each; \<open>every\<close> and \<open>n_base\<close> are the stride and
  the baseline's frames the run was started with.
\<close>

locale frame_source =
  fixes runs :: "'s \<Rightarrow> bool"
    and history :: "'s \<Rightarrow> event list"
    and every :: "'s \<Rightarrow> nat"
    and n_base :: "'s \<Rightarrow> nat"
  assumes history_ok: "runs s \<Longrightarrow> history_ok (every s) (n_base s) (history s)"
begin

lemma feeds_persistence:
  assumes "runs s" "0 \<le> persist cfg" "stride cfg = every s" "baseline_frames cfg = n_base s"
    and "feeds cfg (history s) busy r"
  shows "reach (persist_start cfg) (persist_step cfg) r"
  using feeds_reach [OF assms(2) _ assms(5)] history_ok [OF assms(1)] assms(3,4) by simp

text \<open>So \<open>end\<close> never fails its assertion on what the source handed over.\<close>

lemma end_succeeds:
  assumes "runs s" "0 \<le> persist cfg" "stride cfg = every s" "baseline_frames cfg = n_base s"
    and "feeds cfg (history s) busy (p, q, told)" "p \<le> processed"
  shows "\<exists>t result. end_run cfg q processed alive = Inr (t, result)
    \<and> sorted (map first_frame result) \<and> distinct (map hid result) \<and> (alive \<longrightarrow> set told \<subseteq> hid ` set result)"
proof -
  have "run_inv cfg (p, q, told)"
    using persist_runs.reach_inv [OF feeds_persistence [OF assms(1-5)]] by simp
  then have inv: "persist_inv cfg p q" "told = map hid (persisted q)"
    by (simp_all add: run_inv_def)
  obtain t result where "end_run cfg q processed alive = Inr (t, result)"
    "sorted (map first_frame result)" "distinct (map hid result)"
    "alive \<longrightarrow> hid ` set (persisted q) \<subseteq> hid ` set result"
    using end_run_result [OF inv(1) assms(2,6), of alive] by (elim exE conjE) (rule that)
  then show ?thesis using inv(2) by auto
qed

end

section \<open>A Recording is a source\<close>

text \<open>A recording's run: the file, and what \<open>start\<close> was given.\<close>

definition recording_history :: "'img recording \<times> nat \<times> nat \<times> nat \<Rightarrow> event list" where
  "recording_history = (\<lambda>(r, n, every, n_base).
     map Handed (rev (map fst (fst (read_all (start_recording r n every n_base))))))"

lemma handed_in_map [simp]: "handed_in (map Handed xs) = rev xs"
  by (induction xs) auto

lemma missed_in_map [simp]: "missed_in (map Handed xs) = []"
  by (induction xs) auto

lemma history_ok_handed:
  "sorted_wrt (<) is \<Longrightarrow> (\<forall>i\<in>set is. 0 < i \<and> looked_at_frame i every n_base)
    \<Longrightarrow> history_ok every n_base (map Handed (rev is))"
  by (induction "is" rule: rev_induct) (auto simp: sorted_wrt_append)

lemma sorted_wrt_enumerate_filter:
  "sorted_wrt (<) (map fst (filter P (take n (enumerate k xs))))"
proof -
  have "sorted_wrt (\<lambda>a b. fst a < fst b) (enumerate k xs)"
    by (simp add: sorted_wrt_iff_nth_less nth_enumerate_eq)
  then have "sorted_wrt (\<lambda>a b. fst a < fst b) (filter P (take n (enumerate k xs)))"
    by (intro sorted_wrt_filter sorted_wrt_take)
  then show ?thesis by (simp add: sorted_wrt_map)
qed

interpretation recordings: frame_source "\<lambda>(r, n, every, n_base). 0 < n" recording_history
  "\<lambda>(r, n, every, n_base). every" "\<lambda>(r, n, every, n_base). n_base"
proof
  fix run :: "'a recording \<times> nat \<times> nat \<times> nat"
  obtain r n every n_base where run: "run = (r, n, every, n_base)" by (cases run)
  assume "case run of (r, n, every, n_base) \<Rightarrow> 0 < n"
  then have n: "0 < n" by (simp add: run)
  let ?r = "start_recording r n every n_base"
  have frames: "fst (read_all ?r) = filter (\<lambda>f. looked_at_frame (fst f) every n_base)
      (take (n - 1) (enumerate 1 (left r)))"
    using read_all_frames [of ?r] n by (simp add: start_recording_def)
  have "\<forall>i\<in>set (map fst (fst (read_all ?r))). 0 < i \<and> looked_at_frame i every n_base"
    unfolding frames by (auto simp: in_set_enumerate_eq dest!: in_set_takeD)
  moreover have "sorted_wrt (<) (map fst (fst (read_all ?r)))"
    unfolding frames by (rule sorted_wrt_enumerate_filter)
  ultimately show "history_ok (case run of (r, n, every, n_base) \<Rightarrow> every)
      (case run of (r, n, every, n_base) \<Rightarrow> n_base) (recording_history run)"
    by (simp add: run recording_history_def history_ok_handed)
qed

end
