(* ===== verification/Live_Stream.thy ===== *)
theory Live_Stream
  imports Frame_Source
begin

text \<open>
  \<open>Stream\<close> (\<open>ImageRecognitionService/detection/new_bullet_holes.py\<close>): the reading thread and the
  loop that takes its frames, as a step relation of their atomic sections. One reader step is one
  turn of \<open>_read\<close>'s loop up to the frame it offers; offering it (under the condition variable),
  asking for a frame and taking it are steps of their own, and \<open>stop\<close> may come at any moment.

  \<open>reader_index\<close>, \<open>offered\<close> and \<open>pending\<close> are the local variables of \<open>_read\<close>; \<open>events\<close> is the
  history the theorems speak of, newest first: the frames handed to the loop and the due frames
  reported missing.

  The theorem is that this history is one \<open>Persistence\<close> is proved for: past the baseline the frames
  handed over are due, in order and never one reported missing, and every report is of due frames
  later than any frame handed over.
\<close>

section \<open>The state\<close>

definition LIVE_FPS :: real where
  "LIVE_FPS = 25"

definition STREAM_TIMEOUT_MS :: real where
  "STREAM_TIMEOUT_MS = 5000"

text \<open>Python's \<open>round\<close> of a float: to the nearest integer, ties to the even one.\<close>

definition py_round :: "real \<Rightarrow> int" where
  "py_round x = (let f = \<lfloor>x\<rfloor>; d = x - of_int f
     in if d < 1 / 2 then f else if d > 1 / 2 then f + 1 else if even f then f else f + 1)"

record stream =
  index :: nat
  times :: "nat \<rightharpoonup> real"
  received :: nat
  first_at :: real
  latest :: real
  late :: nat
  stopped :: bool
  watching :: "real option"
  late_at :: "real list"
  first_taken :: "(real \<times> real) option"
  caught_up :: "real option"
  skew :: real
  drops :: "(real \<times> nat) list"
  down :: bool
  missed_due :: "nat list"
  upstream :: "(nat \<times> nat) list"
  untimed :: nat
  resumed :: nat
  step_rates :: "real list"
  spanned :: real
  spanned_frames :: nat
  unspanned :: nat
  origin :: "(real \<times> nat \<times> real) option"
  last_pos :: real
  trusted :: "(real \<times> nat \<times> real) option"
  held :: "(nat \<times> real) option"
  taken :: nat
  dropping :: bool
  s_wanted :: nat
  s_stride :: nat
  s_baseline :: nat
  reader_index :: nat
  offered :: nat
  pending :: "(nat \<times> real) option"
  events :: "event list"

definition open_stream :: "real \<Rightarrow> real \<Rightarrow> nat \<Rightarrow> nat \<Rightarrow> nat \<Rightarrow> stream" where
  "open_stream pos0 arrived n_frames every n_base =
     \<lparr>index = 0, times = [0 \<mapsto> arrived], received = 1, first_at = arrived, latest = arrived, late = 0,
      stopped = False, watching = None, late_at = [], first_taken = None, caught_up = None, skew = 0,
      drops = [], down = False, missed_due = [], upstream = [], untimed = 0, resumed = 0,
      step_rates = [], spanned = 0, spanned_frames = 0, unspanned = 0,
      origin = Some (pos0, 0, arrived), last_pos = pos0, trusted = None, held = None, taken = 0,
      dropping = False, s_wanted = n_frames, s_stride = every, s_baseline = n_base,
      reader_index = 0, offered = 1, pending = None, events = []\<rparr>"

section \<open>The reader\<close>

datatype grab = GrabFails | Grabs (g_pos: real) (g_now: real) (g_waited: real) (g_decodes: bool)

text \<open>\<open>_reconnect\<close>: the release, the wait and the reopening only choose the next grabs.\<close>

definition reconnect :: "stream \<Rightarrow> stream" where
  "reconnect st = st\<lparr>origin := None, trusted := None, down := True\<rparr>"

definition missed :: "stream \<Rightarrow> real \<Rightarrow> nat" where
  "missed st now = (if down st then nat (max 0 (py_round ((now - latest st) * LIVE_FPS) - 1)) else 0)"

record placement =
  placed :: nat
  at_time :: real
  step_ms :: "real option"
  span_ms :: "real option"

definition place :: "stream \<Rightarrow> nat \<Rightarrow> real \<Rightarrow> real \<Rightarrow> stream \<times> placement" where
  "place st i ts now =
     (let before = last_pos st; s = st\<lparr>last_pos := ts\<rparr>
      in if origin st = None \<and> (down st \<or> ts > before)
         then let p0 = i + 1 + missed st now
              in case (if \<not> down st then trusted st else None) of
                   Some (t_pos, t_index, t_at) \<Rightarrow>
                     if ts - t_pos > 0
                     then let p = nat (max (int p0) (int t_index + py_round ((ts - t_pos) * LIVE_FPS / 1000)));
                              t = t_at + (ts - t_pos) / 1000
                          in (s\<lparr>trusted := Some (ts, p, t), origin := Some (ts, p, t)\<rparr>,
                              \<lparr>placed = p, at_time = t, step_ms = None, span_ms = Some (ts - t_pos)\<rparr>)
                     else (s\<lparr>origin := Some (ts, p0, now)\<rparr>,
                           \<lparr>placed = p0, at_time = now, step_ms = None, span_ms = None\<rparr>)
                 | None \<Rightarrow> (s\<lparr>origin := Some (ts, p0, now)\<rparr>,
                           \<lparr>placed = p0, at_time = now, step_ms = None, span_ms = None\<rparr>)
         else let step = ts - before
              in if step \<le> 0
                 then (s\<lparr>origin := None\<rparr>,
                       \<lparr>placed = i + 1, at_time = now, step_ms = Some step, span_ms = None\<rparr>)
                 else case origin st of
                        None \<Rightarrow> (s, \<lparr>placed = i + 1, at_time = now, step_ms = Some step, span_ms = None\<rparr>)
                      | Some (f_pos, f_index, f_at) \<Rightarrow>
                          let since = ts - f_pos;
                              p = nat (max (int i + 1) (int f_index + py_round (since * LIVE_FPS / 1000)));
                              t = f_at + since / 1000
                          in (s\<lparr>trusted := Some (ts, p, t)\<rparr>,
                              \<lparr>placed = p, at_time = t, step_ms = Some step, span_ms = Some step\<rparr>))"

definition count_frame :: "stream \<Rightarrow> placement \<Rightarrow> bool \<Rightarrow> stream" where
  "count_frame st p is_received =
     (let s1 = (if is_received
                then (let s = (case step_ms p of
                         None \<Rightarrow> if \<not> down st then st\<lparr>resumed := resumed st + 1\<rparr> else st
                       | Some step \<Rightarrow> if step \<le> 0 then st\<lparr>untimed := untimed st + 1\<rparr>
                           else st\<lparr>step_rates := step_rates st @ [of_int (py_round (100 * (1000 / step))) / 100]\<rparr>)
                      in s\<lparr>unspanned := unspanned s + 1\<rparr>)
                else st);
          s2 = (case span_ms p of
                  None \<Rightarrow> s1
                | Some sp \<Rightarrow> s1\<lparr>spanned_frames := spanned_frames s1 + unspanned s1,
                                  spanned := spanned s1 + sp / 1000\<rparr>)
      in if span_ms p \<noteq> None \<or> step_ms p = None then s2\<lparr>unspanned := 0\<rparr> else s2)"

text \<open>Both gaps report their due frames in one extension of \<open>unseen\<close> (\<open>missed_due\<close>).\<close>

definition report_missed :: "stream \<Rightarrow> nat list \<Rightarrow> stream" where
  "report_missed st gap =
     (let ds = filter (\<lambda>i. looked_at_frame i (s_stride st) (s_baseline st)) gap
      in st\<lparr>missed_due := missed_due st @ ds, events := Missed ds # events st\<rparr>)"

definition lost_upstream :: "stream \<Rightarrow> nat list \<Rightarrow> stream" where
  "lost_upstream st gap =
     (let s = report_missed st gap;
          n = length (filter (\<lambda>i. looked_at_frame i (s_stride st) (s_baseline st)) gap)
      in s\<lparr>upstream := upstream st @ [(length gap, n)]\<rparr>)"

definition back_from_drop :: "stream \<Rightarrow> real \<Rightarrow> nat list \<Rightarrow> stream" where
  "back_from_drop st now gap =
     (let s = report_missed st gap
      in s\<lparr>down := False, drops := drops st @ [(now - latest st, length gap)]\<rparr>)"

definition note_edge :: "stream \<Rightarrow> placement \<Rightarrow> real \<Rightarrow> real \<Rightarrow> stream" where
  "note_edge st p now waited =
     (case (watching st, step_ms p) of
        (Some w, Some step) \<Rightarrow>
          if caught_up st = None \<and> step > 0 \<and> waited \<ge> (1 / 2) / LIVE_FPS
          then st\<lparr>caught_up := Some (now - w), skew := at_time p - now\<rparr> else st
      | _ \<Rightarrow> st)"

definition skip_upstream :: "stream \<Rightarrow> placement \<Rightarrow> real \<Rightarrow> stream" where
  "skip_upstream st p now =
     (if \<not> down st \<and> placed p > reader_index st + 1
      then (lost_upstream st [reader_index st + 1..<placed p])
             \<lparr>reader_index := placed p - 1, latest := now - 1 / LIVE_FPS\<rparr>
      else st)"

definition reader_step :: "stream \<Rightarrow> grab \<Rightarrow> stream" where
  "reader_step st g =
     (case g of
        GrabFails \<Rightarrow> reconnect st
      | Grabs ts now waited decodes \<Rightarrow>
          if waited \<ge> STREAM_TIMEOUT_MS / 1000 then reconnect st
          else let (s1, p) = place st (reader_index st) ts now;
                   s2 = note_edge s1 p now waited;
                   s3 = skip_upstream s2 p now;
                   is_due = looked_at_frame (if offered s3 < s_baseline s3 then offered s3 else placed p)
                              (s_stride s3) (s_baseline s3)
               in if is_due \<and> \<not> decodes then reconnect (count_frame s3 p False)
                  else let s4 = count_frame s3 p True;
                           s5 = (if down s4 then back_from_drop s4 now [reader_index s4 + 1..<placed p]
                                 else s4);
                           s6 = s5\<lparr>reader_index := placed p, received := received s5 + 1, latest := now\<rparr>
                       in if is_due then s6\<lparr>offered := offered s6 + 1, pending := Some (placed p, at_time p)\<rparr>
                          else s6)"

text \<open>The reader's frame goes into the slot; it waits while nothing held may be replaced.\<close>

definition may_offer :: "stream \<Rightarrow> bool" where
  "may_offer st \<longleftrightarrow> pending st \<noteq> None \<and> (held st = None \<or> dropping st \<or> stopped st)"

definition offer :: "stream \<Rightarrow> stream" where
  "offer st =
     (let s = (case held st of
                 Some (_, tm) \<Rightarrow> if dropping st then st\<lparr>late := late st + 1, late_at := late_at st @ [tm]\<rparr> else st
               | None \<Rightarrow> st)
      in s\<lparr>held := pending st, pending := None\<rparr>)"

section \<open>The loop\<close>

definition stream_passed :: "stream \<Rightarrow> nat" where
  "stream_passed st = index st + 1"

text \<open>\<open>read\<close>: asking settles whether late frames are dropped from now on; taking ends the wait.\<close>

definition ask :: "stream \<Rightarrow> real \<Rightarrow> stream" where
  "ask st now =
     (let d = (taken st \<ge> s_baseline st - 1)
      in st\<lparr>dropping := d,
            watching := if d \<and> watching st = None then Some now else watching st\<rparr>)"

definition take_frame :: "stream \<Rightarrow> real \<Rightarrow> (nat \<times> stream) option" where
  "take_frame st now =
     (case held st of
        None \<Rightarrow> None
      | Some (i, tm) \<Rightarrow>
          if stopped st then None
          else Some (i, st\<lparr>index := i, times := (times st)(i \<mapsto> tm), held := None,
                  first_taken := if first_taken st = None \<and> dropping st then Some (tm, now)
                                 else first_taken st,
                  taken := taken st + 1, events := Handed i # events st\<rparr>))"

definition late_before :: "stream \<Rightarrow> nat" where
  "late_before st =
     (case watching st of None \<Rightarrow> 0
      | Some w \<Rightarrow> length (filter (\<lambda>tm. tm - skew st < w) (late_at st)))"

definition late_after :: "stream \<Rightarrow> nat" where
  "late_after st = late st - late_before st"

definition behind :: "stream \<Rightarrow> real option" where
  "behind st = map_option (\<lambda>(tm, now). now - (tm - skew st)) (first_taken st)"

text \<open>
  \<open>may_take\<close>: the loop has asked for this frame, so \<open>dropping\<close> is what \<open>ask\<close> made it.
\<close>

definition may_take :: "stream \<Rightarrow> bool" where
  "may_take st \<longleftrightarrow> stream_passed st < s_wanted st \<and> dropping st = (taken st \<ge> s_baseline st - 1)"

inductive stream_step :: "stream \<Rightarrow> stream \<Rightarrow> bool" where
  reads: "pending st = None \<Longrightarrow> \<not> stopped st \<Longrightarrow> stream_step st (reader_step st g)"
| offers: "may_offer st \<Longrightarrow> stream_step st (offer st)"
| asks: "stream_passed st < s_wanted st \<Longrightarrow> stream_step st (ask st now)"
| takes: "may_take st \<Longrightarrow> take_frame st now = Some (i, st') \<Longrightarrow> stream_step st st'"
| stops: "stream_step st (st\<lparr>stopped := True\<rparr>)"

section \<open>The invariant of a stream\<close>

text \<open>The frames on their way: handed over, held, and offered, oldest first.\<close>

definition slot :: "(nat \<times> real) option \<Rightarrow> nat list" where
  "slot f = (case f of None \<Rightarrow> [] | Some (i, _) \<Rightarrow> [i])"

definition flight :: "stream \<Rightarrow> nat list" where
  "flight st = handed_in (events st) @ slot (held st) @ slot (pending st)"

definition frames_placed :: "stream \<Rightarrow> bool" where
  "frames_placed st \<longleftrightarrow> sorted_wrt (<) (flight st) \<and> sorted_wrt (<) (missed_in (events st))
     \<and> set (flight st) \<inter> set (missed_in (events st)) = {}
     \<and> (\<forall>i\<in>set (flight st) \<union> set (missed_in (events st)). 0 < i \<and> i \<le> reader_index st)
     \<and> (\<forall>i\<in>set (missed_in (events st)). looked_at_frame i (s_stride st) (s_baseline st))"

text \<open>Until the loop drops late frames, no frame offered is lost, so the baseline's are counted.\<close>

definition frames_counted :: "stream \<Rightarrow> bool" where
  "frames_counted st \<longleftrightarrow> taken st = length (handed_in (events st)) \<and> 1 \<le> s_baseline st
     \<and> (dropping st \<or> 0 < late st \<longrightarrow> s_baseline st \<le> taken st + 1)
     \<and> (\<not> stopped st \<longrightarrow>
          offered st = 1 + taken st + late st + length (slot (held st)) + length (slot (pending st))
          \<and> (\<forall>i\<in>set (slot (held st)).
               s_baseline st \<le> taken st + late st + 1 \<longrightarrow> looked_at_frame i (s_stride st) (s_baseline st))
          \<and> (\<forall>i\<in>set (slot (pending st)).
               s_baseline st < offered st \<longrightarrow> looked_at_frame i (s_stride st) (s_baseline st)))"

definition stream_inv :: "stream \<Rightarrow> bool" where
  "stream_inv st \<longleftrightarrow> frames_placed st \<and> frames_counted st
     \<and> history_ok (s_stride st) (s_baseline st) (events st) \<and> missed_in (events st) = missed_due st"

text \<open>What the reader's steps leave alone until they report a gap or offer a frame.\<close>

definition same_queue :: "stream \<Rightarrow> stream \<Rightarrow> bool" where
  "same_queue s t \<longleftrightarrow> events t = events s \<and> missed_due t = missed_due s \<and> held t = held s
     \<and> pending t = pending s \<and> taken t = taken s \<and> late t = late s \<and> offered t = offered s
     \<and> dropping t = dropping s \<and> stopped t = stopped s \<and> reader_index t = reader_index s
     \<and> s_stride t = s_stride s \<and> s_baseline t = s_baseline s"

lemmas stream_inv_defs = stream_inv_def frames_placed_def frames_counted_def flight_def

lemma same_queue_inv:
  assumes "same_queue s t" and inv: "stream_inv s"
  shows "stream_inv t"
proof -
  have q: "events t = events s" "missed_due t = missed_due s" "held t = held s"
    "pending t = pending s" "taken t = taken s" "late t = late s" "offered t = offered s"
    "dropping t = dropping s" "stopped t = stopped s" "reader_index t = reader_index s"
    "s_stride t = s_stride s" "s_baseline t = s_baseline s"
    using assms(1) by (simp_all add: same_queue_def)
  show ?thesis
    unfolding stream_inv_defs q by (rule inv [unfolded stream_inv_defs])
qed

lemma same_queue_trans: "same_queue s t \<Longrightarrow> same_queue t u \<Longrightarrow> same_queue s u"
  by (simp add: same_queue_def)

lemma place_queue:
  "place st i ts now = (s, p) \<Longrightarrow> same_queue st s \<and> i < placed p"
  by (auto simp: place_def Let_def same_queue_def missed_def nat_less_iff zless_nat_eq_int_zless
      split: if_splits option.splits)

lemma reconnect_queue: "same_queue s (reconnect s)"
  by (simp add: same_queue_def reconnect_def)

lemma count_queue: "same_queue s (count_frame s p b)"
  by (simp add: same_queue_def count_frame_def Let_def split: option.split)

lemma note_edge_queue: "same_queue s (note_edge s p now waited)"
  by (simp add: same_queue_def note_edge_def split: option.split)

text \<open>A gap reported past the reader's last frame, after which the reader is past the gap.\<close>

lemma report_inv:
  assumes inv: "stream_inv s" and b: "reader_index s < b" and pend: "pending s = None"
    and t: "events t = Missed (filter (\<lambda>i. looked_at_frame i (s_stride s) (s_baseline s))
              [reader_index s + 1..<b]) # events s"
      "missed_due t = missed_due s @ filter (\<lambda>i. looked_at_frame i (s_stride s) (s_baseline s))
              [reader_index s + 1..<b]"
      "held t = held s" "pending t = pending s" "taken t = taken s" "late t = late s"
      "offered t = offered s" "dropping t = dropping s" "stopped t = stopped s"
      "s_stride t = s_stride s" "s_baseline t = s_baseline s" "b - 1 \<le> reader_index t"
  shows "stream_inv t"
proof -
  let ?gap = "filter (\<lambda>i. looked_at_frame i (s_stride s) (s_baseline s)) [reader_index s + 1..<b]"
  have gap: "sorted_wrt (<) ?gap"
    by (intro sorted_wrt_filter) (rule sorted_wrt_upt)
  have bounds: "reader_index s < f \<and> f \<le> b - 1 \<and> looked_at_frame f (s_stride s) (s_baseline s)"
    if "f \<in> set ?gap" for f
    using that by auto
  have fl: "flight t = flight s" by (simp add: flight_def t)
  have ri: "reader_index s \<le> reader_index t" using b t(12) by simp
  have pl: "frames_placed s" and h: "history_ok (s_stride s) (s_baseline s) (events s)"
    using inv by (simp_all add: stream_inv_def)
  have le: "0 < i \<and> i \<le> reader_index s" if "i \<in> set (flight s) \<union> set (missed_in (events s))" for i
    using pl that by (auto simp: frames_placed_def)
  have newer: "i < f" if "f \<in> set ?gap" "i \<in> set (flight s) \<union> set (missed_in (events s))" for i f
    using bounds [OF that(1)] le [OF that(2)] by simp
  have sorted: "sorted_wrt (<) (missed_in (events s) @ ?gap)"
    unfolding sorted_wrt_append
  proof (intro conjI ballI)
    show "sorted_wrt (<) (missed_in (events s))" using pl by (simp add: frames_placed_def)
    show "sorted_wrt (<) ?gap" by (rule gap)
    fix i f assume "i \<in> set (missed_in (events s))" "f \<in> set ?gap"
    then show "i < f" by (intro newer UnI2)
  qed
  have "frames_placed t"
    unfolding frames_placed_def fl t(1,10,11) missed_in.simps
  proof (intro conjI ballI)
    show "set (flight s) \<inter> set (missed_in (events s) @ ?gap) = {}"
    proof (intro equals0I, elim IntE)
      fix i assume i: "i \<in> set (flight s)" "i \<in> set (missed_in (events s) @ ?gap)"
      show False
      proof (cases "i \<in> set ?gap")
        case True
        then show ?thesis using newer [of i i] i(1) by blast
      next
        case False
        then show ?thesis using i pl unfolding frames_placed_def by auto
      qed
    qed
  next
    fix i assume i: "i \<in> set (flight s) \<union> set (missed_in (events s) @ ?gap)"
    have "0 < i \<and> i \<le> reader_index t"
    proof (cases "i \<in> set ?gap")
      case True
      then show ?thesis using bounds [OF True] t(12) by simp
    next
      case False
      then have "i \<in> set (flight s) \<union> set (missed_in (events s))" using i by auto
      then show ?thesis using le [of i] ri by simp
    qed
    then show "0 < i" "i \<le> reader_index t" by simp_all
  qed (use pl sorted in \<open>auto simp: frames_placed_def\<close>)
  moreover have "frames_counted s"
    using inv by (simp add: stream_inv_def)
  then have "frames_counted t"
    unfolding frames_counted_def t handed_in.simps .
  moreover have "history_ok (s_stride t) (s_baseline t) (events t)"
    unfolding t history_ok.simps
  proof (intro conjI ballI)
    fix f j assume f: "f \<in> set ?gap" and "j \<in> set (handed_in (events s))"
    then have "j \<in> set (flight s) \<union> set (missed_in (events s))" by (simp add: flight_def)
    then show "j < f" by (rule newer [OF f])
  next
    fix f assume "f \<in> set ?gap"
    then show "looked_at_frame f (s_stride s) (s_baseline s)" using bounds by blast
  qed (rule h sorted)+
  moreover have "missed_in (events t) = missed_due t"
    using inv by (simp add: stream_inv_def t)
  ultimately show ?thesis
    by (simp add: stream_inv_def)
qed

section \<open>Every step keeps the invariant\<close>

lemma skip_upstream_inv:
  assumes inv: "stream_inv s" and p: "reader_index s < placed p" and pend: "pending s = None"
  shows "stream_inv (skip_upstream s p now)" "reader_index (skip_upstream s p now) < placed p"
    "pending (skip_upstream s p now) = None" "stopped (skip_upstream s p now) = stopped s"
    "s_stride (skip_upstream s p now) = s_stride s" "s_baseline (skip_upstream s p now) = s_baseline s"
proof -
  show "stream_inv (skip_upstream s p now)"
  proof (cases "\<not> down s \<and> placed p > reader_index s + 1")
    case True
    show ?thesis
      by (rule report_inv [OF inv p pend])
        (use True in \<open>simp_all add: skip_upstream_def lost_upstream_def report_missed_def Let_def\<close>)
  next
    case False
    then show ?thesis using inv by (auto simp: skip_upstream_def)
  qed
qed (use p pend in \<open>auto simp: skip_upstream_def lost_upstream_def report_missed_def Let_def\<close>)

lemma back_from_drop_inv:
  assumes inv: "stream_inv s" and b: "reader_index s < b" and pend: "pending s = None"
  shows "stream_inv ((back_from_drop s now [reader_index s + 1..<b])\<lparr>reader_index := b,
      received := n, latest := t\<rparr>)"
  by (rule report_inv [OF inv b pend])
    (simp_all add: back_from_drop_def report_missed_def Let_def)

text \<open>The reader moves on to the frame it placed.\<close>

lemma advance_inv:
  assumes inv: "stream_inv s" and le: "reader_index s \<le> b"
  shows "stream_inv (s\<lparr>reader_index := b, received := n, latest := t\<rparr>)" (is "stream_inv ?t")
proof -
  have "frames_placed s" using inv by (simp add: stream_inv_def)
  then have "frames_placed ?t"
    using le unfolding frames_placed_def flight_def by (simp, meson order_trans)
  moreover have "frames_counted s" using inv by (simp add: stream_inv_def)
  then have "frames_counted ?t" by (auto simp: frames_counted_def)
  ultimately show ?thesis using inv by (simp add: stream_inv_def)
qed

text \<open>A frame past everything is offered.\<close>

lemma queue_inv:
  assumes inv: "stream_inv s" and pend: "pending s = None" and i: "reader_index s = i" "0 < i"
    and fresh: "i \<notin> set (flight s)" "i \<notin> set (missed_in (events s))"
    and due: "looked_at_frame (if offered s < s_baseline s then offered s else i) (s_stride s) (s_baseline s)"
  shows "stream_inv (s\<lparr>offered := offered s + 1, pending := Some (i, tm)\<rparr>)" (is "stream_inv ?t")
proof -
  have pl: "frames_placed s" and fc: "frames_counted s"
    using inv by (simp_all add: stream_inv_def)
  have fl: "flight ?t = flight s @ [i]"
    by (simp add: flight_def slot_def pend)
  have "j < i" if "j \<in> set (flight s)" for j
    using pl that fresh(1) i by (metis Un_iff frames_placed_def nless_le)
  then have "frames_placed ?t"
    using pl fresh(2) i unfolding frames_placed_def fl by (auto simp: sorted_wrt_append)
  moreover have "frames_counted ?t"
    using fc due by (auto simp: frames_counted_def pend slot_def)
  ultimately show ?thesis using inv by (simp add: stream_inv_def)
qed

lemma offer_inv:
  assumes inv: "stream_inv s" and may: "may_offer s"
  shows "stream_inv (offer s)"
proof -
  obtain i tm where p: "pending s = Some (i, tm)" using may by (auto simp: may_offer_def)
  have pl: "frames_placed s" and fc: "frames_counted s"
    using inv by (simp_all add: stream_inv_def)
  have keep: "events (offer s) = events s" "reader_index (offer s) = reader_index s"
    "s_stride (offer s) = s_stride s" "s_baseline (offer s) = s_baseline s" "held (offer s) = pending s"
    "pending (offer s) = None" "taken (offer s) = taken s" "offered (offer s) = offered s"
    "dropping (offer s) = dropping s" "stopped (offer s) = stopped s" "missed_due (offer s) = missed_due s"
    by (auto simp: offer_def Let_def split: option.split)
  have late: "late (offer s) = late s + (if dropping s \<and> held s \<noteq> None then 1 else 0)"
    by (auto simp: offer_def Let_def split: option.split)
  have fl: "flight (offer s) = handed_in (events s) @ slot (pending s)"
    by (simp add: flight_def keep slot_def)
  have "frames_placed (offer s)"
    using pl unfolding frames_placed_def fl keep by (auto simp: flight_def sorted_wrt_append)
  moreover have "frames_counted (offer s)"
  proof (cases "held s = None \<or> dropping s")
    case True
    then show ?thesis
      using fc unfolding frames_counted_def keep late
      by (cases "held s") (auto simp: p slot_def)
  next
    case False
    then have "stopped s" using may by (auto simp: may_offer_def)
    then show ?thesis using fc False unfolding frames_counted_def keep late by auto
  qed
  ultimately show ?thesis
    using inv by (simp add: stream_inv_def keep)
qed

lemma ask_inv:
  assumes "stream_inv s"
  shows "stream_inv (ask s now)"
  using assms by (auto simp: stream_inv_defs ask_def Let_def)

lemma take_inv:
  assumes inv: "stream_inv s" and may: "may_take s" and t: "take_frame s now = Some (i, t)"
  shows "stream_inv t"
proof -
  obtain tm where h: "held s = Some (i, tm)" and live: "\<not> stopped s"
    and t': "events t = Handed i # events s" "held t = None" "pending t = pending s" "taken t = taken s + 1"
      "late t = late s" "offered t = offered s" "dropping t = dropping s" "stopped t = stopped s"
      "reader_index t = reader_index s" "s_stride t = s_stride s" "s_baseline t = s_baseline s"
      "missed_due t = missed_due s"
    using t by (auto simp: take_frame_def split: option.splits if_splits)
  have pl: "frames_placed s" and fc: "frames_counted s"
    and ho: "history_ok (s_stride s) (s_baseline s) (events s)"
    using inv by (simp_all add: stream_inv_def)
  have fl: "flight t = flight s" "flight s = handed_in (events s) @ [i] @ slot (pending s)"
    by (simp_all add: flight_def t' h slot_def)
  have "frames_placed t"
    using pl by (simp add: frames_placed_def fl(1) t')
  moreover have "frames_counted t"
    using fc live unfolding frames_counted_def t' by (auto simp: h slot_def)
  moreover have "history_ok (s_stride t) (s_baseline t) (events t)"
  proof -
    have "\<forall>j\<in>set (handed_in (events s)). j < i" "0 < i" "i \<notin> set (missed_in (events s))"
      using pl unfolding frames_placed_def fl(2) by (auto simp: sorted_wrt_append)
    moreover have "s_baseline s \<le> length (handed_in (events s)) + 1
        \<longrightarrow> looked_at_frame i (s_stride s) (s_baseline s)"
      using fc live by (auto simp: frames_counted_def h slot_def)
    ultimately show ?thesis using ho by (simp add: t')
  qed
  ultimately show ?thesis using inv by (simp add: stream_inv_def t')
qed

lemma count_queue_fields:
  "reader_index (count_frame s p b) = reader_index s" "pending (count_frame s p b) = pending s"
  "offered (count_frame s p b) = offered s" "s_stride (count_frame s p b) = s_stride s"
  "s_baseline (count_frame s p b) = s_baseline s" "down (count_frame s p b) = down s"
  "events (count_frame s p b) = events s" "held (count_frame s p b) = held s"
  by (simp_all add: count_frame_def Let_def split: option.split)

text \<open>
  A frame received: the gap of a drop it ends is reported, and the reader is on it, past
  everything on its way.
\<close>

lemma received_inv:
  assumes inv: "stream_inv s" and p: "reader_index s < n" and pend: "pending s = None"
    and t: "t = (if down s then back_from_drop s now [reader_index s + 1..<n] else s)
              \<lparr>reader_index := n, received := m, latest := now\<rparr>"
  shows "stream_inv t" "reader_index t = n" "pending t = None" "offered t = offered s"
    "s_stride t = s_stride s" "s_baseline t = s_baseline s"
    "n \<notin> set (flight t)" "n \<notin> set (missed_in (events t))"
proof -
  show "stream_inv t"
  proof (cases "down s")
    case True
    then show ?thesis unfolding t by (simp only: if_True) (rule back_from_drop_inv [OF inv p pend])
  next
    case False
    then show ?thesis
      unfolding t using p by (simp only: if_False) (rule advance_inv [OF inv less_imp_le])
  qed
  have le: "i \<le> reader_index s" if "i \<in> set (flight s) \<union> set (missed_in (events s))" for i
    using inv that by (auto simp: stream_inv_def frames_placed_def)
  have fl: "flight t = flight s"
    by (simp add: t flight_def back_from_drop_def report_missed_def Let_def)
  show "n \<notin> set (flight t)"
    using le [of n] p by (auto simp: fl)
  have "set (missed_in (events t)) \<subseteq> set (missed_in (events s)) \<union> {reader_index s + 1..<n}"
    by (auto simp: t back_from_drop_def report_missed_def Let_def)
  then show "n \<notin> set (missed_in (events t))"
    using le [of n] p by auto
qed (auto simp: t pend back_from_drop_def report_missed_def Let_def)

lemma reader_inv:
  assumes inv: "stream_inv st" and pend: "pending st = None"
  shows "stream_inv (reader_step st g)"
proof (cases g)
  case GrabFails
  then show ?thesis
    using same_queue_inv [OF reconnect_queue inv] by (simp add: reader_step_def)
next
  case (Grabs ts now waited decodes)
  show ?thesis
  proof (cases "waited \<ge> STREAM_TIMEOUT_MS / 1000")
    case True
    then show ?thesis
      using same_queue_inv [OF reconnect_queue inv] by (simp add: reader_step_def Grabs)
  next
    case False
    obtain s1 p where pl: "place st (reader_index st) ts now = (s1, p)" by fastforce
    define s2 where "s2 = note_edge s1 p now waited"
    define s3 where "s3 = skip_upstream s2 p now"
    have q: "same_queue st s2" and lt: "reader_index st < placed p"
      using place_queue [OF pl] note_edge_queue [of s1 p now waited] same_queue_trans
      unfolding s2_def by blast+
    have "stream_inv s2" "reader_index s2 < placed p" "pending s2 = None"
      using same_queue_inv [OF q inv] q lt pend by (simp_all add: same_queue_def)
    note s3 = skip_upstream_inv [OF this, of now, folded s3_def]
    define is_due where "is_due \<longleftrightarrow> looked_at_frame
        (if offered s3 < s_baseline s3 then offered s3 else placed p) (s_stride s3) (s_baseline s3)"
    have step: "reader_step st g =
        (if is_due \<and> \<not> decodes then reconnect (count_frame s3 p False)
         else let s4 = count_frame s3 p True;
                  s6 = (if down s4 then back_from_drop s4 now [reader_index s4 + 1..<placed p] else s4)
                         \<lparr>reader_index := placed p,
                          received := received (if down s4 then back_from_drop s4 now
                            [reader_index s4 + 1..<placed p] else s4) + 1, latest := now\<rparr>
              in if is_due then s6\<lparr>offered := offered s6 + 1, pending := Some (placed p, at_time p)\<rparr>
                 else s6)"
      using False
      by (simp add: reader_step_def Grabs pl s2_def [symmetric] s3_def [symmetric] is_due_def Let_def)
    show ?thesis
    proof (cases "is_due \<and> \<not> decodes")
      case True
      then show ?thesis
        unfolding step by (simp add: same_queue_inv [OF same_queue_trans [OF count_queue reconnect_queue] s3(1)])
    next
      case ok: False
      define s4 where "s4 = count_frame s3 p True"
      have i4: "stream_inv s4" "reader_index s4 < placed p" "pending s4 = None"
        using same_queue_inv [OF count_queue s3(1)] s3(2,3) by (simp_all add: s4_def count_queue_fields)
      define s6 where "s6 = (if down s4 then back_from_drop s4 now [reader_index s4 + 1..<placed p] else s4)
          \<lparr>reader_index := placed p,
           received := received (if down s4 then back_from_drop s4 now
             [reader_index s4 + 1..<placed p] else s4) + 1, latest := now\<rparr>"
      note r = received_inv [OF i4 s6_def]
      have s6: "reader_step st g =
          (if is_due then s6\<lparr>offered := offered s6 + 1, pending := Some (placed p, at_time p)\<rparr> else s6)"
        using ok unfolding step s4_def [symmetric] Let_def s6_def [symmetric] by simp
      show ?thesis
      proof (cases is_due)
        case True
        have "looked_at_frame (if offered s6 < s_baseline s6 then offered s6 else placed p)
            (s_stride s6) (s_baseline s6)"
          unfolding r(4-6) s4_def count_queue_fields by (rule True [unfolded is_due_def])
        then show ?thesis
          using queue_inv [OF r(1,3,2) _ r(7,8)] True lt by (simp add: s6)
      next
        case nd: False
        then show ?thesis using r(1) by (simp add: s6)
      qed
    qed
  qed
qed

definition stream_start :: "stream \<Rightarrow> bool" where
  "stream_start st \<longleftrightarrow> (\<exists>pos0 arrived n every n_base. 1 \<le> n_base \<and> st = open_stream pos0 arrived n every n_base)"

interpretation stream_runs: invariant_system stream_start stream_step stream_inv
proof
  fix st assume "stream_start st"
  then show "stream_inv st"
    by (auto simp: stream_start_def open_stream_def stream_inv_defs slot_def)
next
  fix st t assume inv: "stream_inv st" and "stream_step st t"
  from this(2) show "stream_inv t"
  proof (cases rule: stream_step.cases)
    case (reads g)
    then show ?thesis using reader_inv [OF inv] by simp
  next
    case offers
    then show ?thesis using offer_inv [OF inv] by simp
  next
    case (asks now)
    then show ?thesis using ask_inv [OF inv] by simp
  next
    case (takes now i)
    then show ?thesis using take_inv [OF inv] by simp
  next
    case stops
    then show ?thesis using inv by (auto simp: stream_inv_defs)
  qed
qed

interpretation streams: frame_source "reach stream_start stream_step" events s_stride s_baseline
  by unfold_locales (use stream_runs.reach_inv in \<open>auto simp: stream_inv_def\<close>)

text \<open>
  C20. What a Stream hands over and reports missing, however its thread and the loop interleave and
  whatever the camera does: past the baseline the loop gets due frames only, in increasing order and
  none twice, none of them ever reported missing; the frames reported missing are due, each reported
  once and in order, and each report is of frames later than any the loop has been given by then.
  That is what \<open>Persistence\<close> relies on.
\<close>

theorem stream_keeps_its_order:
  assumes "reach stream_start stream_step st"
  shows "history_ok (s_stride st) (s_baseline st) (events st)
    \<and> sorted_wrt (<) (handed_in (events st)) \<and> sorted_wrt (<) (missed_in (events st))
    \<and> set (handed_in (events st)) \<inter> set (missed_in (events st)) = {}
    \<and> missed_in (events st) = missed_due st"
proof -
  have "stream_inv st" by (rule stream_runs.reach_inv [OF assms])
  then show ?thesis
    by (auto simp: stream_inv_def frames_placed_def flight_def sorted_wrt_append)
qed

text \<open>
  C21. A live Run's evidence is sound end to end: \<open>Persistence\<close> driven by what any Stream hands over
  past the baseline (with the Stream's own stride), whatever each Look sees, and told what the Stream
  misses at any moment, between Looks, while the loop is still at one, or inside \<open>add\<close>, always ends
  without failing its assertion, in first-frame order, keeping every candidate it ever returned.
\<close>

theorem stream_feeds_persistence:
  assumes "reach stream_start stream_step st" and "0 \<le> persist cfg"
    and "stride cfg = s_stride st" "baseline_frames cfg = s_baseline st"
    and "feeds cfg (events st) busy (p, q, told)" "p \<le> processed"
  shows "\<exists>t result. end_run cfg q processed True = Inr (t, result)
    \<and> sorted (map first_frame result) \<and> distinct (map hid result) \<and> set told \<subseteq> hid ` set result"
  using streams.end_succeeds [OF assms, of True] by simp

section \<open>A stream that lost four frames\<close>

definition lossy_stream :: stream where
  "lossy_stream = reader_step (open_stream 0 0 10 1 1) (Grabs 200 (1 / 5) 0 True)"

lemma lossy_reach: "reach stream_start stream_step lossy_stream"
proof -
  have start: "stream_start (open_stream 0 0 10 1 1)"
    unfolding stream_start_def by blast
  have step: "stream_step (open_stream 0 0 10 1 1) lossy_stream"
    unfolding lossy_stream_def by (rule reads) (simp_all add: open_stream_def)
  have "reach stream_start stream_step (open_stream 0 0 10 1 1)"
    by (rule reach_init) (rule start)
  then show ?thesis by (rule reach_step) (rule step)
qed

lemma lossy_events: "events lossy_stream = [Missed [1, 2, 3, 4]]"
proof -
  define p where "p = \<lparr>placed = 5, at_time = 1 / 5, step_ms = Some 200, span_ms = Some 200\<rparr>"
  define s1 where "s1 = (open_stream 0 0 10 1 1)\<lparr>last_pos := 200, trusted := Some (200, 5, 1 / 5)\<rparr>"
  have pl: "place (open_stream 0 0 10 1 1) (reader_index (open_stream 0 0 10 1 1)) 200 (1 / 5) = (s1, p)"
    by (simp add: place_def open_stream_def s1_def p_def py_round_def LIVE_FPS_def Let_def)
  have s1: "\<not> down s1" "reader_index s1 = 0" "watching s1 = None" "events s1 = []" "s_stride s1 = 1"
    "s_baseline s1 = 1" "offered s1 = 1"
    by (simp_all add: s1_def open_stream_def)
  have edge: "note_edge s1 p n w = s1" for n w by (simp add: note_edge_def s1(3))
  define s3 where "s3 = skip_upstream s1 p (1 / 5)"
  have gap: "filter (\<lambda>i. looked_at_frame i 1 1) [1..<5] = [1, 2, 3, 4]"
    by (simp add: looked_at_frame_def upt_rec)
  have s3: "\<not> down s3" "events s3 = [Missed [1, 2, 3, 4]]" "s_stride s3 = 1"
    using s1 gap
    by (simp_all add: s3_def skip_upstream_def lost_upstream_def report_missed_def p_def Let_def del: One_nat_def)
  have due: "looked_at_frame i 1 b" for i b by (simp add: looked_at_frame_def)
  have late: "\<not> STREAM_TIMEOUT_MS / 1000 \<le> (0 :: real)" by (simp add: STREAM_TIMEOUT_MS_def)
  show ?thesis
    unfolding lossy_stream_def reader_step_def grab.case pl Let_def prod.case edge s3_def [symmetric]
      s3(3) count_queue_fields
    by (simp only: due late s3(1,2) if_True if_False simp_thms stream.simps count_queue_fields)
      (simp add: count_queue_fields s3(2))
qed

theorem stream_keeps_its_order_witness:
  "missed_due lossy_stream = [1, 2, 3, 4] \<and> sorted_wrt (<) (missed_due lossy_stream)"
proof -
  have "history_ok (s_stride lossy_stream) (s_baseline lossy_stream) (events lossy_stream)
    \<and> sorted_wrt (<) (missed_in (events lossy_stream)) \<and> missed_in (events lossy_stream) = missed_due lossy_stream"
    using stream_keeps_its_order [OF lossy_reach] by blast
  moreover have "missed_in (events lossy_stream) = [1, 2, 3, 4]" by (simp add: lossy_events)
  ultimately show ?thesis by metis
qed

theorem stream_feeds_persistence_witness:
  "\<exists>t result. end_run ((sample_cfg 1)\<lparr>baseline_frames := s_baseline lossy_stream, stride := s_stride lossy_stream\<rparr>)
     ((new_persistence [])\<lparr>unseen := [1, 2, 3, 4]\<rparr>) 6 True = Inr (t, result)
     \<and> sorted (map first_frame result)"
proof -
  let ?cfg = "(sample_cfg 1)\<lparr>baseline_frames := s_baseline lossy_stream, stride := s_stride lossy_stream\<rparr>"
  have "feeds ?cfg (events lossy_stream) None (0, (new_persistence [])\<lparr>unseen := unseen (new_persistence []) @ [1, 2, 3, 4]\<rparr>, [])"
    unfolding lossy_events by (rule feeds_missed) (rule feeds_start)
  then have "feeds ?cfg (events lossy_stream) None (0, (new_persistence [])\<lparr>unseen := [1, 2, 3, 4]\<rparr>, [])"
    by (simp add: new_persistence_def)
  from stream_feeds_persistence [OF lossy_reach _ _ _ this, of 6]
  show ?thesis by (auto simp: sample_cfg_def)
qed

end
