(* ===== verification/Detection_Client.thy ===== *)
theory Detection_Client
  imports Schemas
begin

text \<open>
  \<open>WebApp/backend/app/services/detection_client.py\<close>: how the backend reads what the Detection
  Service answers to a status read, a start and an end. An HTTP exchange is \<open>None\<close> (httpx raised,
  the service did not answer) or a response; its body is the JSON value it parses to, if it does.
  What Pydantic and \<open>uuid\<close> decide about one value (a UUID's text, a Baseline View, a place, a time
  stamp) is a parameter, \<open>decoders\<close>: \<open>None\<close> is the \<open>ValueError\<close> they raise. What a Python
  subscript or method call does on a value of the wrong type is written out, since it decides which
  error reaches the caller.
\<close>

section \<open>JSON values and HTTP responses\<close>

datatype json =
    Json_null
  | Json_bool bool
  | Json_number real
  | Json_string string
  | Json_list "json list"
  | Json_object "(string \<times> json) list"

datatype py_error = ValueError | KeyError | TypeError | AttributeError

record http_response =
  rs_status :: nat
  rs_text :: string
  rs_json :: "json option"

text \<open>\<open>res.json()\<close>, \<open>value[key]\<close> with a string key, and \<open>value.get(key)\<close>.\<close>

definition json_body :: "http_response \<Rightarrow> py_error + json" where
  "json_body res = (case rs_json res of None \<Rightarrow> Inl ValueError | Some v \<Rightarrow> Inr v)"

fun subscript :: "json \<Rightarrow> string \<Rightarrow> py_error + json" where
  "subscript (Json_object kvs) k = (case map_of kvs k of None \<Rightarrow> Inl KeyError | Some v \<Rightarrow> Inr v)"
| "subscript _ k = Inl TypeError"

fun get_method :: "json \<Rightarrow> string \<Rightarrow> py_error + json" where
  "get_method (Json_object kvs) k = Inr (case map_of kvs k of None \<Rightarrow> Json_null | Some v \<Rightarrow> v)"
| "get_method _ k = Inl AttributeError"

text \<open>\<open>uuid.UUID(value)\<close>: it calls \<open>value.replace\<close>, and refuses \<open>None\<close> itself.\<close>

fun uuid_of :: "(string \<Rightarrow> uuid option) \<Rightarrow> json \<Rightarrow> py_error + uuid" where
  "uuid_of parse (Json_string s) = (case parse s of None \<Rightarrow> Inl ValueError | Some u \<Rightarrow> Inr u)"
| "uuid_of parse Json_null = Inl TypeError"
| "uuid_of parse _ = Inl AttributeError"

definition is_success :: "http_response \<Rightarrow> bool" where
  "is_success res \<longleftrightarrow> 200 \<le> rs_status res \<and> rs_status res \<le> 299"

definition is_error :: "http_response \<Rightarrow> bool" where
  "is_error res \<longleftrightarrow> 400 \<le> rs_status res \<and> rs_status res \<le> 599"

section \<open>The Run as the Detection Service reports it\<close>

record client_run =
  cr_session_id :: uuid
  cr_state :: json
  cr_baseline_view :: "baseline_view option"
  cr_registered :: "place option"
  cr_looked_at :: "time option"

record decoders =
  dec_uuid :: "string \<Rightarrow> uuid option"
  dec_view :: "json \<Rightarrow> baseline_view option"
  dec_place :: "json \<Rightarrow> place option"
  dec_time :: "json \<Rightarrow> time option"

text \<open>\<open>None if value is None else decode(value)\<close>.\<close>

definition optional :: "(json \<Rightarrow> 'a option) \<Rightarrow> json \<Rightarrow> py_error + 'a option" where
  "optional decode v =
     (if v = Json_null then Inr None
      else case decode v of None \<Rightarrow> Inl ValueError | Some x \<Rightarrow> Inr (Some x))"

definition and_then :: "'e + 'a \<Rightarrow> ('a \<Rightarrow> 'e + 'b) \<Rightarrow> 'e + 'b" where
  "and_then r f = (case r of Inl e \<Rightarrow> Inl e | Inr x \<Rightarrow> f x)"

lemma and_then_simps [simp]:
  "and_then (Inl e) f = Inl e" "and_then (Inr x) f = f x"
  by (simp_all add: and_then_def)

definition run_of :: "decoders \<Rightarrow> json \<Rightarrow> py_error + client_run" where
  "run_of dec view =
     and_then (get_method view ''baseline_view'') (\<lambda>bv.
     and_then (get_method view ''registered'') (\<lambda>rg.
     and_then (get_method view ''looked_at'') (\<lambda>la.
     and_then (and_then (subscript view ''session_id'') (uuid_of (dec_uuid dec))) (\<lambda>sid.
     and_then (subscript view ''state'') (\<lambda>state.
     and_then (optional (dec_view dec) bv) (\<lambda>baseline.
     and_then (optional (dec_place dec) rg) (\<lambda>registered.
     and_then (optional (dec_time dec) la) (\<lambda>looked_at.
       Inr \<lparr>cr_session_id = sid, cr_state = state, cr_baseline_view = baseline,
            cr_registered = registered, cr_looked_at = looked_at\<rparr>))))))))"

section \<open>The three calls\<close>

text \<open>
  What a call gives its caller: its answer, \<open>DetectionServiceUnreachable\<close>, or another Python
  exception. A start's answer is a Run or the \<open>RunRefused\<close> it raises.
\<close>

datatype 'a call = Answered 'a | Unreachable | Raised py_error

record refusal =
  rf_status :: nat
  rf_detail :: json
  rf_holder :: "uuid option"

text \<open>\<open>except (ValueError, KeyError, TypeError)\<close>.\<close>

definition caught :: "py_error \<Rightarrow> bool" where
  "caught e \<longleftrightarrow> e \<in> {ValueError, KeyError, TypeError}"

definition client_status :: "decoders \<Rightarrow> http_response option \<Rightarrow> client_run option call" where
  "client_status dec answer =
     (case answer of
        None \<Rightarrow> Unreachable
      | Some res \<Rightarrow>
          if \<not> is_success res then Unreachable
          else
            (case and_then (and_then (json_body res) (\<lambda>v. subscript v ''run'')) (\<lambda>run.
                    if run = Json_null then Inr None else and_then (run_of dec run) (Inr \<circ> Some)) of
               Inr r \<Rightarrow> Answered r
             | Inl e \<Rightarrow> if caught e then Unreachable else Raised e))"

definition refusal_detail :: "http_response \<Rightarrow> py_error + json" where
  "refusal_detail res =
     (case and_then (json_body res) (\<lambda>v. subscript v ''detail'') of
        Inr v \<Rightarrow> Inr v
      | Inl e \<Rightarrow> if caught e then Inr (Json_string (take 200 (rs_text res))) else Inl e)"

definition refusal_holder :: "decoders \<Rightarrow> http_response \<Rightarrow> py_error + uuid option" where
  "refusal_holder dec res =
     (case and_then (and_then (and_then (json_body res) (\<lambda>v. subscript v ''run''))
             (\<lambda>run. subscript run ''session_id'')) (uuid_of (dec_uuid dec)) of
        Inr u \<Rightarrow> Inr (Some u)
      | Inl e \<Rightarrow> if caught e then Inr None else Inl e)"

definition client_start_run :: "decoders \<Rightarrow> http_response option \<Rightarrow> (refusal + client_run) call" where
  "client_start_run dec answer =
     (case answer of
        None \<Rightarrow> Unreachable
      | Some res \<Rightarrow>
          if is_error res then
            (case and_then (refusal_detail res) (\<lambda>detail.
                    and_then (refusal_holder dec res) (\<lambda>holder.
                      Inr \<lparr>rf_status = rs_status res, rf_detail = detail, rf_holder = holder\<rparr>)) of
               Inr r \<Rightarrow> Answered (Inl r)
             | Inl e \<Rightarrow> Raised e)
          else
            (case and_then (json_body res) (run_of dec) of
               Inr run \<Rightarrow> Answered (Inr run)
             | Inl e \<Rightarrow> if caught e then Unreachable else Raised e))"

definition client_end_run :: "decoders \<Rightarrow> http_response option \<Rightarrow> client_run option call" where
  "client_end_run dec answer =
     (case answer of
        None \<Rightarrow> Unreachable
      | Some res \<Rightarrow>
          if rs_status res = 404 then Answered None
          else if \<not> is_success res then Unreachable
          else
            (case and_then (json_body res) (run_of dec) of
               Inr run \<Rightarrow> Answered (Some run)
             | Inl e \<Rightarrow> if caught e then Unreachable else Raised e))"

section \<open>Whether the service is up\<close>

definition DET_FRESH_S :: time where
  "DET_FRESH_S = seconds 12"

text \<open>\<open>_last_answer\<close> after a request at \<open>now\<close>; any response counts, whatever its status.\<close>

definition client_request :: "time \<Rightarrow> http_response option \<Rightarrow> time option \<Rightarrow> time option" where
  "client_request now answer last_answer = (case answer of None \<Rightarrow> last_answer | Some _ \<Rightarrow> Some now)"

definition det_is_reachable :: "time \<Rightarrow> http_response option \<Rightarrow> time option \<Rightarrow> bool \<times> time option" where
  "det_is_reachable now answer last_answer =
     (case last_answer of
        Some t \<Rightarrow>
          if now - t < DET_FRESH_S then (True, last_answer)
          else (answer \<noteq> None, client_request now answer last_answer)
      | None \<Rightarrow> (answer \<noteq> None, client_request now answer last_answer))"

section \<open>What a well-formed answer is read as\<close>

lemma caught_simps [simp]:
  "caught ValueError" "caught KeyError" "caught TypeError" "\<not> caught AttributeError"
  by (simp_all add: caught_def)

lemma and_then_Inl: "and_then r f = Inl e \<longleftrightarrow> r = Inl e \<or> (\<exists>x. r = Inr x \<and> f x = Inl e)"
  by (cases r) simp_all

lemma and_then_Inr: "and_then r f = Inr y \<longleftrightarrow> (\<exists>x. r = Inr x \<and> f x = Inr y)"
  by (cases r) simp_all

fun_cases subscript_InlE: "subscript v k = Inl e"
fun_cases get_method_InlE: "get_method v k = Inl e"

lemma subscript_caught: "subscript v k = Inl e \<Longrightarrow> caught e"
  by (cases v) (auto split: option.splits)

lemma json_body_caught: "json_body res = Inl e \<Longrightarrow> caught e"
  by (auto simp: json_body_def split: option.splits)

lemma optional_caught: "optional decode v = Inl e \<Longrightarrow> caught e"
  by (auto simp: optional_def split: if_splits option.splits)

text \<open>The one error that is not caught: a Run view that is not an object, or a Session id that is
  neither text nor null.\<close>

definition odd_view :: "json \<Rightarrow> bool" where
  "odd_view v \<longleftrightarrow>
     (case v of
        Json_object kvs \<Rightarrow>
          (case map_of kvs ''session_id'' of
             None \<Rightarrow> False
           | Some (Json_string _) \<Rightarrow> False
           | Some Json_null \<Rightarrow> False
           | Some _ \<Rightarrow> True)
      | _ \<Rightarrow> True)"

lemma uuid_of_caught:
  "uuid_of parse v = Inl e \<Longrightarrow> caught e \<longleftrightarrow> v = Json_null \<or> (\<exists>s. v = Json_string s)"
  by (cases v) (auto split: option.splits)

lemma run_of_caught: "run_of dec v = Inl e \<Longrightarrow> caught e \<longleftrightarrow> \<not> odd_view v"
proof (cases v)
  case (Json_object kvs)
  assume e: "run_of dec v = Inl e"
  show ?thesis
  proof (cases "map_of kvs ''session_id''")
    case None
    with e Json_object have "e = KeyError" by (simp add: run_of_def)
    with None Json_object show ?thesis by (simp add: odd_view_def)
  next
    case (Some x)
    show ?thesis
    proof (cases "uuid_of (dec_uuid dec) x")
      case (Inl e')
      with e Json_object Some have "e = e'" by (simp add: run_of_def)
      with uuid_of_caught [OF Inl] Inl show ?thesis
        by (cases x) (auto simp: odd_view_def Json_object Some split: option.splits)
    next
      case (Inr u)
      then obtain s where "x = Json_string s" by (cases x) auto
      moreover have "caught e"
        using e Json_object Some Inr
        by (auto simp: run_of_def and_then_Inl split: option.splits dest: optional_caught)
      ultimately show ?thesis by (simp add: odd_view_def Json_object Some)
    qed
  qed
qed (simp_all add: run_of_def odd_view_def)

end
