(* ===== verification/Detection_Sync.thy ===== *)
theory Detection_Sync
  imports Detection_Client Sessions "HOL-Library.AList"
begin

text \<open>
  \<open>WebApp/backend/app/services/detection_sync.py\<close>: each Session's detection, held in memory, and
  the operations that move it: the start a new Session asks for (\<open>watch\<close>), the end around a
  completion or deletion (\<open>ending\<close>), and the reconcile round. The backend runs them on threads
  that interleave at each lock section, database statement and HTTP call, so an operation is a
  program (\<open>det_prog\<close>): the tree of its atomic actions, each with what follows for every reply.
  A program is executed interleaved with others (\<open>det_step\<close>, in \<open>Detection_Races\<close>).
\<close>

section \<open>The memory\<close>

text \<open>
  \<open>_states\<close> and \<open>_since\<close> as the association lists their dictionaries are (in insertion order),
  \<open>_watched\<close>, and the monotonic clock.
\<close>

record memory =
  dm_states :: "(uuid \<times> detection) list"
  dm_since :: "(uuid \<times> time) list"
  dm_watched :: "uuid set"
  dm_clock :: time

definition detection_of :: "det_state \<Rightarrow> det_reason option \<Rightarrow> string option \<Rightarrow> detection" where
  "detection_of state reason detail = \<lparr>det_state = state, det_reason = reason, det_detail = detail\<rparr>"

definition NONE :: detection where "NONE = detection_of DNone None None"
definition WATCHING :: detection where "WATCHING = detection_of Watching None None"
definition SERVICE_DOWN :: detection where "SERVICE_DOWN = detection_of Not_watching (Some Service_down) None"
definition CAMERA_DISABLED :: detection where
  "CAMERA_DISABLED = detection_of Not_watching (Some Camera_disabled) None"
definition RUN_LOST :: detection where "RUN_LOST = detection_of Not_watching None None"
definition END_UNCONFIRMED :: detection where "END_UNCONFIRMED = detection_of End_unconfirmed None None"

definition IDLE :: "det_state list" where "IDLE = [DNone, Watching, Not_watching]"

definition STUCK_S :: time where "STUCK_S = seconds 60"

definition state_of :: "memory \<Rightarrow> uuid \<Rightarrow> detection" where
  "state_of m sid = (case map_of (dm_states m) sid of None \<Rightarrow> NONE | Some d \<Rightarrow> d)"

text \<open>\<open>_set\<close>: whether it changed the state or it already read that, and what it pushed.\<close>

definition unless_unwatched :: "memory \<Rightarrow> uuid \<Rightarrow> detection \<Rightarrow> detection" where
  "unless_unwatched m sid d = (if d = END_UNCONFIRMED \<and> sid \<notin> dm_watched m then NONE else d)"

definition note_watched :: "uuid \<Rightarrow> detection \<Rightarrow> uuid set \<Rightarrow> uuid set" where
  "note_watched sid d watched =
     (if d = WATCHING then insert sid watched
      else if det_state d \<in> {DNone, End_unconfirmed} then watched - {sid}
      else watched)"

definition set_state ::
    "uuid \<Rightarrow> detection \<Rightarrow> det_state list option \<Rightarrow> memory \<Rightarrow> bool \<times> memory \<times> (uuid \<times> live_event) list" where
  "set_state sid detection only_from m =
     (let current = state_of m sid in
      if (case only_from of None \<Rightarrow> False | Some states \<Rightarrow> det_state current \<notin> set states)
      then (False, m, [])
      else
        let d = unless_unwatched m sid detection;
            m1 = m\<lparr>dm_watched := note_watched sid d (dm_watched m)\<rparr>
        in if d = current then (True, m1, [])
           else if det_state d = DNone
           then (True, m1\<lparr>dm_states := AList.delete sid (dm_states m), dm_since := AList.delete sid (dm_since m)\<rparr>,
                 [(sid, DetectionUpdatedEvent d)])
           else (True, m1\<lparr>dm_states := AList.update sid d (dm_states m),
                          dm_since := AList.update sid (dm_clock m) (dm_since m)\<rparr>,
                 [(sid, DetectionUpdatedEvent d)]))"

section \<open>Programs\<close>

text \<open>
  What can leave an operation by an exception: an error of the client's reading, a \<open>Detection\<close>
  Pydantic refuses (its detail is not text), an HTTP refusal of a handler, and the database.
\<close>

datatype det_exn = Client_error py_error | Validation_error | Http_error http_error | Db_error

datatype det_prog =
    Finish "det_exn option"
  | Set_state uuid detection "det_state list option" "bool \<Rightarrow> det_prog"
  | Look "memory \<Rightarrow> det_prog"
  | Unwatch uuid det_prog
  | Push uuid live_event det_prog
  | Ask_status "client_run option call \<Rightarrow> det_prog"
  | Ask_start uuid string "(refusal + client_run) call \<Rightarrow> det_prog"
  | Ask_end uuid "client_run option call \<Rightarrow> det_prog"
  | Use_db "db \<Rightarrow> db \<times> (uuid \<times> live_event) list \<times> det_prog" det_prog

text \<open>
  \<open>Use_db f failed\<close> is one database transaction: \<open>f\<close> of the committed state, with what is pushed
  after the commit, or \<open>failed\<close> when the database raised.
\<close>

definition starting :: "uuid \<Rightarrow> det_prog \<Rightarrow> det_prog" where
  "starting sid k = Set_state sid (detection_of Starting None None) None (\<lambda>_. k)"

section \<open>Following a Run\<close>

definition MOVED_PX :: real where "MOVED_PX = 2"

text \<open>\<open>_to_picture\<close>; \<open>None\<close> is the \<open>ZeroDivisionError\<close> of a point at infinity.\<close>

fun to_picture :: "matrix3 \<Rightarrow> point \<Rightarrow> point option" where
  "to_picture ((h00, h01, h02), (h10, h11, h12), (h20, h21, h22)) (x, y) =
     (let w = h20 * x + h21 * y + h22 in
      if w = 0 then None
      else Some ((h00 * x + h01 * y + h02) / w, (h10 * x + h11 * y + h12) / w))"

definition dist_px :: "point \<Rightarrow> point \<Rightarrow> real" where
  "dist_px p q = sqrt ((fst p - fst q)\<^sup>2 + (snd p - snd q)\<^sup>2)"

text \<open>The \<open>any\<close> over the outlines' points: it stops at the first that moved.\<close>

fun any_moved :: "matrix3 \<Rightarrow> matrix3 \<Rightarrow> point list \<Rightarrow> bool option" where
  "any_moved H G [] = Some False"
| "any_moved H G (p # ps) =
     (case to_picture H p of
        None \<Rightarrow> None
      | Some a \<Rightarrow>
          (case to_picture G p of
             None \<Rightarrow> None
           | Some b \<Rightarrow> if dist_px a b > MOVED_PX then Some True else any_moved H G ps))"

datatype follow_result = Not_newer | Followed run_row bool | Follow_raised

definition follow :: "run_row option \<Rightarrow> client_run \<Rightarrow> follow_result" where
  "follow stored run =
     (case (stored, cr_looked_at run) of
        (Some row, Some looked_at) \<Rightarrow>
          if looked_at \<le> r_watched_until row then Not_newer
          else if r_places row = [] then Follow_raised
          else
            (case cr_registered run of
               None \<Rightarrow> Followed (row\<lparr>r_watched_until := looked_at\<rparr>) False
             | Some new \<Rightarrow>
                 (case any_moved (pl_template_to_picture (last (r_places row)))
                         (pl_template_to_picture new) (concat (bv_targets (r_baseline_view row))) of
                    None \<Rightarrow> Follow_raised
                  | Some moved \<Rightarrow>
                      Followed (row\<lparr>r_watched_until := looked_at,
                                    r_places := (if moved then r_places row @ [new] else r_places row)\<rparr>)
                        moved))
      | _ \<Rightarrow> Not_newer)"

text \<open>\<open>_follow\<close> on the row locked for update: one transaction, and the push after its commit. What
  it raises is caught by both its callers, which leave the row as it was.\<close>

definition follow_db ::
    "uuid \<Rightarrow> time \<Rightarrow> client_run \<Rightarrow> det_prog \<Rightarrow> db \<Rightarrow> db \<times> (uuid \<times> live_event) list \<times> det_prog" where
  "follow_db sid taken_at run k d =
     (case follow (get_run_for_update d sid taken_at) run of
        Followed row moved \<Rightarrow>
          (save_run d row, if moved then [(r_session_id row, RunMovedEvent (r_taken_at row))] else [], k)
      | _ \<Rightarrow> (d, [], k))"

definition baseline_run :: "uuid \<Rightarrow> uuid \<Rightarrow> string \<Rightarrow> baseline_view \<Rightarrow> run_row" where
  "baseline_run rid sid alias view =
     \<lparr>r_id = rid, r_session_id = sid, r_camera_alias = alias, r_taken_at = bv_taken_at view,
      r_baseline_view = view,
      r_places = [\<lparr>pl_at = bv_taken_at view, pl_template_to_picture = bv_template_to_picture view\<rparr>],
      r_watched_until = bv_taken_at view\<rparr>"

text \<open>\<open>_store_run\<close>: three statements, each of which may find the database down.\<close>

definition store_run :: "uuid \<Rightarrow> uuid \<Rightarrow> string \<Rightarrow> client_run \<Rightarrow> det_prog \<Rightarrow> det_prog" where
  "store_run rid sid alias run k =
     (case cr_baseline_view run of
        None \<Rightarrow> k
      | Some view \<Rightarrow>
          Use_db (\<lambda>d. (d, [],
            if session_exists d sid then
              Use_db (\<lambda>d.
                case add_run_once d (baseline_run rid sid alias view) of
                  Inl _ \<Rightarrow> (d, [], k)
                | Inr d' \<Rightarrow> (d', [], Use_db (follow_db sid (bv_taken_at view) run k) k)) k
            else k)) k)"

section \<open>Ending and watching\<close>

text \<open>\<open>_end_run\<close>: \<open>answered\<close> continues with whether this end ended the Run, \<open>raised\<close> with what it
  raised.\<close>

definition end_session_run :: "uuid \<Rightarrow> (bool \<Rightarrow> det_prog) \<Rightarrow> (det_exn \<Rightarrow> det_prog) \<Rightarrow> det_prog" where
  "end_session_run sid answered raised =
     Ask_end sid (\<lambda>a.
       case a of
         Unreachable \<Rightarrow> answered False
       | Raised e \<Rightarrow> raised (Client_error e)
       | Answered None \<Rightarrow> answered False
       | Answered (Some ended) \<Rightarrow>
           Unwatch sid
             (case cr_baseline_view ended of
                None \<Rightarrow> answered True
              | Some view \<Rightarrow>
                  Use_db (follow_db sid (bv_taken_at view) ended (answered True)) (answered True)))"

text \<open>\<open>Detection(..., detail=e.detail)\<close>: refused unless the detail is text or null.\<close>

fun refused_detection :: "det_reason option \<Rightarrow> json \<Rightarrow> detection option" where
  "refused_detection reason (Json_string s) = Some (detection_of Not_watching reason (Some s))"
| "refused_detection reason Json_null = Some (detection_of Not_watching reason None)"
| "refused_detection reason _ = None"

text \<open>What \<open>watch\<close> makes of a start's answer: the detection to set, or \<open>None\<close> when making it
  raised.\<close>

definition watch_result :: "uuid \<Rightarrow> (refusal + client_run) call \<Rightarrow> detection option" where
  "watch_result sid a =
     (case a of
        Unreachable \<Rightarrow> Some SERVICE_DOWN
      | Raised _ \<Rightarrow> Some RUN_LOST
      | Answered (Inr _) \<Rightarrow> Some WATCHING
      | Answered (Inl e) \<Rightarrow>
          if rf_status e \<noteq> 409 then refused_detection (Some Stream_failed) (rf_detail e)
          else if rf_holder e = Some sid then refused_detection None (rf_detail e)
          else refused_detection (Some Other_session) (rf_detail e))"

definition watch_set :: "uuid \<Rightarrow> detection \<Rightarrow> det_state list \<Rightarrow> det_prog" where
  "watch_set sid result only_from =
     Set_state sid result (Some only_from) (\<lambda>changed.
       if \<not> changed \<and> det_state result = Watching then
         Look (\<lambda>m.
           if det_state (state_of m sid) \<in> {Ending, DNone}
           then end_session_run sid (\<lambda>_. Finish None) (\<lambda>e. Finish (Some e))
           else Finish None)
       else Finish None)"

definition watch :: "uuid \<Rightarrow> uuid \<Rightarrow> string \<Rightarrow> det_state list \<Rightarrow> det_prog" where
  "watch rid sid alias only_from =
     Ask_start sid alias (\<lambda>a.
       case watch_result sid a of
         None \<Rightarrow> Finish (Some Validation_error)
       | Some result \<Rightarrow>
           (case a of
              Answered (Inr run) \<Rightarrow> store_run rid sid alias run (watch_set sid result only_from)
            | _ \<Rightarrow> watch_set sid result only_from))"

text \<open>\<open>_still_active\<close>: not known reads not active.\<close>

definition still_active :: "uuid \<Rightarrow> (bool \<Rightarrow> det_prog) \<Rightarrow> det_prog" where
  "still_active sid k =
     Use_db (\<lambda>d. (d, [], k (case get_session d sid of None \<Rightarrow> False | Some s \<Rightarrow> is_active s))) (k False)"

text \<open>
  \<open>ending\<close>, a context manager: \<open>block\<close> is the \<open>with\<close> block's transaction and \<open>after\<close> what follows it
  on success. The Session was read before (\<open>s\<close>).
\<close>

definition run_block ::
    "(db \<Rightarrow> (http_error + 'a) \<times> db) \<Rightarrow> ('a \<Rightarrow> det_prog) \<Rightarrow> (det_exn \<Rightarrow> det_prog) \<Rightarrow> det_prog" where
  "run_block block done failed =
     Use_db (\<lambda>d. case block d of
        (Inl e, d') \<Rightarrow> (d', [], failed (Http_error e))
      | (Inr x, d') \<Rightarrow> (d', [], done x)) (failed Db_error)"

definition ending_failed :: "uuid \<Rightarrow> bool \<Rightarrow> det_exn \<Rightarrow> det_prog" where
  "ending_failed sid confirmed e =
     (if confirmed then Set_state sid NONE None (\<lambda>_. Finish (Some e))
      else still_active sid (\<lambda>active.
        Set_state sid (if active then NONE else END_UNCONFIRMED) None (\<lambda>_. Finish (Some e))))"

definition ending_block ::
    "uuid \<Rightarrow> bool \<Rightarrow> (db \<Rightarrow> (http_error + 'a) \<times> db) \<Rightarrow> ('a \<Rightarrow> det_prog) \<Rightarrow> det_prog" where
  "ending_block sid confirmed block after =
     run_block block
       (\<lambda>x. Set_state sid (if confirmed then NONE else END_UNCONFIRMED) None (\<lambda>_. after x))
       (ending_failed sid confirmed)"

definition ending ::
    "session_row \<Rightarrow> (db \<Rightarrow> (http_error + 'a) \<times> db) \<Rightarrow> ('a \<Rightarrow> det_prog) \<Rightarrow> det_prog" where
  "ending s block after =
     Look (\<lambda>m.
       if s_status s \<noteq> Active \<or> s_camera_id s = None \<and> map_of (dm_states m) (s_id s) = None
       then run_block block after (\<lambda>e. Finish (Some e))
       else
         Set_state (s_id s) (detection_of Ending None None) None (\<lambda>_.
           end_session_run (s_id s)
             (\<lambda>confirmed. ending_block (s_id s) confirmed block after)
             (ending_failed (s_id s) False)))"

definition reopened :: "uuid \<Rightarrow> det_prog \<Rightarrow> det_prog" where
  "reopened sid k = Set_state sid NONE (Some [End_unconfirmed]) (\<lambda>_. k)"

section \<open>One reconcile round\<close>

text \<open>The Sessions whose state is no longer theirs to keep, and the starts that were lost.\<close>

definition ended_sessions :: "uuid list \<Rightarrow> memory \<Rightarrow> uuid list" where
  "ended_sessions active_ids m = filter (\<lambda>sid. sid \<notin> set active_ids) (map fst (dm_states m))"

definition stuck_sessions :: "memory \<Rightarrow> (uuid \<times> det_state) list" where
  "stuck_sessions m =
     map (\<lambda>(sid, d). (sid, det_state d))
       (filter (\<lambda>(sid, d). det_state d = Starting
          \<and> dm_clock m - (case map_of (dm_since m) sid of None \<Rightarrow> dm_clock m | Some t \<Rightarrow> t) > STUCK_S)
        (dm_states m))"

primrec let_go :: "uuid list \<Rightarrow> (uuid \<times> det_state) list \<Rightarrow> det_prog \<Rightarrow> det_prog" where
  "let_go active_ids [] k = k"
| "let_go active_ids (x # xs) k =
     Set_state (fst x) (if fst x \<in> set active_ids then NONE else END_UNCONFIRMED) (Some [snd x])
       (\<lambda>_. let_go active_ids xs k)"

primrec forget :: "uuid list \<Rightarrow> det_prog \<Rightarrow> det_prog" where
  "forget [] k = k"
| "forget (sid # sids) k = Set_state sid NONE (Some IDLE) (\<lambda>_. forget sids k)"

text \<open>The Session that should hold the Run, with its camera.\<close>

definition wanted_session :: "camera_row list \<Rightarrow> session_row option \<Rightarrow> (session_row \<times> camera_row) option" where
  "wanted_session cameras session =
     (case session of
        None \<Rightarrow> None
      | Some s \<Rightarrow>
          (case s_camera_id s of
             None \<Rightarrow> None
           | Some cid \<Rightarrow>
               (case find (\<lambda>c. c_id c = cid) cameras of
                  None \<Rightarrow> None
                | Some c \<Rightarrow> if c_enabled c then Some (s, c) else None)))"

definition is_state :: "string \<Rightarrow> client_run \<Rightarrow> bool" where
  "is_state name run \<longleftrightarrow> cr_state run = Json_string name"

text \<open>A wanted Session with no start or end under way: keep its Run, or ask for one.\<close>

definition retry :: "uuid \<Rightarrow> session_row \<Rightarrow> camera_row \<Rightarrow> det_state \<Rightarrow> det_prog" where
  "retry rid s c current =
     Look (\<lambda>m.
       let shown = (if current = DNone then detection_of Starting None None
                    else if current = Watching then RUN_LOST
                    else state_of m (s_id s))
       in Set_state (s_id s) shown (Some [current]) (\<lambda>changed.
            if changed then watch rid (s_id s) (c_alias c) [det_state shown] else Finish None))"

definition keep_watched :: "uuid \<Rightarrow> session_row \<Rightarrow> camera_row \<Rightarrow> client_run option \<Rightarrow> det_prog" where
  "keep_watched rid s c run =
     Look (\<lambda>m.
       let current = det_state (state_of m (s_id s)) in
       if current \<notin> set IDLE \<or> (case run of None \<Rightarrow> False | Some r \<Rightarrow> is_state ''ending'' r)
       then Finish None
       else
         case run of
           None \<Rightarrow> retry rid s c current
         | Some r \<Rightarrow>
             if is_state ''watching'' r
             then store_run rid (s_id s) (c_alias c) r
                    (Set_state (s_id s) WATCHING (Some IDLE) (\<lambda>_. Finish None))
             else retry rid s c current)"

definition keep_wanted ::
    "uuid \<Rightarrow> (session_row \<times> camera_row) option \<Rightarrow> client_run option \<Rightarrow> det_prog" where
  "keep_wanted rid wanted run =
     (case wanted of None \<Rightarrow> Finish None | Some (s, c) \<Rightarrow> keep_watched rid s c run)"

definition run_to_end :: "(session_row \<times> camera_row) option \<Rightarrow> client_run option \<Rightarrow> client_run option" where
  "run_to_end wanted run =
     (case run of
        None \<Rightarrow> None
      | Some r \<Rightarrow>
          if \<not> is_state ''ending'' r \<and> (case wanted of None \<Rightarrow> True | Some (s, c) \<Rightarrow> cr_session_id r \<noteq> s_id s)
          then Some r else None)"

definition settle_run ::
    "uuid \<Rightarrow> (session_row \<times> camera_row) option \<Rightarrow> (client_run option) option \<Rightarrow> det_prog" where
  "settle_run rid wanted status =
     (case status of
        None \<Rightarrow>
          (case wanted of
             None \<Rightarrow> Finish None
           | Some (s, c) \<Rightarrow> Set_state (s_id s) SERVICE_DOWN (Some IDLE) (\<lambda>_. Finish None))
      | Some run \<Rightarrow>
          (case run_to_end wanted run of
             Some r \<Rightarrow> end_session_run (cr_session_id r) (\<lambda>_. keep_wanted rid wanted None) (\<lambda>e. Finish (Some e))
           | None \<Rightarrow> keep_wanted rid wanted run))"

definition show_camera :: "session_row option \<Rightarrow> (session_row \<times> camera_row) option \<Rightarrow> det_prog \<Rightarrow> det_prog" where
  "show_camera session wanted k =
     (case session of
        None \<Rightarrow> k
      | Some s \<Rightarrow>
          if wanted \<noteq> None then k
          else Look (\<lambda>m.
            if s_camera_id s \<noteq> None \<or> state_of m (s_id s) \<noteq> NONE
            then Set_state (s_id s) CAMERA_DISABLED (Some IDLE) (\<lambda>_. k) else k))"

definition reconcile_round ::
    "uuid \<Rightarrow> (client_run option) option \<Rightarrow> camera_row list \<Rightarrow> session_row list \<Rightarrow> det_prog" where
  "reconcile_round rid status cameras active =
     Look (\<lambda>m.
       let active_ids = map s_id active;
           session = (case active of [] \<Rightarrow> None | s # _ \<Rightarrow> Some s);
           wanted = wanted_session cameras session
       in let_go active_ids (stuck_sessions m)
            (forget (ended_sessions active_ids m)
              (show_camera session wanted (settle_run rid wanted status))))"

definition reconcile :: "uuid \<Rightarrow> det_prog" where
  "reconcile rid =
     Ask_status (\<lambda>a.
       let go = (\<lambda>status.
         Use_db (\<lambda>d. (d, [],
           Use_db (\<lambda>d'. (d', [], reconcile_round rid status (list_all_cameras d) (list_active d')))
             (Finish (Some Db_error)))) (Finish (Some Db_error)))
       in case a of
            Raised e \<Rightarrow> Finish (Some (Client_error e))
          | Unreachable \<Rightarrow> go None
          | Answered run \<Rightarrow> go (Some run))"

text \<open>\<open>run_forever\<close>: the rounds never end the loop; it logs only when it starts or stops failing.\<close>

datatype round_log = Round_restored | Round_failing

definition forever_round :: "bool \<Rightarrow> det_exn option \<Rightarrow> bool \<times> round_log option" where
  "forever_round failing raised =
     (case raised of
        None \<Rightarrow> (False, if failing then Some Round_restored else None)
      | Some _ \<Rightarrow> (True, if failing then None else Some Round_failing))"

end
