(* ===== verification/Bullets.thy ===== *)
theory Bullets
  imports Sessions
begin

text \<open>
  \<open>WebApp/backend/app/services/bullets.py\<close>: reporting a Bullet Hole (by the model while its Session
  is active, by the operator once it is completed) and deleting one. Both lock the Session's row
  first, so each is one atomic step on the Session's Bullet Holes. The ranks of a Session's
  non-deleted Bullet Holes are always exactly 1 to their number.
\<close>

section \<open>Operations\<close>

definition bullet_not_found :: http_error where
  "bullet_not_found = HTTP 404 ''Bullet hole not found''"

definition refused_by_status :: "hole_source \<Rightarrow> status \<Rightarrow> http_error option" where
  "refused_by_status source st =
     (if source = Model \<and> st = Completed
      then Some (HTTP 409 ''Session is completed; model cannot add bullets to a closed session'')
      else if source = Manual \<and> st = Active
      then Some (HTTP 409
        ''Session is still active; manual bullets can only be added after the session ends'')
      else None)"

definition new_bullet :: "uuid \<Rightarrow> uuid \<Rightarrow> bullet_create \<Rightarrow> time \<Rightarrow> int \<Rightarrow> bullet_row" where
  "new_bullet bid sid body created rank =
     \<lparr>b_id = bid, b_session_id = sid, b_first_seen_at = bc_first_seen_at body,
      b_position_x = bc_position_x body, b_position_y = bc_position_y body,
      b_target_index = bc_target_index body, b_x_mm = bc_x_mm body, b_y_mm = bc_y_mm body,
      b_source = bc_source body, b_idempotency_key = bc_idempotency_key body,
      b_rank = rank, b_deleted_at = None, b_created_at = created\<rparr>"

definition stored_duplicate :: "db \<Rightarrow> uuid \<Rightarrow> bullet_create \<Rightarrow> bullet_row option" where
  "stored_duplicate d sid body =
     (case bc_idempotency_key body of None \<Rightarrow> None | Some key \<Rightarrow> find_by_idempotency_key d sid key)"

definition create_bullet ::
    "uuid \<Rightarrow> uuid \<Rightarrow> bullet_create \<Rightarrow> time \<Rightarrow> db \<Rightarrow> (http_error + bullet_row) \<times> db" where
  "create_bullet bid sid body created d =
     (case get_session_for_update d sid of
        None \<Rightarrow> (Inl session_not_found, d)
      | Some session \<Rightarrow>
          (case refused_by_status (bc_source body) (s_status session) of
             Some e \<Rightarrow> (Inl e, d)
           | None \<Rightarrow>
               (case stored_duplicate d sid body of
                  Some dup \<Rightarrow> (Inr dup, d)
                | None \<Rightarrow>
                    let b = new_bullet bid sid body created (int (count_active d sid) + 1) in
                    (case add_bullet d b of
                       Inl _ \<Rightarrow> (Inl internal_error, d)
                     | Inr d' \<Rightarrow> (Inr b, d')))))"

definition mark_deleted :: "db \<Rightarrow> uuid \<Rightarrow> time \<Rightarrow> db" where
  "mark_deleted d bid now =
     d\<lparr>db_bullets :=
        update_where (\<lambda>b. b_id b = bid) (\<lambda>b. b\<lparr>b_deleted_at := Some now\<rparr>) (db_bullets d)\<rparr>"

definition delete_bullet :: "uuid \<Rightarrow> uuid \<Rightarrow> time \<Rightarrow> db \<Rightarrow> (http_error + unit) \<times> db" where
  "delete_bullet sid bid now d =
     (case get_session_for_update d sid of
        None \<Rightarrow> (Inl session_not_found, d)
      | Some _ \<Rightarrow>
          (case get_active_bullet d sid bid of
             None \<Rightarrow> (Inl bullet_not_found, d)
           | Some b \<Rightarrow>
               (case commit (mark_deleted (move_up_after d sid (b_rank b)) bid now) of
                  Inl _ \<Rightarrow> (Inl internal_error, d)
                | Inr d' \<Rightarrow> (Inr (), d'))))"

section \<open>Ranks\<close>

definition ranked_of :: "db \<Rightarrow> uuid \<Rightarrow> bullet_row list" where
  "ranked_of d sid = filter (\<lambda>b. b_session_id b = sid \<and> not_deleted b) (db_bullets d)"

definition ranks_ok :: "db \<Rightarrow> bool" where
  "ranks_ok d \<longleftrightarrow>
     (\<forall>b\<in>set (db_bullets d).
        distinct (map b_rank (ranked_of d (b_session_id b)))
        \<and> b_rank ` set (ranked_of d (b_session_id b)) = {1..int (length (ranked_of d (b_session_id b)))})"

lemma count_active_ranked: "count_active d sid = length (ranked_of d sid)"
  by (simp add: count_active_def ranked_of_def count_where_def)

lemma ranks_okD:
  assumes "ranks_ok d"
  shows "distinct (map b_rank (ranked_of d sid))"
    "b_rank ` set (ranked_of d sid) = {1..int (length (ranked_of d sid))}"
proof -
  have "ranked_of d sid = []" if "\<not> (\<exists>b\<in>set (db_bullets d). b_session_id b = sid)"
    using that by (auto simp: ranked_of_def filter_empty_conv)
  then show "distinct (map b_rank (ranked_of d sid))"
    "b_rank ` set (ranked_of d sid) = {1..int (length (ranked_of d sid))}"
    using assms by (cases "\<exists>b\<in>set (db_bullets d). b_session_id b = sid"; force simp: ranks_ok_def)+
qed

lemma ranks_okI:
  "(\<And>sid. distinct (map b_rank (ranked_of d sid))) \<Longrightarrow>
   (\<And>sid. b_rank ` set (ranked_of d sid) = {1..int (length (ranked_of d sid))}) \<Longrightarrow> ranks_ok d"
  by (simp add: ranks_ok_def)

text \<open>Closing the gap a deleted rank leaves.\<close>

definition close_gap :: "int \<Rightarrow> int \<Rightarrow> int" where
  "close_gap k r = (if r > k then r - 1 else r)"

lemma close_gap_inj: "inj_on (close_gap k) (A - {k})"
  by (auto simp: inj_on_def close_gap_def)

lemma close_gap_image:
  assumes "1 \<le> k" "k \<le> n"
  shows "close_gap k ` ({1..n} - {k}) = {1..n - 1}"
proof
  show "close_gap k ` ({1..n} - {k}) \<subseteq> {1..n - 1}"
    using assms by (auto simp: close_gap_def)
  show "{1..n - 1} \<subseteq> close_gap k ` ({1..n} - {k})"
  proof
    fix j assume j: "j \<in> {1..n - 1}"
    show "j \<in> close_gap k ` ({1..n} - {k})"
    proof (cases "j < k")
      case True
      then show ?thesis using j by (intro image_eqI [of _ _ j]) (auto simp: close_gap_def)
    next
      case False
      then show ?thesis using j assms by (intro image_eqI [of _ _ "j + 1"]) (auto simp: close_gap_def)
    qed
  qed
qed

section \<open>What the operations change\<close>

lemma create_bullet_changes:
  assumes "create_bullet bid sid body created d = (r, d')" "d' \<noteq> d"
  obtains session b where "get_session d sid = Some session"
    "refused_by_status (bc_source body) (s_status session) = None" "stored_duplicate d sid body = None"
    "b = new_bullet bid sid body created (int (count_active d sid) + 1)"
    "d' = d\<lparr>db_bullets := db_bullets d @ [b]\<rparr>" "constraints d'" "r = Inr b"
proof -
  define b where "b = new_bullet bid sid body created (int (count_active d sid) + 1)"
  obtain session where s: "get_session d sid = Some session"
    using assms by (cases "get_session d sid") (auto simp: create_bullet_def)
  have n: "refused_by_status (bc_source body) (s_status session) = None" "stored_duplicate d sid body = None"
    using assms s by (auto simp: create_bullet_def split: option.splits)
  have "add_bullet d b = Inr d' \<and> r = Inr b"
    using assms s n by (cases "add_bullet d b") (auto simp: create_bullet_def b_def Let_def)
  then show ?thesis using that [OF s n b_def] by (auto simp: add_bullet_def)
qed

lemma delete_bullet_constraints:
  assumes "constraints d"
  shows "constraints (mark_deleted (move_up_after d sid k) bid now)"
  using assms
  unfolding constraints_iff primary_keys_def uq_sessions_one_active_def
    uq_bullet_holes_session_idempotency_key_def uq_cameras_alias_def
    uq_recording_intervals_one_open_def uq_runs_session_id_taken_at_def foreign_keys_def
  by (auto simp: mark_deleted_def move_up_after_def map_update_where_key set_update_where
      intro!: unique_index_update split: if_splits)

lemma delete_bullet_cases:
  assumes "constraints d"
  shows "delete_bullet sid bid now d =
     (case get_session d sid of
        None \<Rightarrow> (Inl session_not_found, d)
      | Some _ \<Rightarrow>
          (case get_active_bullet d sid bid of
             None \<Rightarrow> (Inl bullet_not_found, d)
           | Some b \<Rightarrow> (Inr (), mark_deleted (move_up_after d sid (b_rank b)) bid now)))"
proof -
  note commits = commit_ok [OF delete_bullet_constraints [OF assms]]
  show ?thesis by (simp add: delete_bullet_def commits split: option.splits)
qed

section \<open>Both keep the ranks\<close>

lemma ranked_append:
  "ranked_of (d\<lparr>db_bullets := db_bullets d @ [b]\<rparr>) t =
     ranked_of d t @ (if b_session_id b = t \<and> not_deleted b then [b] else [])"
  by (simp add: ranked_of_def)

lemma create_bullet_ranks:
  assumes "ranks_ok d"
  shows "ranks_ok (snd (create_bullet bid sid body created d))"
proof (cases "create_bullet bid sid body created d")
  case (Pair r d')
  show ?thesis
  proof (cases "d' = d")
    case True
    then show ?thesis using Pair assms by simp
  next
    case False
    obtain b where b: "b = new_bullet bid sid body created (int (count_active d sid) + 1)"
      and d': "d' = d\<lparr>db_bullets := db_bullets d @ [b]\<rparr>"
      by (rule create_bullet_changes [OF Pair False])
    have rank: "b_rank b = int (length (ranked_of d sid)) + 1" "b_session_id b = sid" "not_deleted b"
      by (simp_all add: b new_bullet_def count_active_ranked)
    have "b_rank b \<notin> b_rank ` set (ranked_of d sid)"
      using ranks_okD(2) [OF assms, of sid] rank by simp
    moreover have "insert (int n + 1) {1..int n} = {1..int n + 1}" for n
      by auto
    ultimately have "ranks_ok d'"
      unfolding d' using rank
      by (intro ranks_okI) (simp_all add: ranked_append ranks_okD [OF assms] add.commute)
    then show ?thesis using Pair by simp
  qed
qed

text \<open>The Session's ranked Bullet Holes after a deletion.\<close>

definition moved_up :: "int \<Rightarrow> bullet_row \<Rightarrow> bullet_row" where
  "moved_up k b = b\<lparr>b_rank := close_gap k (b_rank b)\<rparr>"

lemma ranked_after_delete:
  assumes dist: "distinct (map b_id (db_bullets d))"
    and b: "get_active_bullet d sid bid = Some b"
  shows "ranked_of (mark_deleted (move_up_after d sid (b_rank b)) bid now) t =
    (if t = sid then map (moved_up (b_rank b)) (filter (\<lambda>c. b_id c \<noteq> bid) (ranked_of d sid)) else ranked_of d t)"
proof -
  have in': "b \<in> set (db_bullets d)" "b_id b = bid" "b_session_id b = sid" "not_deleted b"
    using b by (auto simp: get_active_bullet_def dest: find_SomeD)
  have own: "b_session_id c = sid" if "c \<in> set (db_bullets d)" "b_id c = bid" for c
    using distinct_key_eq [OF dist that(1) in'(1)] that(2) in' by simp
  define g where "g = (\<lambda>c. let m = (if b_session_id c = sid \<and> not_deleted c \<and> b_rank c > b_rank b
      then c\<lparr>b_rank := b_rank c - 1\<rparr> else c) in if b_id m = bid then m\<lparr>b_deleted_at := Some now\<rparr> else m)"
  have g: "b_session_id (g c) = b_session_id c" "not_deleted (g c) \<longleftrightarrow> not_deleted c \<and> b_id c \<noteq> bid" for c
    by (simp_all add: g_def Let_def)
  have g_own: "g c = moved_up (b_rank b) c" if "b_session_id c = sid" "not_deleted c" "b_id c \<noteq> bid" for c
    using that by (simp add: g_def moved_up_def close_gap_def)
  have g_other: "g c = c" if "b_session_id c \<noteq> sid" "b_id c \<noteq> bid" for c
    using that by (simp add: g_def)
  have "ranked_of (mark_deleted (move_up_after d sid (b_rank b)) bid now) t
      = filter (\<lambda>c. b_session_id c = t \<and> not_deleted c) (map g (db_bullets d))"
    by (simp add: ranked_of_def mark_deleted_def move_up_after_def update_where_def g_def Let_def comp_def)
  also have "\<dots> = map g (filter (\<lambda>c. b_id c \<noteq> bid) (ranked_of d t))"
    by (simp add: filter_map comp_def g ranked_of_def conj_ac cong: conj_cong)
  also have "\<dots> = (if t = sid then map (moved_up (b_rank b)) (filter (\<lambda>c. b_id c \<noteq> bid) (ranked_of d sid))
      else ranked_of d t)"
  proof (cases "t = sid")
    case True
    then show ?thesis using g_own by (simp add: ranked_of_def)
  next
    case False
    then have keep: "b_id c \<noteq> bid" if "c \<in> set (ranked_of d t)" for c
      using own that by (auto simp: ranked_of_def)
    then have "filter (\<lambda>c. b_id c \<noteq> bid) (ranked_of d t) = ranked_of d t"
      by (simp add: filter_id_conv)
    moreover have "map g (ranked_of d t) = ranked_of d t"
      using False keep g_other by (intro map_idI) (auto simp: ranked_of_def)
    ultimately show ?thesis using False by simp
  qed
  finally show ?thesis .
qed

lemma delete_bullet_ranks:
  assumes c: "constraints d" and ok: "ranks_ok d"
  shows "ranks_ok (snd (delete_bullet sid bid now d))"
proof (cases "get_session d sid = None \<or> get_active_bullet d sid bid = None")
  case True
  then show ?thesis
    using ok by (auto simp: delete_bullet_cases [OF c] split: option.splits)
next
  case False
  then obtain b where b: "get_active_bullet d sid bid = Some b" and s: "get_session d sid \<noteq> None"
    by auto
  define xs where "xs = ranked_of d sid"
  define ys where "ys = filter (\<lambda>c. b_id c \<noteq> bid) xs"
  define k where "k = b_rank b"
  let ?d = "mark_deleted (move_up_after d sid k) bid now"
  have dist: "distinct (map b_id (db_bullets d))"
    using c by (simp add: constraints_iff primary_keys_def)
  have bin: "b \<in> set xs" "b_id b = bid"
    using b by (auto simp: get_active_bullet_def xs_def ranked_of_def dest: find_SomeD)
  have ranks: "distinct (map b_rank xs)" "b_rank ` set xs = {1..int (length xs)}"
    using ranks_okD [OF ok] by (simp_all add: xs_def)
  have ids: "distinct (map b_id xs)"
    using dist by (simp add: xs_def ranked_of_def distinct_map_filter)
  have same_id: "c = b" if "c \<in> set xs" "b_id c = bid" for c
    using distinct_key_eq [OF ids that(1) bin(1)] that(2) bin(2) by simp
  have same_rank: "c = b" if "c \<in> set xs" "b_rank c = k" for c
    using distinct_key_eq [OF ranks(1) that(1) bin(1)] that(2) by (simp add: k_def)
  have ys_set: "set ys = set xs - {b}"
    using bin(2) same_id by (auto simp: ys_def)
  have "b_rank ` (set xs - {b}) = b_rank ` set xs - {k}"
    using same_rank by (auto simp: k_def)
  then have "b_rank ` set ys = {1..int (length xs)} - {k}"
    by (simp add: ys_set ranks(2))
  moreover have k: "1 \<le> k" "k \<le> int (length xs)"
  proof -
    have "k \<in> b_rank ` set xs" using bin(1) by (simp add: k_def)
    then have "k \<in> {1..int (length xs)}" by (simp only: ranks(2))
    then show "1 \<le> k" "k \<le> int (length xs)" by simp_all
  qed
  moreover have len: "int (length ys) = int (length xs) - 1"
  proof -
    have "distinct xs" using ids by (simp add: distinct_map)
    moreover from this have "distinct ys" by (simp add: ys_def)
    ultimately have "length xs = card (set xs)" "length ys = card (set ys)"
      by (simp_all add: distinct_card)
    then have "length xs = card (set xs)" "length ys = card (set xs - {b})"
      by (simp_all only: ys_set)
    moreover have "card (set xs) = Suc (card (set xs - {b}))"
      using bin(1) by (intro card.remove) simp_all
    ultimately show ?thesis by linarith
  qed
  ultimately have img: "close_gap k ` b_rank ` set ys = {1..int (length ys)}"
    using close_gap_image by simp
  have "distinct (map b_rank ys)" using ranks(1) by (simp add: ys_def distinct_map_filter)
  moreover have "inj_on (close_gap k) (b_rank ` set ys)"
    using \<open>b_rank ` set ys = _\<close> close_gap_inj by simp
  ultimately have dist': "distinct (map (\<lambda>c. close_gap k (b_rank c)) ys)"
    by (auto simp: distinct_map inj_on_def)
  have after: "ranked_of ?d t = (if t = sid then map (moved_up k) ys else ranked_of d t)" for t
    using ranked_after_delete [OF dist b] by (simp add: k_def ys_def xs_def)
  have own: "map b_rank (map (moved_up k) ys) = map (\<lambda>c. close_gap k (b_rank c)) ys"
    by (simp add: moved_up_def)
  have own_set: "b_rank ` set (map (moved_up k) ys) = {1..int (length ys)}"
    using img by (simp add: moved_up_def image_image)
  have "ranks_ok ?d"
  proof (rule ranks_okI)
    fix t
    show "distinct (map b_rank (ranked_of ?d t))"
      using dist' ranks_okD(1) [OF ok, of t]
      by (cases "t = sid") (simp_all only: after own if_True if_False refl)
    show "b_rank ` set (ranked_of ?d t) = {1..int (length (ranked_of ?d t))}"
      unfolding after using own_set ranks_okD(2) [OF ok, of t]
      by (cases "t = sid") (simp_all only: if_True if_False length_map refl simp_thms)
  qed
  then show ?thesis using b s by (auto simp: delete_bullet_cases [OF c] k_def)
qed

section \<open>Both keep the invariant of the Sessions\<close>

lemma same_sessions_ok:
  "sessions_ok d \<Longrightarrow> constraints d' \<Longrightarrow> db_sessions d' = db_sessions d \<Longrightarrow> db_intervals d' = db_intervals d
    \<Longrightarrow> sessions_ok d'"
  by (simp add: sessions_ok_def session_ok_def has_open_def)

lemma create_bullet_ok:
  assumes "sessions_ok d"
  shows "sessions_ok (snd (create_bullet bid sid body created d))"
proof (cases "snd (create_bullet bid sid body created d) = d")
  case False
  then show ?thesis
    by (rule create_bullet_changes [OF surjective_pairing])
       (auto intro!: same_sessions_ok [OF assms])
qed (simp add: assms)

lemma delete_bullet_ok:
  assumes "sessions_ok d"
  shows "sessions_ok (snd (delete_bullet sid bid now d))"
  using delete_bullet_constraints [OF sessions_ok_constraints [OF assms]]
  by (auto simp: delete_bullet_cases [OF sessions_ok_constraints [OF assms]] assms mark_deleted_def
      move_up_after_def split: option.splits intro!: same_sessions_ok [OF assms])

section \<open>Properties\<close>

text \<open>A Bullet Hole the model reports into the active Session of \<open>recording_db\<close>.\<close>

definition reported :: bullet_create where
  "reported = \<lparr>bc_first_seen_at = 150, bc_position_x = 1/2, bc_position_y = 1/4,
     bc_target_index = Some 0, bc_x_mm = Some 3, bc_y_mm = Some 4, bc_source = Model,
     bc_idempotency_key = Some ''run-1''\<rparr>"

definition one_bullet_db :: db where
  "one_bullet_db = recording_db\<lparr>db_bullets := [new_bullet 5 1 reported 160 1]\<rparr>"

lemma one_bullet_db_eq: "create_bullet 5 1 reported 160 recording_db = (Inr (new_bullet 5 1 reported 160 1), one_bullet_db)"
  by (simp add: create_bullet_def recording_db_eq get_session_def refused_by_status_def reported_def
      stored_duplicate_def find_by_idempotency_key_def new_bullet_def count_active_def add_bullet_def
      commit_ok constraints_defs empty_db_def one_bullet_db_def Let_def)

lemma one_bullet_db_ok: "sessions_ok one_bullet_db" "ranks_ok one_bullet_db"
proof -
  have "ranks_ok recording_db" by (simp add: ranks_ok_def recording_db_eq empty_db_def)
  then show "ranks_ok one_bullet_db"
    using create_bullet_ranks [of recording_db 5 1 reported 160] by (simp add: one_bullet_db_eq del: One_nat_def)
  show "sessions_ok one_bullet_db"
    using create_bullet_ok [OF recording_db_ok, of 5 1 reported 160] by (simp add: one_bullet_db_eq del: One_nat_def)
qed

text \<open>
  C17. Reporting and deleting Bullet Holes, in any order and with any outcome, keeps the ranks of
  every Session's non-deleted Bullet Holes exactly 1 to their number, each used once.
\<close>

theorem bullet_operations_keep_ranks:
  assumes "constraints d" "ranks_ok d"
  shows "ranks_ok (snd (create_bullet bid sid body created d))
    \<and> ranks_ok (snd (delete_bullet sid' bid' now d))"
  using assms create_bullet_ranks delete_bullet_ranks by blast

theorem bullet_operations_keep_ranks_witness:
  "ranks_ok (snd (create_bullet 6 1 (reported\<lparr>bc_idempotency_key := None\<rparr>) 170 one_bullet_db))
    \<and> ranks_ok (snd (delete_bullet 1 5 180 one_bullet_db))"
  using bullet_operations_keep_ranks
    [OF sessions_ok_constraints [OF one_bullet_db_ok(1)] one_bullet_db_ok(2)] by blast

lemma created_is_found:
  assumes first: "create_bullet bid sid body created d = (Inr b, d')"
    and key: "bc_idempotency_key body = Some k"
  shows "db_sessions d' = db_sessions d" "find_by_idempotency_key d' sid k = Some b"
proof -
  have "db_sessions d' = db_sessions d \<and> find_by_idempotency_key d' sid k = Some b"
  proof (cases "d' = d")
    case True
    have "stored_duplicate d sid body = Some b"
    proof (rule ccontr)
      assume "stored_duplicate d sid body \<noteq> Some b"
      then have "add_bullet d (new_bullet bid sid body created (int (count_active d sid) + 1)) = Inr d"
        using first True
        by (auto simp: create_bullet_def Let_def split: option.splits sum.splits)
      then show False
        by (auto simp: add_bullet_def dest!: arg_cong [where f = db_bullets])
    qed
    then show ?thesis using True key by (auto simp: stored_duplicate_def)
  next
    case False
    obtain b' where b': "b' = new_bullet bid sid body created (int (count_active d sid) + 1)"
      and d': "d' = d\<lparr>db_bullets := db_bullets d @ [b']\<rparr>" and r: "Inr b = (Inr b' :: http_error + _)"
      and none: "stored_duplicate d sid body = None"
      by (rule create_bullet_changes [OF first False])
    have "find_by_idempotency_key d sid k = None"
      using none key by (simp add: stored_duplicate_def)
    then have "\<forall>c\<in>set (db_bullets d). \<not> (b_idempotency_key c = Some k \<and> b_session_id c = sid)"
      by (auto simp: find_by_idempotency_key_def find_None_iff)
    then have "find (\<lambda>c. b_idempotency_key c = Some k \<and> b_session_id c = sid) (db_bullets d @ [b']) = Some b'"
      using key by (simp add: find_append_none) (simp add: b' new_bullet_def)
    then show ?thesis using r by (simp add: d' find_by_idempotency_key_def)
  qed
  then show "db_sessions d' = db_sessions d" "find_by_idempotency_key d' sid k = Some b" by blast+
qed

text \<open>
  A report with an idempotency key that is sent again, with whatever other content, stores
  nothing: it answers the row stored the first time, and the database does not change.
\<close>

theorem retried_report_stores_nothing:
  assumes first: "create_bullet bid sid body created d = (Inr b, d')"
    and key: "bc_idempotency_key body = Some k"
    and again: "bc_idempotency_key body2 = Some k" "bc_source body2 = bc_source body"
  shows "create_bullet bid2 sid body2 created2 d' = (Inr b, d')"
proof -
  obtain s where "get_session d sid = Some s" "refused_by_status (bc_source body) (s_status s) = None"
    using first by (auto simp: create_bullet_def split: option.splits)
  then show ?thesis
    using created_is_found [OF first key] again
    by (simp add: create_bullet_def get_session_def stored_duplicate_def)
qed

theorem retried_report_stores_nothing_witness:
  "create_bullet 6 1 (reported\<lparr>bc_x_mm := None\<rparr>) 999 one_bullet_db
    = (Inr (new_bullet 5 1 reported 160 1), one_bullet_db)"
  using retried_report_stores_nothing [OF one_bullet_db_eq, of "''run-1''" "reported\<lparr>bc_x_mm := None\<rparr>"]
  by (simp add: reported_def)

text \<open>
  Deleting a Bullet Hole that is not deleted succeeds; of its Session's Bullet Holes the others
  remain, those ranked after it one rank higher up and those before it as they were, and no other
  Session's ranks change.
\<close>

theorem deleting_renumbers:
  assumes "constraints d" "get_session d sid = Some s" "get_active_bullet d sid bid = Some b"
  shows "\<exists>d'. delete_bullet sid bid now d = (Inr (), d')
    \<and> map (\<lambda>c. (b_id c, b_rank c)) (ranked_of d' t) =
      (if t = sid
       then map (\<lambda>c. (b_id c, if b_rank c > b_rank b then b_rank c - 1 else b_rank c))
              (filter (\<lambda>c. b_id c \<noteq> bid) (ranked_of d sid))
       else map (\<lambda>c. (b_id c, b_rank c)) (ranked_of d t))"
proof -
  have "distinct (map b_id (db_bullets d))"
    using assms(1) by (simp add: constraints_iff primary_keys_def)
  then show ?thesis
    using assms ranked_after_delete [OF _ assms(3), of now t]
    by (simp add: delete_bullet_cases moved_up_def close_gap_def)
qed

theorem deleting_renumbers_witness:
  "\<exists>d'. delete_bullet 1 5 180 one_bullet_db = (Inr (), d') \<and> ranked_of d' 1 = []"
  using deleting_renumbers [OF sessions_ok_constraints [OF one_bullet_db_ok(1)],
      of 1 "hd (db_sessions one_bullet_db)" 5 "new_bullet 5 1 reported 160 1" 180 1]
  by (simp add: one_bullet_db_def recording_db_eq get_session_def get_active_bullet_def new_bullet_def
      ranked_of_def)

text \<open>
  A report retried after the operator deleted its Bullet Hole answers the deleted row, stores
  nothing and restores nothing: the row the caller gets (and publishes as created) is deleted.
\<close>

theorem retry_answers_deleted_row:
  assumes c: "constraints d" and key: "find_by_idempotency_key d sid k = Some b" "not_deleted b"
    and body: "bc_idempotency_key body = Some k" "bc_source body = b_source b"
    and s: "get_session d sid = Some s" "refused_by_status (b_source b) (s_status s) = None"
  shows "\<exists>d' b'. delete_bullet sid (b_id b) now d = (Inr (), d')
    \<and> create_bullet bid sid body created d' = (Inr b', d') \<and> b_id b' = b_id b \<and> b_deleted_at b' = Some now"
proof -
  have b: "b \<in> set (db_bullets d)" "b_session_id b = sid" "b_idempotency_key b = Some k"
    using key(1) by (auto simp: find_by_idempotency_key_def dest: find_SomeD)
  have dist: "distinct (map b_id (db_bullets d))" using c by (simp add: constraints_iff primary_keys_def)
  have act: "get_active_bullet d sid (b_id b) = Some b"
  proof (cases "get_active_bullet d sid (b_id b)")
    case None
    then show ?thesis using b key(2) by (auto simp: get_active_bullet_def find_None_iff)
  next
    case (Some x)
    then have "x \<in> set (db_bullets d)" "b_id x = b_id b"
      by (auto simp: get_active_bullet_def dest: find_SomeD)
    then show ?thesis using distinct_key_eq [OF dist _ b(1)] Some by simp
  qed
  define d' where "d' = mark_deleted (move_up_after d sid (b_rank b)) (b_id b) now"
  have "b\<lparr>b_deleted_at := Some now\<rparr> \<in> set (db_bullets d')"
    unfolding d'_def mark_deleted_def move_up_after_def
    by (simp add: set_update_where image_image, rule image_eqI [of _ _ b]) (use b in auto)
  then have "find_by_idempotency_key d' sid k \<noteq> None"
    unfolding find_by_idempotency_key_def find_None_iff not_not
    by (intro exI [of _ "b\<lparr>b_deleted_at := Some now\<rparr>"]) (simp add: b(2,3))
  then obtain b' where b': "find_by_idempotency_key d' sid k = Some b'" by blast
  then have b'_in: "b' \<in> set (db_bullets d')" "b_idempotency_key b' = Some k" "b_session_id b' = sid"
    by (auto simp: find_by_idempotency_key_def dest: find_SomeD)
  define g where "g = (\<lambda>c. let m = (if b_session_id c = sid \<and> not_deleted c \<and> b_rank c > b_rank b
      then c\<lparr>b_rank := b_rank c - 1\<rparr> else c) in if b_id m = b_id b then m\<lparr>b_deleted_at := Some now\<rparr> else m)"
  have "db_bullets d' = map g (db_bullets d)"
    by (simp add: d'_def mark_deleted_def move_up_after_def update_where_def g_def comp_def Let_def)
  then obtain x where x: "x \<in> set (db_bullets d)" "b' = g x" using b'_in(1) by auto
  have g: "b_id (g c) = b_id c" "b_idempotency_key (g c) = b_idempotency_key c" "b_session_id (g c) = b_session_id c"
    "b_id c = b_id b \<Longrightarrow> b_deleted_at (g c) = Some now" for c
    by (simp_all add: g_def Let_def)
  have "unique_index (\<lambda>b. (b_session_id b, b_idempotency_key b)) (\<lambda>b. b_idempotency_key b \<noteq> None) (db_bullets d)"
    using c by (simp add: constraints_iff uq_bullet_holes_session_idempotency_key_def)
  from unique_indexD [OF this x(1) b(1)] have "x = b"
    using b b'_in by (simp add: x(2) g)
  moreover have "delete_bullet sid (b_id b) now d = (Inr (), d')"
    using c s(1) act by (simp add: delete_bullet_cases d'_def)
  moreover have "get_session d' sid = Some s"
    using s(1) by (simp add: get_session_def d'_def mark_deleted_def move_up_after_def)
  then have "create_bullet bid sid body created d' = (Inr b', d')"
    using s(2) body b' by (simp add: create_bullet_def stored_duplicate_def)
  ultimately show ?thesis using x(2) g by blast
qed

theorem retry_answers_deleted_row_witness:
  "\<exists>d' b'. delete_bullet 1 5 180 one_bullet_db = (Inr (), d')
    \<and> create_bullet 6 1 reported 190 d' = (Inr b', d') \<and> b_deleted_at b' = Some 180"
proof -
  have "find_by_idempotency_key one_bullet_db 1 ''run-1'' = Some (new_bullet 5 1 reported 160 1)"
    "get_session one_bullet_db 1 = Some (hd (db_sessions one_bullet_db))"
    "refused_by_status (b_source (new_bullet 5 1 reported 160 1)) (s_status (hd (db_sessions one_bullet_db))) = None"
    by (simp_all add: one_bullet_db_def recording_db_eq find_by_idempotency_key_def new_bullet_def
        reported_def get_session_def refused_by_status_def)
  then show ?thesis
    using retry_answers_deleted_row [OF sessions_ok_constraints [OF one_bullet_db_ok(1)],
        of 1 "''run-1''" "new_bullet 5 1 reported 160 1" reported "hd (db_sessions one_bullet_db)" 180 6 190]
    by (auto simp: reported_def new_bullet_def)
qed

end
