(* ===== verification/Grouping.thy ===== *)
theory Grouping
  imports Bullets
begin

text \<open>
  The Group statistics of a Session, per Target, in both places the repository computes them:
  \<open>WebApp/backend/app/services/groups.py\<close> (over the stored, operator-corrected Bullet Holes) and
  \<open>ImageRecognitionService/detection/groups.py\<close> (over the reported ones). Python's floats are
  real numbers here.
\<close>

section \<open>Python's statistics and math\<close>

definition py_dist :: "point \<Rightarrow> point \<Rightarrow> real" where
  "py_dist p q = sqrt ((fst p - fst q)\<^sup>2 + (snd p - snd q)\<^sup>2)"

definition fmean :: "real list \<Rightarrow> real" where
  "fmean xs = sum_list xs / of_nat (length xs)"

definition median :: "real list \<Rightarrow> real" where
  "median xs =
     (let ys = sort xs; n = length ys in
      if odd n then ys ! (n div 2) else (ys ! (n div 2 - 1) + ys ! (n div 2)) / 2)"

fun combinations2 :: "'a list \<Rightarrow> ('a \<times> 'a) list" where
  "combinations2 [] = []"
| "combinations2 (x # xs) = map (Pair x) xs @ combinations2 xs"

definition extreme_spread :: "point list \<Rightarrow> real" where
  "extreme_spread pts = Max (set (map (\<lambda>(a, b). py_dist a b) (combinations2 pts)))"

definition mpi :: "point list \<Rightarrow> point" where
  "mpi pts = (sum_list (map fst pts) / of_nat (length pts), sum_list (map snd pts) / of_nat (length pts))"

definition rms :: "real list \<Rightarrow> real" where
  "rms r = sqrt (fmean (map (\<lambda>d. d * d) r))"

section \<open>One Group\<close>

definition group_of :: "int \<Rightarrow> point list \<Rightarrow> group_stats" where
  "group_of target_index pts =
     (let n = length pts; m = mpi pts; r = map (\<lambda>p. py_dist p m) pts in
      if 2 \<le> n
      then \<lparr>g_target_index = target_index, g_n = n, g_mpi_x_mm = fst m, g_mpi_y_mm = snd m,
            g_cep_mm = Some (median r), g_mean_radius_mm = Some (fmean r),
            g_rms_radius_mm = Some (rms r), g_extreme_spread_mm = Some (extreme_spread pts)\<rparr>
      else \<lparr>g_target_index = target_index, g_n = n, g_mpi_x_mm = fst m, g_mpi_y_mm = snd m,
            g_cep_mm = None, g_mean_radius_mm = None, g_rms_radius_mm = None,
            g_extreme_spread_mm = None\<rparr>)"

text \<open>The dict the Detection Service returns for one Target.\<close>

record det_group =
  dg_n :: nat
  dg_mpi :: point
  dg_cep :: "real option"
  dg_mean_radius :: "real option"
  dg_rms_radius :: "real option"
  dg_extreme_spread :: "real option"

definition det_group_of :: "point list \<Rightarrow> det_group" where
  "det_group_of pts =
     (let n = length pts;
          m = mpi pts;
          stats = \<lparr>dg_n = n, dg_mpi = m, dg_cep = None, dg_mean_radius = None, dg_rms_radius = None,
                   dg_extreme_spread = None\<rparr> in
      if 2 \<le> n
      then let r = map (\<lambda>p. py_dist p m) pts in
           stats\<lparr>dg_cep := Some (median r), dg_mean_radius := Some (fmean r),
                 dg_rms_radius := Some (rms r), dg_extreme_spread := Some (extreme_spread pts)\<rparr>
      else stats)"

lemma group_of_simps [simp]:
  "g_n (group_of t pts) = length pts" "g_target_index (group_of t pts) = t"
  by (simp_all add: group_of_def Let_def)

section \<open>Grouping by Target\<close>

text \<open>\<open>by_target.setdefault(t, []).append(p)\<close> on a dict kept in insertion order.\<close>

fun add_point :: "int \<Rightarrow> point \<Rightarrow> (int \<times> point list) list \<Rightarrow> (int \<times> point list) list" where
  "add_point t p [] = [(t, [p])]"
| "add_point t p ((u, ps) # rest) = (if u = t then (u, ps @ [p]) # rest else (u, ps) # add_point t p rest)"

text \<open>What the backend's \<open>grouping\<close> reads of a Bullet Hole.\<close>

record hole =
  h_target_index :: "int option"
  h_x_mm :: "real option"
  h_y_mm :: "real option"
  h_source :: hole_source

definition hole_of :: "bullet_row \<Rightarrow> hole" where
  "hole_of b = \<lparr>h_target_index = b_target_index b, h_x_mm = b_x_mm b, h_y_mm = b_y_mm b, h_source = b_source b\<rparr>"

fun group_hole :: "hole \<Rightarrow> (int \<times> point list) list \<times> nat \<times> nat \<Rightarrow> (int \<times> point list) list \<times> nat \<times> nat" where
  "group_hole h (by_target, misses, without_position) =
     (case (h_target_index h, h_x_mm h, h_y_mm h) of
        (Some t, Some x, Some y) \<Rightarrow> (add_point t (x, y) by_target, misses, without_position)
      | _ \<Rightarrow>
          if h_target_index h = None \<and> h_source h = Model
          then (by_target, misses + 1, without_position)
          else (by_target, misses, without_position + 1))"

definition grouping :: "hole list \<Rightarrow> grouping_stats" where
  "grouping holes =
     (let (by_target, misses, without_position) = fold group_hole holes ([], 0, 0) in
      \<lparr>gr_groups = map (\<lambda>(t, pts). group_of t pts) (sort_key fst by_target),
       gr_misses = misses, gr_without_position = without_position\<rparr>)"

text \<open>
  The Detection Service's holes: a Target or none, and the millimetre offset the outlook gave them.
  \<open>None\<close> is the \<open>TypeError\<close> of \<open>map(float, None)\<close>.
\<close>

record det_hole =
  dh_target :: "int option"
  dh_mm :: "point option"

fun det_by_target :: "det_hole list \<Rightarrow> (int \<times> point list) list \<Rightarrow> (int \<times> point list) list option" where
  "det_by_target [] acc = Some acc"
| "det_by_target (h # hs) acc =
     (case dh_target h of
        None \<Rightarrow> det_by_target hs acc
      | Some t \<Rightarrow> (case dh_mm h of None \<Rightarrow> None | Some p \<Rightarrow> det_by_target hs (add_point t p acc)))"

definition det_groups :: "det_hole list \<Rightarrow> ((int \<times> det_group) list \<times> nat) option" where
  "det_groups holes =
     (case det_by_target holes [] of
        None \<Rightarrow> None
      | Some by_target \<Rightarrow>
          Some (map (\<lambda>(t, pts). (t, det_group_of pts)) (sort_key fst by_target),
                count_where (\<lambda>h. dh_target h = None) holes))"

section \<open>The dict of points\<close>

definition points_of :: "int \<Rightarrow> hole list \<Rightarrow> point list" where
  "points_of t holes =
     List.map_filter (\<lambda>h. case (h_target_index h, h_x_mm h, h_y_mm h) of
        (Some u, Some x, Some y) \<Rightarrow> if u = t then Some (x, y) else None | _ \<Rightarrow> None) holes"

lemma add_point_keys: "fst ` set (add_point t p d) = insert t (fst ` set d)"
  by (induction t p d rule: add_point.induct) auto

lemma add_point_distinct: "distinct (map fst d) \<Longrightarrow> distinct (map fst (add_point t p d))"
proof (induction t p d rule: add_point.induct)
  case (2 t p u ps rest)
  then show ?case using add_point_keys [of t p rest] by (auto simp flip: set_map)
qed simp

lemma add_point_map_of:
  "map_of (add_point t p d) u =
     (if u = t then Some ((case map_of d t of None \<Rightarrow> [] | Some ps \<Rightarrow> ps) @ [p]) else map_of d u)"
  by (induction t p d rule: add_point.induct) auto

definition is_miss :: "hole \<Rightarrow> bool" where
  "is_miss h \<longleftrightarrow> h_target_index h = None \<and> h_source h = Model"

definition has_position :: "hole \<Rightarrow> bool" where
  "has_position h \<longleftrightarrow> h_target_index h \<noteq> None \<and> h_x_mm h \<noteq> None \<and> h_y_mm h \<noteq> None"

lemma group_hole_cases:
  "group_hole h (d, m, w) =
     (if has_position h
      then (add_point (the (h_target_index h)) (the (h_x_mm h), the (h_y_mm h)) d, m, w)
      else if is_miss h then (d, m + 1, w) else (d, m, w + 1))"
  by (auto simp: has_position_def is_miss_def split: option.splits)

lemma points_of_append [simp]: "points_of t (hs @ gs) = points_of t hs @ points_of t gs"
  by (simp add: points_of_def List.map_filter_def)

lemma points_of_one:
  "points_of t [h] =
     (if has_position h \<and> h_target_index h = Some t then [(the (h_x_mm h), the (h_y_mm h))] else [])"
  by (auto simp: points_of_def List.map_filter_def has_position_def split: option.splits)

text \<open>The loop after some holes: the dict holds their points, and the counts the rest.\<close>

definition grouped :: "hole list \<Rightarrow> (int \<times> point list) list \<times> nat \<times> nat \<Rightarrow> bool" where
  "grouped hs = (\<lambda>(d, m, w).
     distinct (map fst d)
     \<and> (\<forall>t. map_of d t = (if points_of t hs = [] then None else Some (points_of t hs)))
     \<and> m = count_where is_miss hs
     \<and> w = count_where (\<lambda>h. \<not> has_position h \<and> \<not> is_miss h) hs)"

lemma grouped_step:
  assumes "grouped hs (d, m, w)"
  shows "grouped (hs @ [h]) (group_hole h (d, m, w))"
proof (cases "has_position h")
  case True
  moreover from True have "\<not> is_miss h" by (simp add: is_miss_def has_position_def)
  ultimately show ?thesis
    using assms
    by (auto simp: group_hole_cases grouped_def add_point_distinct add_point_map_of points_of_one
        has_position_def simp del: group_hole.simps)
next
  case False
  then show ?thesis
    using assms by (simp add: group_hole_cases grouped_def points_of_one del: group_hole.simps)
qed

lemma fold_grouped: "grouped hs (fold group_hole hs ([], 0, 0))"
proof (induction hs rule: rev_induct)
  case Nil
  then show ?case by (simp add: grouped_def points_of_def List.map_filter_def)
next
  case (snoc h hs)
  then show ?case
    by (cases "fold group_hole hs ([], 0, 0)") (simp add: grouped_step del: group_hole.simps)
qed

definition targets_of :: "hole list \<Rightarrow> int set" where
  "targets_of hs = {t. points_of t hs \<noteq> []}"

lemma sorted_dict:
  assumes "distinct (map fst d)" "\<And>t. map_of d t = (if f t = [] then None else Some (f t))"
  shows "sort_key fst d = map (\<lambda>t. (t, f t)) (sorted_list_of_set {t. f t \<noteq> []})"
proof -
  have keys: "fst ` set d = {t. f t \<noteq> []}"
    using assms(2) by (auto simp: dom_map_of_conv_image_fst [symmetric] dom_def split: if_splits)
  have "map fst (sort_key fst d) = sorted_list_of_set (fst ` set d)"
  proof (rule sorted_distinct_set_unique)
    show "sorted (map fst (sort_key fst d))" by simp
    show "distinct (map fst (sort_key fst d))" using assms(1) by (simp add: distinct_map)
  qed simp_all
  moreover have "sort_key fst d = map (\<lambda>t. (t, f t)) (map fst (sort_key fst d))"
  proof -
    have "x = (fst x, f (fst x))" if "x \<in> set d" for x
      using assms that map_of_eq_Some_iff [OF assms(1), of "fst x" "snd x"]
      by (cases x) (auto split: if_splits)
    then have "map (\<lambda>x. (fst x, f (fst x))) (sort_key fst d) = sort_key fst d"
      by (intro map_idI) simp
    then show ?thesis by (simp add: comp_def)
  qed
  ultimately show ?thesis by (simp add: keys)
qed

text \<open>No hole is counted twice or left out.\<close>

definition groups_inv :: "nat \<Rightarrow> (int \<times> point list) list \<times> nat \<times> nat \<Rightarrow> bool" where
  "groups_inv k = (\<lambda>(d, m, w). sum_list (map (length \<circ> snd) d) + m + w = k)"

lemma add_point_total:
  "sum_list (map (length \<circ> snd) (add_point t p d)) = Suc (sum_list (map (length \<circ> snd) d))"
  by (induction t p d rule: add_point.induct) auto

lemma group_hole_inv: "groups_inv k st \<Longrightarrow> groups_inv (Suc k) (group_hole h st)"
  by (cases st) (simp add: groups_inv_def group_hole_cases add_point_total del: group_hole.simps)

lemma fold_group_hole_inv:
  "groups_inv k st \<Longrightarrow> groups_inv (k + length hs) (fold group_hole hs st)"
proof (induction hs arbitrary: k st)
  case (Cons h hs)
  then show ?case using Cons.IH [OF group_hole_inv [OF Cons.prems]] by simp
qed simp

lemma sum_list_sort_key: "sum_list (map g (sort_key f xs)) = sum_list (map g xs)"
  for g :: "'a \<Rightarrow> nat"
proof -
  have ins: "sum_list (map g (insort_key f x ys)) = g x + sum_list (map g ys)" for x ys
    by (induction ys) auto
  show ?thesis by (induction xs) (simp_all add: ins)
qed

section \<open>Statistics\<close>

definition cpoint :: "point \<Rightarrow> complex" where
  "cpoint p = Complex (fst p) (snd p)"

lemma py_dist_norm: "py_dist p q = cmod (cpoint p - cpoint q)"
  by (simp add: py_dist_def cpoint_def cmod_def)

lemma py_dist_commute: "py_dist p q = py_dist q p"
  by (simp add: py_dist_norm norm_minus_commute)

lemma py_dist_nonneg [simp]: "0 \<le> py_dist p q"
  by (simp add: py_dist_norm)

lemma py_dist_self [simp]: "py_dist p p = 0"
  by (simp add: py_dist_def)

lemma sum_list_Re: "Re (sum_list zs) = sum_list (map Re zs)"
  by (induction zs) auto

lemma sum_list_Im: "Im (sum_list zs) = sum_list (map Im zs)"
  by (induction zs) auto

lemma cpoint_mpi: "pts \<noteq> [] \<Longrightarrow> of_nat (length pts) * cpoint (mpi pts) = sum_list (map cpoint pts)"
  by (intro complex_eqI) (simp_all add: mpi_def cpoint_def sum_list_Re sum_list_Im comp_def)

lemma combinations2_pairs: "x \<in> set xs \<Longrightarrow> y \<in> set xs \<Longrightarrow> x \<noteq> y \<Longrightarrow>
    (x, y) \<in> set (combinations2 xs) \<or> (y, x) \<in> set (combinations2 xs)"
  by (induction xs) auto

lemma combinations2_sub: "(x, y) \<in> set (combinations2 xs) \<Longrightarrow> x \<in> set xs \<and> y \<in> set xs"
  by (induction xs) auto

lemma combinations2_nonempty: "2 \<le> length xs \<Longrightarrow> combinations2 xs \<noteq> []"
  by (cases xs; cases "tl xs") auto

lemma extreme_spread_nonneg: "2 \<le> length pts \<Longrightarrow> 0 \<le> extreme_spread pts"
  using combinations2_nonempty [of pts]
  by (cases "combinations2 pts") (auto simp: extreme_spread_def le_max_iff_disj Max_ge_iff)

lemma dist_le_spread:
  assumes "2 \<le> length pts" "p \<in> set pts" "q \<in> set pts"
  shows "py_dist p q \<le> extreme_spread pts"
proof (cases "p = q")
  case True
  then show ?thesis using extreme_spread_nonneg [OF assms(1)] by simp
next
  case False
  have "py_dist p q \<in> (\<lambda>(a, b). py_dist a b) ` set (combinations2 pts)"
    using combinations2_pairs [OF assms(2,3) False]
  proof
    assume "(q, p) \<in> set (combinations2 pts)"
    then show ?thesis by (intro image_eqI [of _ _ "(q, p)"]) (simp_all add: py_dist_commute)
  qed (auto intro: image_eqI [of _ _ "(p, q)"])
  then show ?thesis unfolding extreme_spread_def by (intro Max_ge) auto
qed

lemma norm_sum_list_le: "(\<And>z. z \<in> set zs \<Longrightarrow> cmod z \<le> b) \<Longrightarrow> cmod (sum_list zs) \<le> of_nat (length zs) * b"
proof (induction zs)
  case (Cons z zs)
  then have "cmod (sum_list zs) \<le> of_nat (length zs) * b" "cmod z \<le> b" by auto
  then show ?case
    using norm_triangle_ineq [of z "sum_list zs"] by (simp add: algebra_simps)
qed simp

lemma sum_list_diff_const: "sum_list (map (\<lambda>q. c - f q) xs) = of_nat (length xs) * c - sum_list (map f xs)"
  for c :: complex
  by (induction xs) (auto simp: algebra_simps)

text \<open>No Bullet Hole lies further from the MPI than the extreme spread.\<close>

lemma radius_le_spread:
  assumes n: "2 \<le> length pts" and p: "p \<in> set pts"
  shows "py_dist p (mpi pts) \<le> extreme_spread pts"
proof -
  define k where "k = (of_nat (length pts) :: real)"
  have k: "0 < k" using n by (cases pts) (simp_all add: k_def)
  have ne: "pts \<noteq> []" using n by (cases pts) simp_all
  have "sum_list (map (\<lambda>q. cpoint p - cpoint q) pts)
      = of_nat (length pts) * (cpoint p - cpoint (mpi pts))"
    using cpoint_mpi [OF ne] by (simp add: sum_list_diff_const right_diff_distrib)
  moreover have "cmod (sum_list (map (\<lambda>q. cpoint p - cpoint q) pts)) \<le> k * extreme_spread pts"
  proof -
    have "cmod z \<le> extreme_spread pts" if "z \<in> set (map (\<lambda>q. cpoint p - cpoint q) pts)" for z
      using that dist_le_spread [OF n p] by (auto simp: py_dist_norm)
    then have "cmod (sum_list (map (\<lambda>q. cpoint p - cpoint q) pts))
        \<le> of_nat (length (map (\<lambda>q. cpoint p - cpoint q) pts)) * extreme_spread pts"
      by (rule norm_sum_list_le)
    then show ?thesis by (simp add: k_def)
  qed
  ultimately have "k * py_dist p (mpi pts) \<le> k * extreme_spread pts"
    by (simp add: norm_mult py_dist_norm k_def)
  then show ?thesis using k by simp
qed

lemma fmean_bounds:
  assumes "xs \<noteq> []" "\<And>x. x \<in> set xs \<Longrightarrow> l \<le> x \<and> x \<le> u"
  shows "l \<le> fmean xs" "fmean xs \<le> u"
proof -
  have "of_nat (length xs) * l \<le> sum_list xs \<and> sum_list xs \<le> of_nat (length xs) * u"
    using assms(2)
  proof (induction xs)
    case (Cons x xs)
    then have "l \<le> x" "x \<le> u"
      "of_nat (length xs) * l \<le> sum_list xs \<and> sum_list xs \<le> of_nat (length xs) * u"
      by auto
    then show ?case by (simp add: distrib_right add_mono)
  qed simp
  then show "l \<le> fmean xs" "fmean xs \<le> u"
    using assms(1) by (auto simp: fmean_def field_simps)
qed

lemma mean_le_rms:
  assumes "xs \<noteq> []" shows "fmean xs \<le> rms xs"
proof -
  define n where "n = (of_nat (length xs) :: real)"
  define m where "m = fmean xs"
  have n: "0 < n" using assms by (simp add: n_def)
  have exp: "sum_list (map (\<lambda>x. (x - c) * (x - c)) ys)
      = sum_list (map (\<lambda>x. x * x) ys) - 2 * c * sum_list ys + of_nat (length ys) * (c * c)" for c :: real and ys
    by (induction ys) (auto simp: algebra_simps)
  have "0 \<le> sum_list (map (\<lambda>x. (x - m) * (x - m)) xs)"
    by (rule sum_list_nonneg) auto
  moreover have "sum_list xs = n * m" using n by (simp add: m_def fmean_def n_def)
  ultimately have "n * (m * m) \<le> sum_list (map (\<lambda>x. x * x) xs)"
    using exp [where c = m and ys = xs] by (simp add: n_def [symmetric] ac_simps)
  then have "m\<^sup>2 \<le> fmean (map (\<lambda>d. d * d) xs)"
    using n by (simp add: fmean_def n_def [symmetric] field_simps power2_eq_square)
  then show ?thesis
    unfolding rms_def m_def by (rule real_le_rsqrt)
qed

lemma rms_le:
  assumes "xs \<noteq> []" "\<And>x. x \<in> set xs \<Longrightarrow> 0 \<le> x \<and> x \<le> u"
  shows "rms xs \<le> u"
proof -
  have u: "0 \<le> u" using assms by (cases xs) force+
  have "fmean (map (\<lambda>d. d * d) xs) \<le> u * u"
    using assms(1) by (intro fmean_bounds(2) [where l = 0]) (use assms(2) u in \<open>auto intro!: mult_mono\<close>)
  then show ?thesis using u by (simp add: rms_def real_sqrt_le_iff real_le_lsqrt power2_eq_square)
qed

lemma median_bounds:
  assumes "xs \<noteq> []" "\<And>x. x \<in> set xs \<Longrightarrow> l \<le> x \<and> x \<le> u"
  shows "l \<le> median xs" "median xs \<le> u"
proof -
  have in': "sort xs ! i \<in> set xs" if "i < length xs" for i
    using that by (metis length_sort nth_mem set_sort)
  have n: "length xs div 2 < length xs" "length xs div 2 - 1 < length xs"
    using assms(1) by (cases xs; simp)+
  note b = assms(2) [OF in' [OF n(1)]] assms(2) [OF in' [OF n(2)]]
  show "l \<le> median xs" "median xs \<le> u"
    using b by (auto simp: median_def Let_def)
qed

section \<open>Properties\<close>

text \<open>
  C24. The grouping of a Session's Bullet Holes has one Group for each Target that a Bullet Hole with
  both millimetre coordinates names, in increasing Target order, computed from exactly those Bullet
  Holes' positions in order; the misses are the model's Bullet Holes without a Target, and every
  Bullet Hole is in a Group, a miss, or without a position.
\<close>

theorem grouping_partitions:
  "gr_groups (grouping hs) = map (\<lambda>t. group_of t (points_of t hs)) (sorted_list_of_set (targets_of hs))
    \<and> gr_misses (grouping hs) = count_where is_miss hs
    \<and> sum_list (map g_n (gr_groups (grouping hs))) + gr_misses (grouping hs)
        + gr_without_position (grouping hs) = length hs"
proof (intro conjI)
  obtain d m w where f: "fold group_hole hs ([], 0, 0) = (d, m, w)" by (metis prod_cases3)
  with fold_grouped [of hs] have g: "grouped hs (d, m, w)" by simp
  have dict: "sort_key fst d = map (\<lambda>t. (t, points_of t hs)) (sorted_list_of_set (targets_of hs))"
    unfolding targets_of_def using g by (intro sorted_dict) (auto simp: grouped_def)
  then show groups: "gr_groups (grouping hs)
      = map (\<lambda>t. group_of t (points_of t hs)) (sorted_list_of_set (targets_of hs))"
    by (simp add: grouping_def f)
  show "gr_misses (grouping hs) = count_where is_miss hs"
    using g by (simp add: grouping_def f grouped_def)
  have "sum_list (map g_n (gr_groups (grouping hs))) = sum_list (map (length \<circ> snd) (sort_key fst d))"
    by (simp add: groups dict comp_def)
  also have "\<dots> = sum_list (map (length \<circ> snd) d)"
    by (rule sum_list_sort_key)
  finally have total: "sum_list (map g_n (gr_groups (grouping hs))) = sum_list (map (length \<circ> snd) d)" .
  have counts: "gr_misses (grouping hs) = m" "gr_without_position (grouping hs) = w"
    by (simp_all add: grouping_def f)
  have "groups_inv (0 + length hs) (fold group_hole hs ([], 0, 0))"
    by (rule fold_group_hole_inv) (simp add: groups_inv_def)
  then show "sum_list (map g_n (gr_groups (grouping hs))) + gr_misses (grouping hs)
      + gr_without_position (grouping hs) = length hs"
    by (simp only: total counts) (simp add: f groups_inv_def)
qed

text \<open>
  For a Group of at least two Bullet Holes every measure is present, each radius (and so the CEP,
  the mean radius and the RMS radius) is at most the extreme spread, and the mean radius is at most
  the RMS radius.
\<close>

theorem group_measures_ordered:
  assumes "2 \<le> length pts"
  shows "\<exists>cep mean rms spread.
     group_of t pts = \<lparr>g_target_index = t, g_n = length pts, g_mpi_x_mm = fst (mpi pts),
       g_mpi_y_mm = snd (mpi pts), g_cep_mm = Some cep, g_mean_radius_mm = Some mean,
       g_rms_radius_mm = Some rms, g_extreme_spread_mm = Some spread\<rparr>
     \<and> 0 \<le> cep \<and> cep \<le> spread \<and> 0 \<le> mean \<and> mean \<le> rms \<and> rms \<le> spread"
proof -
  define r where "r = map (\<lambda>p. py_dist p (mpi pts)) pts"
  have b: "0 \<le> x \<and> x \<le> extreme_spread pts" if "x \<in> set r" for x
    using that radius_le_spread [OF assms] by (auto simp: r_def)
  have ne: "r \<noteq> []" using assms by (cases pts) (simp_all add: r_def)
  show ?thesis
    using assms median_bounds [OF ne b] fmean_bounds(1) [OF ne b] mean_le_rms [OF ne] rms_le [OF ne b]
    by (simp add: group_of_def Let_def r_def [symmetric])
qed

theorem group_measures_ordered_witness:
  "\<exists>cep mean rms spread. g_cep_mm (group_of 0 [(0, 0), (3, 4)]) = Some cep
    \<and> g_mean_radius_mm (group_of 0 [(0, 0), (3, 4)]) = Some mean
    \<and> g_rms_radius_mm (group_of 0 [(0, 0), (3, 4)]) = Some rms
    \<and> g_extreme_spread_mm (group_of 0 [(0, 0), (3, 4)]) = Some spread
    \<and> cep \<le> spread \<and> mean \<le> rms \<and> rms \<le> spread"
  using group_measures_ordered [of "[(0, 0), (3, 4)]" 0] by force

text \<open>The backend's view of a reported hole, and of the Detection Service's Group.\<close>

definition as_hole :: "det_hole \<Rightarrow> hole" where
  "as_hole h = \<lparr>h_target_index = dh_target h, h_x_mm = map_option fst (dh_mm h),
     h_y_mm = map_option snd (dh_mm h), h_source = Model\<rparr>"

definition as_det_group :: "group_stats \<Rightarrow> int \<times> det_group" where
  "as_det_group g =
     (g_target_index g,
      \<lparr>dg_n = g_n g, dg_mpi = (g_mpi_x_mm g, g_mpi_y_mm g), dg_cep = g_cep_mm g,
       dg_mean_radius = g_mean_radius_mm g, dg_rms_radius = g_rms_radius_mm g,
       dg_extreme_spread = g_extreme_spread_mm g\<rparr>)"

lemma det_fold:
  "\<forall>h\<in>set hs. dh_target h \<noteq> None \<longrightarrow> dh_mm h \<noteq> None \<Longrightarrow>
    \<exists>d. det_by_target hs acc = Some d
      \<and> fold group_hole (map as_hole hs) (acc, m, w) = (d, m + count_where (\<lambda>h. dh_target h = None) hs, w)"
proof (induction hs arbitrary: acc m)
  case (Cons h hs)
  show ?case
  proof (cases "dh_target h")
    case None
    then have "group_hole (as_hole h) (acc, m, w) = (acc, Suc m, w)"
      by (simp add: as_hole_def)
    then show ?thesis
      using Cons.IH [of acc "Suc m"] Cons.prems None by (auto simp del: group_hole.simps)
  next
    case (Some t)
    with Cons.prems obtain p where p: "dh_mm h = Some p" by auto
    then have "group_hole (as_hole h) (acc, m, w) = (add_point t p acc, m, w)"
      using Some by (simp add: as_hole_def)
    then show ?thesis
      using Cons.IH [of "add_point t p acc" m] Cons.prems Some p by (auto simp del: group_hole.simps)
  qed
qed simp

text \<open>
  C25. The two implementations agree: on reported holes whose Targets come with millimetres, the
  Detection Service's \<open>groups\<close> returns, Target by Target, the statistics the backend's \<open>grouping\<close>
  computes from the same holes stored, the same number of misses, and none is without a position.
\<close>

theorem groups_agree:
  assumes "\<forall>h\<in>set hs. dh_target h \<noteq> None \<longrightarrow> dh_mm h \<noteq> None"
  shows "det_groups hs = Some (map as_det_group (gr_groups (grouping (map as_hole hs))),
      gr_misses (grouping (map as_hole hs)))
    \<and> gr_without_position (grouping (map as_hole hs)) = 0"
proof (intro conjI)
  obtain d where d: "det_by_target hs [] = Some d"
    "fold group_hole (map as_hole hs) ([], 0, 0) = (d, count_where (\<lambda>h. dh_target h = None) hs, 0)"
    using det_fold [OF assms, of "[]" 0 0] by auto
  have "as_det_group (group_of t pts) = (t, det_group_of pts)" for t pts
    by (simp add: as_det_group_def group_of_def det_group_of_def Let_def)
  then show "det_groups hs = Some (map as_det_group (gr_groups (grouping (map as_hole hs))),
      gr_misses (grouping (map as_hole hs)))"
    by (auto simp: det_groups_def d(1) grouping_def d(2))
  show "gr_without_position (grouping (map as_hole hs)) = 0"
    by (simp add: grouping_def d(2))
qed

theorem groups_agree_witness:
  "det_groups [\<lparr>dh_target = Some 1, dh_mm = Some (3, 4)\<rparr>, \<lparr>dh_target = None, dh_mm = None\<rparr>]
    = Some ([(1, det_group_of [(3, 4)])], 1)"
  using groups_agree [of "[\<lparr>dh_target = Some 1, dh_mm = Some (3, 4)\<rparr>, \<lparr>dh_target = None, dh_mm = None\<rparr>]"]
  by (simp add: grouping_def as_hole_def as_det_group_def group_of_def det_group_of_def Let_def)

end
