(* ===== verification/Session_Routes.thy ===== *)
theory Session_Routes
  imports Detection_Sync Cameras Bullets Grouping
begin

text \<open>
  \<open>WebApp/backend/app/routers/sessions.py\<close> and \<open>routers/bullets.py\<close>: the requests that move a
  Session, each the program of its handler: the service's transaction, the detection kept beside it,
  and what is pushed. \<open>camera_sync.sync_soon\<close> and the deletion of a Session's video act on MediaMTX
  and the disk (\<open>Camera_Sync\<close>, \<open>Recordings\<close>); they touch neither the detection nor the pushes, and
  are left out here. The clock's readings, fresh identifiers and what the unlocked reads saw
  (\<open>d_check\<close>, \<open>d_re\<close>) are arguments.
\<close>

section \<open>Sessions\<close>

record session_response =
  rsp_session :: session_row
  rsp_bullet_holes :: "bullet_row list"
  rsp_runs :: "run_row list"
  rsp_detection :: detection
  rsp_grouping :: grouping_stats

definition response :: "memory \<Rightarrow> db \<Rightarrow> session_row \<times> bullet_row list \<Rightarrow> session_response" where
  "response m d found =
     (let (s, holes) = found in
      \<lparr>rsp_session = s, rsp_bullet_holes = holes, rsp_runs = session_runs d (s_id s),
       rsp_detection = state_of m (s_id s), rsp_grouping = grouping (map hole_of holes)\<rparr>)"

definition get_session_route :: "uuid \<Rightarrow> memory \<Rightarrow> db \<Rightarrow> http_error + session_response" where
  "get_session_route sid m d = map_sum id (response m d) (get_session_detail sid d)"

definition raises :: "det_exn \<Rightarrow> det_prog" where
  "raises e = Finish (Some e)"

text \<open>A handler that only reads: \<open>run_block\<close> of a query.\<close>

definition fetch :: "(db \<Rightarrow> http_error + 'a) \<Rightarrow> ('a \<Rightarrow> det_prog) \<Rightarrow> det_prog" where
  "fetch query k = run_block (\<lambda>d. (query d, d)) k raises"

definition create_session_route ::
    "uuid \<Rightarrow> uuid \<Rightarrow> uuid \<Rightarrow> time \<Rightarrow> time \<Rightarrow> session_create \<Rightarrow> db \<Rightarrow> db \<Rightarrow> det_prog" where
  "create_session_route nid iid rid now created body d_check d_re =
     run_block (\<lambda>d. create_session nid iid now created body d_check d d_re)
       (\<lambda>s. case s_camera_id s of
          None \<Rightarrow> Finish None
        | Some cid \<Rightarrow>
            fetch (get_camera_or_404 cid) (\<lambda>c.
              starting (s_id s) (watch rid (s_id s) (c_alias c) [Starting])))
       raises"

definition push_session :: "uuid \<Rightarrow> session_row \<Rightarrow> det_prog" where
  "push_session sid s =
     Push sid (SessionUpdatedEvent (s_name s) (s_status s) (s_ended_at s) (s_record s)) (Finish None)"

definition session_updated :: "uuid \<Rightarrow> session_update \<Rightarrow> session_row \<times> bullet_row list \<Rightarrow> det_prog" where
  "session_updated sid body found =
     (if su_status body = Some Active then reopened sid (push_session sid (fst found))
      else push_session sid (fst found))"

definition update_session_route ::
    "uuid \<Rightarrow> uuid \<Rightarrow> time \<Rightarrow> time \<Rightarrow> session_update \<Rightarrow> db \<Rightarrow> db \<Rightarrow> det_prog" where
  "update_session_route sid iid now1 now2 body d_check d_re =
     (let update = (\<lambda>d. update_session sid iid now1 now2 body d_check d d_re) in
      if su_status body = Some Completed
      then fetch (get_session_or_404 sid) (\<lambda>s. ending s update (session_updated sid body))
      else run_block update (session_updated sid body) raises)"

definition delete_session_route :: "uuid \<Rightarrow> time \<Rightarrow> det_prog" where
  "delete_session_route sid now =
     fetch (get_session_or_404 sid) (\<lambda>s. ending s (delete_session sid now) (\<lambda>windows. Finish None))"

section \<open>Bullet Holes\<close>

definition report_bullet_route :: "uuid \<Rightarrow> uuid \<Rightarrow> bullet_create \<Rightarrow> time \<Rightarrow> det_prog" where
  "report_bullet_route bid sid body created =
     run_block (create_bullet bid sid body created)
       (\<lambda>b. Push sid (BulletCreatedEvent (b_id b)) (Finish None)) raises"

definition delete_bullet_route :: "uuid \<Rightarrow> uuid \<Rightarrow> time \<Rightarrow> det_prog" where
  "delete_bullet_route sid bid now =
     run_block (delete_bullet sid bid now) (\<lambda>_. Push sid (BulletDeletedEvent bid) (Finish None)) raises"

section \<open>What the backend starts\<close>

text \<open>Every operation that may begin on a thread of its own: the requests, and a reconcile round.\<close>

inductive operation :: "det_prog \<Rightarrow> bool" where
  op_reconcile: "operation (reconcile rid)"
| op_create: "operation (create_session_route nid iid rid now created body d_check d_re)"
| op_update: "operation (update_session_route sid iid now1 now2 body d_check d_re)"
| op_delete: "operation (delete_session_route sid now)"
| op_report: "operation (report_bullet_route bid sid body created)"
| op_unreport: "operation (delete_bullet_route sid bid now)"

end
