(* ===== verification/Detection_Programs.thy ===== *)
theory Detection_Programs
  imports Session_Routes
begin

text \<open>
  What can be said of the operations of \<open>detection_sync.py\<close> and of the session requests without
  running them: a class of programs closed under the atomic actions, whose \<open>_set\<close>s satisfy \<open>P\<close> and
  whose pushes satisfy \<open>Q\<close> (the locale), contains every operation whose own \<open>_set\<close>s do. Each
  property of the interleaved system takes its class of programs as an interpretation.
\<close>

section \<open>The detections\<close>

lemma det_state_consts [simp]:
  "det_state NONE = DNone" "det_state WATCHING = Watching" "det_state SERVICE_DOWN = Not_watching"
  "det_state CAMERA_DISABLED = Not_watching" "det_state RUN_LOST = Not_watching"
  "det_state END_UNCONFIRMED = End_unconfirmed" "det_state (detection_of s r t) = s"
  by (simp_all add: NONE_def WATCHING_def SERVICE_DOWN_def CAMERA_DISABLED_def RUN_LOST_def
      END_UNCONFIRMED_def detection_of_def)

lemma det_state_neq:
  "det_state d \<noteq> det_state e \<Longrightarrow> d \<noteq> e"
  by auto

lemma NONE_neq [simp]: "NONE \<noteq> WATCHING" "NONE \<noteq> END_UNCONFIRMED" "WATCHING \<noteq> END_UNCONFIRMED"
  "WATCHING \<noteq> NONE" "END_UNCONFIRMED \<noteq> NONE" "END_UNCONFIRMED \<noteq> WATCHING"
  by (rule det_state_neq, simp)+

lemma refused_detection_state: "refused_detection r v = Some d \<Longrightarrow> det_state d = Not_watching"
  by (cases v) (auto simp: detection_of_def)

lemma watch_result_state: "watch_result sid a = Some d \<Longrightarrow> det_state d = Not_watching \<or> d = WATCHING"
  by (auto simp: watch_result_def dest: refused_detection_state split: call.splits sum.splits if_splits)

lemma stuck_starting: "(sid, st) \<in> set (stuck_sessions m) \<Longrightarrow> st = Starting"
  by (auto simp: stuck_sessions_def)

text \<open>Induction over a program, into every continuation of a transaction too.\<close>

lemma det_prog_induct [case_names Finish Set_state Look Unwatch Push Ask_status Ask_start Ask_end Use_db]:
  assumes "\<And>e. R (Finish e)"
    and "\<And>t d only k. (\<And>b. R (k b)) \<Longrightarrow> R (Set_state t d only k)"
    and "\<And>f. (\<And>m. R (f m)) \<Longrightarrow> R (Look f)"
    and "\<And>t k. R k \<Longrightarrow> R (Unwatch t k)"
    and "\<And>t e k. R k \<Longrightarrow> R (Push t e k)"
    and "\<And>r. (\<And>a. R (r a)) \<Longrightarrow> R (Ask_status r)"
    and "\<And>t al s. (\<And>a. R (s a)) \<Longrightarrow> R (Ask_start t al s)"
    and "\<And>t r. (\<And>a. R (r a)) \<Longrightarrow> R (Ask_end t r)"
    and "\<And>f g. (\<And>d. R (snd (snd (f d)))) \<Longrightarrow> R g \<Longrightarrow> R (Use_db f g)"
  shows "R p"
proof (induction p)
  case (Use_db f g)
  have "R (snd (snd (f d)))" for d
  proof -
    obtain a b c where fd: "f d = (a, b, c)" by (rule prod_cases3)
    have "(a, b, c) \<in> range f" using rangeI [of f d] unfolding fd .
    moreover have "(b, c) \<in> Basic_BNFs.snds (a, b, c)" "c \<in> Basic_BNFs.snds (b, c)"
      by (simp_all add: snds.simps)
    ultimately have "R c" by (rule Use_db.IH(1))
    then show ?thesis by (simp add: fd)
  qed
  then show ?case using Use_db.IH(2) by (rule assms(9))
qed (blast intro: assms rangeI)+

section \<open>Classes of programs\<close>

locale program_class =
  fixes S :: "det_prog \<Rightarrow> bool"
    and P :: "uuid \<Rightarrow> detection \<Rightarrow> det_state list option \<Rightarrow> bool"
    and Q :: "uuid \<times> live_event \<Rightarrow> bool"
  assumes S_finish: "S (Finish raised)"
    and S_set: "P sid d only \<Longrightarrow> (\<And>b. S (k b)) \<Longrightarrow> S (Set_state sid d only k)"
    and S_look: "(\<And>m. S (f m)) \<Longrightarrow> S (Look f)"
    and S_unwatch: "S p \<Longrightarrow> S (Unwatch sid p)"
    and S_push: "Q (sid, e) \<Longrightarrow> S p \<Longrightarrow> S (Push sid e p)"
    and S_ask_status: "(\<And>a. S (r a)) \<Longrightarrow> S (Ask_status r)"
    and S_ask_start: "(\<And>a. S (s a)) \<Longrightarrow> S (Ask_start sid al s)"
    and S_ask_end: "(\<And>a. S (r a)) \<Longrightarrow> S (Ask_end sid r)"
    and S_use_db: "(\<And>x. list_all Q (fst (snd (g x)))) \<Longrightarrow> (\<And>x. S (snd (snd (g x)))) \<Longrightarrow> S p \<Longrightarrow> S (Use_db g p)"
    and Q_moved: "Q (sid, RunMovedEvent t)"
begin

lemmas S_intros = S_finish S_set S_look S_unwatch S_push S_ask_status S_ask_start S_ask_end

lemma S_follow: "S k \<Longrightarrow> S (Use_db (follow_db sid t run k) k)"
  by (rule S_use_db) (auto simp: follow_db_def Q_moved split: follow_result.splits)

lemma S_query: "(\<And>d. S (f d)) \<Longrightarrow> S p \<Longrightarrow> S (Use_db (\<lambda>d. (d, [], f d)) p)"
  by (rule S_use_db) auto

lemma S_store:
  assumes "S k"
  shows "S (store_run rid sid al run k)"
proof (cases "cr_baseline_view run")
  case None
  with assms show ?thesis by (simp add: store_run_def)
next
  case (Some view)
  have "S (Use_db (\<lambda>d. case add_run_once d (baseline_run rid sid al view) of
      Inl _ \<Rightarrow> (d, [], k)
    | Inr d' \<Rightarrow> (d', [], Use_db (follow_db sid (bv_taken_at view) run k) k)) k)"
    by (rule S_use_db) (auto simp: assms S_follow split: sum.splits)
  with assms Some show ?thesis by (simp add: store_run_def S_query)
qed

lemma S_end_run:
  assumes "\<And>b. S (answered b)" "\<And>e. S (raised e)"
  shows "S (end_session_run sid answered raised)"
  unfolding end_session_run_def
  by (rule S_ask_end) (auto intro!: S_unwatch S_follow assms split: call.splits option.splits)

lemma S_watch_set:
  assumes "P sid d (Some only)"
  shows "S (watch_set sid d only)"
  unfolding watch_set_def
  by (rule S_set) (auto intro!: assms S_look S_end_run S_finish)

lemma S_watch:
  assumes "\<And>d. det_state d = Not_watching \<or> d = WATCHING \<Longrightarrow> P sid d (Some only)"
  shows "S (watch rid sid al only)"
proof -
  have "S (watch_set sid d only)" if "watch_result sid a = Some d" for a d
    using watch_result_state [OF that] by (intro S_watch_set assms)
  then show ?thesis
    unfolding watch_def
    by (intro S_ask_start) (auto intro!: S_finish S_store split: option.splits call.splits sum.splits)
qed

lemma S_let_go:
  assumes "S k" and "\<And>sid st d. (sid, st) \<in> set xs \<Longrightarrow> d \<in> {NONE, END_UNCONFIRMED} \<Longrightarrow> P sid d (Some [st])"
  shows "S (let_go ids xs k)"
  using assms(2) by (induction xs) (auto intro!: assms(1) S_set)

lemma S_forget:
  assumes "S k" and "\<And>sid. P sid NONE (Some IDLE)"
  shows "S (forget sids k)"
  by (induction sids) (auto intro!: assms S_set)

text \<open>
  A reconcile round, given its last part (\<open>keep_watched\<close>), which is only reached without a Run or
  with the Run the status showed, ending or of the wanted Session.
\<close>

lemma S_round:
  assumes stuck: "\<And>sid d. d \<in> {NONE, END_UNCONFIRMED} \<Longrightarrow> P sid d (Some [Starting])"
    and idle: "\<And>sid d. d \<in> {NONE, SERVICE_DOWN, CAMERA_DISABLED} \<Longrightarrow> P sid d (Some IDLE)"
    and no_run: "\<And>s c. S (keep_watched rid s c None)"
    and keep: "\<And>s c r. st = Some (Some r) \<Longrightarrow> is_state ''ending'' r \<or> cr_session_id r = s_id s \<Longrightarrow>
      S (keep_watched rid s c (Some r))"
  shows "S (reconcile_round rid st cs ss)"
proof -
  have wanted: "S (keep_wanted rid w None)" for w
    using no_run S_finish by (auto simp: keep_wanted_def split: option.splits)
  have kept: "S (keep_wanted rid w run)" if "st = Some run" "run_to_end w run = None" for w run
  proof (cases run)
    case None
    then show ?thesis using wanted by simp
  next
    case (Some r)
    then show ?thesis
      using that keep S_finish by (auto simp: keep_wanted_def run_to_end_def split: option.splits if_splits)
  qed
  have settle: "S (settle_run rid w st)" for w
    unfolding settle_run_def
    by (auto intro!: S_set idle wanted kept S_end_run S_finish split: option.splits)
  have camera: "S (show_camera s w (settle_run rid w st))" for s w
    unfolding show_camera_def by (auto intro!: S_look S_set idle settle split: option.splits)
  show ?thesis
    unfolding reconcile_round_def Let_def
    by (intro S_look S_let_go S_forget camera idle) (auto dest!: stuck_starting intro: stuck)
qed

lemma S_reading:
  assumes "\<And>cs ss. S (reconcile_round rid st cs ss)"
  shows "S (Use_db (\<lambda>d. (d, [], Use_db (\<lambda>d'. (d', [], reconcile_round rid st (list_all_cameras d) (list_active d')))
    (Finish (Some Db_error)))) (Finish (Some Db_error)))"
  using assms by (auto intro!: S_query S_finish)

lemma S_reconcile:
  assumes "\<And>sid d. d \<in> {NONE, END_UNCONFIRMED} \<Longrightarrow> P sid d (Some [Starting])"
    and "\<And>sid d. d \<in> {NONE, SERVICE_DOWN, CAMERA_DISABLED} \<Longrightarrow> P sid d (Some IDLE)"
    and "\<And>s c run. S (keep_watched rid s c run)"
  shows "S (reconcile rid)"
  unfolding reconcile_def Let_def
  by (intro S_ask_status) (auto intro!: S_reading S_round S_finish assms split: call.splits)

lemma S_block:
  assumes "\<And>d d' x. block d = (Inr x, d') \<Longrightarrow> S (g x)" "\<And>e. S (f e)"
  shows "S (run_block block g f)"
  unfolding run_block_def
  by (rule S_use_db) (use assms in \<open>auto split: prod.splits sum.splits\<close>)

lemma S_raises: "S (raises e)"
  by (simp add: raises_def S_finish)

lemma S_fetch: "(\<And>x d. query d = Inr x \<Longrightarrow> S (g x)) \<Longrightarrow> S (fetch query g)"
  unfolding fetch_def by (rule S_block) (auto intro: S_raises)

lemma S_ending:
  assumes after: "\<And>x. S (after x)"
    and sets: "\<And>d. d \<in> {detection_of Ending None None, NONE, END_UNCONFIRMED} \<Longrightarrow> P (s_id s) d None"
  shows "S (ending s block after)"
proof -
  have still: "S (still_active sid k)" if "\<And>b. S (k b)" for sid k
    unfolding still_active_def using that by (intro S_query)
  have failed: "S (ending_failed (s_id s) b e)" for b e
    unfolding ending_failed_def by (auto intro!: S_set sets still S_finish)
  have block: "S (ending_block (s_id s) b block after)" for b
    unfolding ending_block_def by (auto intro!: S_block S_set sets after failed)
  show ?thesis
    unfolding ending_def by (auto intro!: S_look S_set S_block sets S_end_run block failed after S_finish)
qed

lemma S_reopened: "P sid NONE (Some [End_unconfirmed]) \<Longrightarrow> S k \<Longrightarrow> S (reopened sid k)"
  by (simp add: reopened_def S_set)

text \<open>The requests.\<close>

lemma S_create_route:
  assumes "P nid (detection_of Starting None None) None"
    and "\<And>al. S (watch rid nid al [Starting])"
  shows "S (create_session_route nid iid rid now created body d_check d_re)"
proof -
  have "S (starting nid (watch rid nid al [Starting]))" for al
    unfolding starting_def by (intro S_set assms)
  moreover have "s_id s = nid"
    if "create_session nid iid now created body d_check d d_re = (Inr s, d')" for s d d'
    using that by (auto simp: create_session_def Let_def new_session_def
        split: option.splits sum.splits session_db_error.splits if_splits)
  ultimately show ?thesis
    unfolding create_session_route_def
    by (intro S_block S_raises) (auto intro!: S_finish S_fetch split: option.splits)
qed

lemma S_updated:
  assumes "\<And>name st ended rec. Q (sid, SessionUpdatedEvent name st ended rec)"
    and "P sid NONE (Some [End_unconfirmed])"
  shows "S (session_updated sid body found)"
  unfolding session_updated_def push_session_def
  by (auto intro!: S_reopened S_push S_finish assms)

lemma get_session_id: "get_session_or_404 sid d = Inr s \<Longrightarrow> s_id s = sid"
  by (auto simp: get_session_or_404_def get_session_def dest!: find_SomeD split: option.splits)

lemma S_update_route:
  assumes "\<And>name st ended rec. Q (sid, SessionUpdatedEvent name st ended rec)"
    and "P sid NONE (Some [End_unconfirmed])"
    and "\<And>d. su_status body = Some Completed \<Longrightarrow>
      d \<in> {detection_of Ending None None, NONE, END_UNCONFIRMED} \<Longrightarrow> P sid d None"
  shows "S (update_session_route sid iid now1 now2 body d_check d_re)"
  unfolding update_session_route_def Let_def
  using assms(3) by (auto intro!: S_fetch S_ending S_block S_raises S_updated assms(1,2) dest: get_session_id)

lemma S_delete_route:
  assumes "\<And>d. d \<in> {detection_of Ending None None, NONE, END_UNCONFIRMED} \<Longrightarrow> P sid d None"
  shows "S (delete_session_route sid now)"
  unfolding delete_session_route_def
  using assms by (auto intro!: S_fetch S_ending S_finish dest: get_session_id)

lemma S_bullet_routes:
  "(\<And>b. Q (sid, BulletCreatedEvent b)) \<Longrightarrow> S (report_bullet_route bid sid bbody created)"
  "(\<And>b. Q (sid, BulletDeletedEvent b)) \<Longrightarrow> S (delete_bullet_route sid bid now)"
  unfolding report_bullet_route_def delete_bullet_route_def
  by (auto intro!: S_block S_push S_raises S_finish)

end

end
