(* ===== verification/Detection_Races.thy ===== *)
theory Detection_Races
  imports Detection_Programs
begin

text \<open>
  The operations of \<open>detection_sync.py\<close> interleaved: any number of them on their own threads, each
  advancing by one atomic action at a time, with other requests changing the database and the clock
  between. Two things are shown of every interleaving: what the frontends were pushed is what the
  memory holds, and a Session whose end is under way reads \<open>ending\<close> until that end says otherwise.
\<close>

section \<open>One action, and interleaved threads\<close>

record world =
  wd_memory :: memory
  wd_db :: db
  wd_pushed :: "(uuid \<times> live_event) list"

definition after_set :: "uuid \<Rightarrow> detection \<Rightarrow> det_state list option \<Rightarrow> world \<Rightarrow> world" where
  "after_set sid d only w =
     w\<lparr>wd_memory := fst (snd (set_state sid d only (wd_memory w))),
       wd_pushed := wd_pushed w @ snd (snd (set_state sid d only (wd_memory w)))\<rparr>"

definition forget_watched :: "uuid \<Rightarrow> world \<Rightarrow> world" where
  "forget_watched sid w = w\<lparr>wd_memory := (wd_memory w)\<lparr>dm_watched := dm_watched (wd_memory w) - {sid}\<rparr>\<rparr>"

text \<open>The Detection Service may answer anything, and the database may be down.\<close>

inductive det_action :: "det_prog \<Rightarrow> world \<Rightarrow> det_prog \<Rightarrow> world \<Rightarrow> bool" where
  do_set: "det_action (Set_state sid d only k) w (k (fst (set_state sid d only (wd_memory w)))) (after_set sid d only w)"
| do_look: "det_action (Look f) w (f (wd_memory w)) w"
| do_unwatch: "det_action (Unwatch sid k) w k (forget_watched sid w)"
| do_push: "det_action (Push sid e k) w k (w\<lparr>wd_pushed := wd_pushed w @ [(sid, e)]\<rparr>)"
| do_ask_status: "det_action (Ask_status r) w (r a) w"
| do_ask_start: "det_action (Ask_start sid alias s) w (s b) w"
| do_ask_end: "det_action (Ask_end sid r) w (r a) w"
| do_db: "f (wd_db w) = (d', es, k) \<Longrightarrow>
    det_action (Use_db f g) w k (w\<lparr>wd_db := d', wd_pushed := wd_pushed w @ es\<rparr>)"
| do_db_down: "det_action (Use_db f g) w g w"

inductive_cases det_actionE: "det_action p w p' w'"

inductive_simps det_action_simps [simp]:
  "det_action (Finish e) w p' w'"
  "det_action (Set_state sid d only k) w p' w'"
  "det_action (Look f) w p' w'"

type_synonym crew = "det_prog list \<times> world"

text \<open>
  \<open>handler p\<close>: an operation that may begin at any time. Requests to other parts of the backend
  change the database, and the clock advances.
\<close>

inductive det_step :: "(det_prog \<Rightarrow> bool) \<Rightarrow> crew \<Rightarrow> crew \<Rightarrow> bool" for handler where
  det_begin: "handler p \<Longrightarrow> det_step handler (ps, w) (ps @ [p], w)"
| det_act: "i < length ps \<Longrightarrow> det_action (ps ! i) w p' w' \<Longrightarrow> det_step handler (ps, w) (ps[i := p'], w')"
| det_elsewhere: "det_step handler (ps, w) (ps, w\<lparr>wd_db := d'\<rparr>)"
| det_clock: "c \<le> c' \<Longrightarrow> dm_clock (wd_memory w) = c \<Longrightarrow>
    det_step handler (ps, w) (ps, w\<lparr>wd_memory := (wd_memory w)\<lparr>dm_clock := c'\<rparr>\<rparr>)"

inductive_cases det_stepE: "det_step handler st st'"

section \<open>Predicates on programs\<close>

text \<open>
  \<open>all_sets M P B Q p\<close>: every \<open>_set\<close> the program may still make satisfies \<open>P\<close> and every push \<open>Q\<close>,
  as long as what it looks at satisfies \<open>M\<close> and what each \<open>_set\<close> answers satisfies \<open>B\<close>.
\<close>

primrec all_sets :: "(memory \<Rightarrow> bool) \<Rightarrow> (uuid \<Rightarrow> detection \<Rightarrow> det_state list option \<Rightarrow> bool)
    \<Rightarrow> (uuid \<Rightarrow> bool \<Rightarrow> bool) \<Rightarrow> (uuid \<times> live_event \<Rightarrow> bool) \<Rightarrow> det_prog \<Rightarrow> bool" where
  "all_sets M P B Q (Finish e) = True"
| "all_sets M P B Q (Set_state sid d only k) = (P sid d only \<and> (\<forall>b. B sid b \<longrightarrow> all_sets M P B Q (k b)))"
| "all_sets M P B Q (Look f) = (\<forall>m. M m \<longrightarrow> all_sets M P B Q (f m))"
| "all_sets M P B Q (Unwatch sid k) = all_sets M P B Q k"
| "all_sets M P B Q (Push sid e k) = (Q (sid, e) \<and> all_sets M P B Q k)"
| "all_sets M P B Q (Ask_status r) = (\<forall>a. all_sets M P B Q (r a))"
| "all_sets M P B Q (Ask_start sid alias s) = (\<forall>a. all_sets M P B Q (s a))"
| "all_sets M P B Q (Ask_end sid r) = (\<forall>a. all_sets M P B Q (r a))"
| "all_sets M P B Q (Use_db f g) =
     ((\<forall>d. list_all Q (fst (snd (f d))) \<and> snd (snd (map_prod id (map_prod id (all_sets M P B Q)) (f d))))
      \<and> all_sets M P B Q g)"

lemma all_sets_Use_db:
  "all_sets M P B Q (Use_db f g) \<longleftrightarrow>
     (\<forall>d. list_all Q (fst (snd (f d))) \<and> all_sets M P B Q (snd (snd (f d)))) \<and> all_sets M P B Q g"
  by simp

declare all_sets.simps(9) [simp del]
declare all_sets_Use_db [simp]

section \<open>Memory and pushes\<close>

definition memory_ok :: "memory \<Rightarrow> bool" where
  "memory_ok m \<longleftrightarrow>
     distinct (map fst (dm_states m)) \<and> map fst (dm_since m) = map fst (dm_states m)
     \<and> (\<forall>(sid, d)\<in>set (dm_states m). det_state d \<noteq> DNone)"

text \<open>The detections pushed to a Session's frontends, in order.\<close>

definition pushed_detections :: "uuid \<Rightarrow> (uuid \<times> live_event) list \<Rightarrow> detection list" where
  "pushed_detections sid es =
     concat (map (\<lambda>(s, e). case e of DetectionUpdatedEvent d \<Rightarrow> if s = sid then [d] else [] | _ \<Rightarrow> []) es)"

definition detection_free :: "uuid \<times> live_event \<Rightarrow> bool" where
  "detection_free e \<longleftrightarrow> (\<forall>d. snd e \<noteq> DetectionUpdatedEvent d)"

definition proper :: "det_prog \<Rightarrow> bool" where
  "proper = all_sets memory_ok (\<lambda>_ d _. det_state d = DNone \<longrightarrow> d = NONE) (\<lambda>_ _. True) detection_free"

definition in_step :: "world \<Rightarrow> bool" where
  "in_step w \<longleftrightarrow> memory_ok (wd_memory w) \<and>
     (\<forall>sid. let shown = NONE # pushed_detections sid (wd_pushed w)
            in last shown = state_of (wd_memory w) sid \<and> distinct_adj shown)"

lemma pushed_detections_append [simp]:
  "pushed_detections sid (es @ fs) = pushed_detections sid es @ pushed_detections sid fs"
  by (simp add: pushed_detections_def)

lemma pushed_detections_simps [simp]:
  "pushed_detections sid [] = []"
  "pushed_detections sid [(s, DetectionUpdatedEvent d)] = (if s = sid then [d] else [])"
  by (simp_all add: pushed_detections_def)

lemma pushed_detections_free: "list_all detection_free es \<Longrightarrow> pushed_detections sid es = []"
  unfolding pushed_detections_def list_all_iff detection_free_def
  by (auto simp: concat_eq_Nil_conv split: live_event.split)

text \<open>What \<open>_set\<close> does, on each branch.\<close>

definition refused :: "uuid \<Rightarrow> det_state list option \<Rightarrow> memory \<Rightarrow> bool" where
  "refused sid only m \<longleftrightarrow> (\<exists>l. only = Some l \<and> det_state (state_of m sid) \<notin> set l)"

lemma set_state_refused: "refused sid only m \<Longrightarrow> set_state sid d only m = (False, m, [])"
  by (auto simp: refused_def set_state_def)

lemma set_state_changed: "fst (set_state sid d only m) \<longleftrightarrow> \<not> refused sid only m"
  by (auto simp: refused_def set_state_def Let_def split: option.splits)

lemma set_state_same:
  "\<not> refused sid only m \<Longrightarrow> unless_unwatched m sid d = state_of m sid \<Longrightarrow>
   set_state sid d only m
     = (True, m\<lparr>dm_watched := note_watched sid (unless_unwatched m sid d) (dm_watched m)\<rparr>, [])"
  by (auto simp: refused_def set_state_def Let_def split: option.splits)

lemma state_of_update [simp]:
  "state_of (m\<lparr>dm_watched := x\<rparr>) t = state_of m t" "state_of (m\<lparr>dm_clock := c\<rparr>) t = state_of m t"
  by (simp_all add: state_of_def)

lemma det_state_unless [simp]:
  "det_state d \<noteq> End_unconfirmed \<Longrightarrow> unless_unwatched m sid d = d"
  by (auto simp: unless_unwatched_def)

lemma set_state_other: "t \<noteq> sid \<Longrightarrow> state_of (fst (snd (set_state sid d only m))) t = state_of m t"
  by (auto simp: set_state_def Let_def state_of_def update_conv delete_conv split: option.splits)

lemma state_of_set:
  assumes "\<not> refused sid only m" "det_state d = DNone \<Longrightarrow> d = NONE"
  shows "state_of (fst (snd (set_state sid d only m))) sid = unless_unwatched m sid d"
proof -
  let ?d = "unless_unwatched m sid d"
  have none: "det_state ?d = DNone \<Longrightarrow> ?d = NONE"
    using assms(2) by (auto simp: unless_unwatched_def)
  show ?thesis
  proof (cases "?d = state_of m sid")
    case True
    then show ?thesis using set_state_same [OF assms(1)] by simp
  next
    case False
    then show ?thesis
      using assms(1) none
      by (auto simp: refused_def set_state_def Let_def state_of_def update_conv delete_conv
          split: option.splits)
  qed
qed

lemma pushed_by_set:
  assumes "det_state d = DNone \<Longrightarrow> d = NONE"
  shows "pushed_detections t (snd (snd (set_state sid d only m))) =
    (if t = sid \<and> state_of (fst (snd (set_state sid d only m))) sid \<noteq> state_of m sid
     then [state_of (fst (snd (set_state sid d only m))) sid] else [])"
proof (cases "refused sid only m")
  case True
  then show ?thesis by (simp add: set_state_refused)
next
  case False
  note now = state_of_set [OF False assms]
  show ?thesis
  proof (cases "unless_unwatched m sid d = state_of m sid")
    case True
    then show ?thesis using set_state_same [OF False True] by simp
  next
    case F2: False
    have "snd (snd (set_state sid d only m)) = [(sid, DetectionUpdatedEvent (unless_unwatched m sid d))]"
      using False F2 by (auto simp: refused_def set_state_def Let_def split: option.splits)
    with now F2 show ?thesis by (auto simp del: det_state_unless)
  qed
qed


lemma keys_update: "map fst (AList.update k v xs) = (if k \<in> set (map fst xs) then map fst xs else map fst xs @ [k])"
  by (induction xs) auto

lemma keys_delete: "map fst (AList.delete k xs) = filter (\<lambda>x. x \<noteq> k) (map fst xs)"
  by (induction xs) auto

lemma set_update_subset: "set (AList.update k v xs) \<subseteq> insert (k, v) (set xs)"
  by (induction xs) auto

lemma set_delete_subset: "set (AList.delete k xs) \<subseteq> set xs"
  by (induction xs) auto

lemma memory_ok_update:
  "memory_ok m \<Longrightarrow> det_state d \<noteq> DNone \<Longrightarrow>
   memory_ok (m\<lparr>dm_watched := W, dm_states := AList.update sid d (dm_states m),
      dm_since := AList.update sid t (dm_since m)\<rparr>)"
  using set_update_subset [of sid d "dm_states m"] by (auto simp: memory_ok_def keys_update)

lemma memory_ok_delete:
  "memory_ok m \<Longrightarrow>
   memory_ok (m\<lparr>dm_watched := W, dm_states := AList.delete sid (dm_states m),
      dm_since := AList.delete sid (dm_since m)\<rparr>)"
  using set_delete_subset [of sid "dm_states m"] by (auto simp: memory_ok_def keys_delete distinct_filter)

lemma memory_ok_watched: "memory_ok m \<Longrightarrow> memory_ok (m\<lparr>dm_watched := W\<rparr>)"
  by (simp add: memory_ok_def)

lemma memory_ok_set: "memory_ok m \<Longrightarrow> memory_ok (fst (snd (set_state sid d only m)))"
  by (auto simp: set_state_def Let_def memory_ok_update memory_ok_delete memory_ok_watched split: option.splits)

lemma distinct_adj_snoc: "xs \<noteq> [] \<Longrightarrow> distinct_adj (xs @ [y]) \<longleftrightarrow> distinct_adj xs \<and> last xs \<noteq> y"
  by (auto simp: distinct_adj_append_iff)

lemma in_step_set:
  assumes inv: "in_step w" and d: "det_state d = DNone \<longrightarrow> d = NONE"
  shows "in_step (after_set sid d only w)"
proof -
  let ?m = "wd_memory w" and ?m' = "fst (snd (set_state sid d only (wd_memory w)))"
  have "let shown = NONE # pushed_detections t (wd_pushed (after_set sid d only w))
        in last shown = state_of ?m' t \<and> distinct_adj shown" for t
  proof -
    define es where "es = NONE # pushed_detections t (wd_pushed w)"
    have old: "last es = state_of ?m t" "distinct_adj es" "es \<noteq> []"
      using inv by (simp_all add: in_step_def Let_def es_def)
    have new: "NONE # pushed_detections t (wd_pushed (after_set sid d only w))
      = es @ (if t = sid \<and> state_of ?m' sid \<noteq> state_of ?m sid then [state_of ?m' sid] else [])"
      using d by (simp add: after_set_def pushed_by_set es_def)
    show ?thesis
    proof (cases "t = sid \<and> state_of ?m' sid \<noteq> state_of ?m sid")
      case True
      with old show ?thesis unfolding Let_def new by (auto simp: distinct_adj_snoc)
    next
      case False
      then have "state_of ?m' t = state_of ?m t" using set_state_other [of t sid d only ?m] by blast
      with old False show ?thesis unfolding Let_def new by auto
    qed
  qed
  moreover have "memory_ok ?m'"
    using inv by (auto simp: in_step_def intro: memory_ok_set)
  ultimately show ?thesis by (simp add: in_step_def after_set_def)
qed

lemma in_step_push:
  "list_all detection_free es \<Longrightarrow> in_step w \<Longrightarrow> in_step (w\<lparr>wd_db := d, wd_pushed := wd_pushed w @ es\<rparr>)"
  by (simp add: in_step_def pushed_detections_free)

lemma proper_action:
  assumes "det_action p w p' w'" "proper p" "in_step w"
  shows "proper p' \<and> in_step w'"
  using assms
proof cases
  case (do_set sid d only k)
  then show ?thesis using assms in_step_set by (simp add: proper_def)
next
  case (do_look f)
  then show ?thesis using assms by (simp add: proper_def in_step_def)
next
  case (do_unwatch sid)
  then show ?thesis using assms by (simp add: proper_def in_step_def forget_watched_def memory_ok_def)
next
  case (do_push sid e)
  then show ?thesis
    using assms in_step_push [of "[(sid, e)]" w "wd_db w"] by (simp add: proper_def)
next
  case (do_db f d' es g)
  have all: "list_all detection_free (fst (snd (f (wd_db w)))) \<and> proper (snd (snd (f (wd_db w))))"
    using assms(2) unfolding proper_def do_db(1) all_sets_Use_db by blast
  then have es: "list_all detection_free es" and "proper p'"
    by (simp_all only: do_db(3) fst_conv snd_conv)
  with in_step_push [OF es assms(3)] show ?thesis by (simp add: do_db(2))
qed (use assms in \<open>simp_all add: proper_def\<close>)

section \<open>Every operation is proper\<close>

interpretation proper_programs: program_class proper "\<lambda>_ d _. det_state d = DNone \<longrightarrow> d = NONE" detection_free
  by unfold_locales (simp_all add: proper_def detection_free_def)

lemma memory_ok_state_of: "memory_ok m \<Longrightarrow> det_state (state_of m sid) = DNone \<longleftrightarrow> state_of m sid = NONE"
  by (auto simp: memory_ok_def state_of_def dest: map_of_SomeD split: option.splits)

lemma proper_watch: "proper (watch rid sid al only)"
  by (rule proper_programs.S_watch) auto

lemma proper_look: "(\<And>m. memory_ok m \<Longrightarrow> proper (f m)) \<Longrightarrow> proper (Look f)"
  by (simp add: proper_def)

lemma proper_retry: "proper (retry rid s c current)"
  unfolding retry_def Let_def
  by (intro proper_look proper_programs.S_set)
     (auto simp: memory_ok_state_of intro: proper_watch proper_programs.S_finish)

lemma proper_keep_watched: "proper (keep_watched rid s c run)"
  unfolding keep_watched_def Let_def
  by (intro proper_look)
     (auto intro!: proper_retry proper_programs.S_store proper_programs.S_set proper_programs.S_finish
       split: option.splits)

lemma proper_operation: "operation p \<Longrightarrow> proper p"
proof (induction rule: operation.induct)
  case op_reconcile
  then show ?case by (intro proper_programs.S_reconcile proper_keep_watched) auto
next
  case op_create
  then show ?case by (rule proper_programs.S_create_route) (auto intro: proper_watch)
next
  case op_update
  then show ?case by (rule proper_programs.S_update_route) (auto simp: detection_free_def)
next
  case op_delete
  then show ?case by (rule proper_programs.S_delete_route) auto
qed (auto intro!: proper_programs.S_bullet_routes simp: detection_free_def)

section \<open>What the frontends were pushed\<close>

definition new_world :: "db \<Rightarrow> world" where
  "new_world d =
     \<lparr>wd_memory = \<lparr>dm_states = [], dm_since = [], dm_watched = {}, dm_clock = 0\<rparr>, wd_db = d, wd_pushed = []\<rparr>"

definition crew_ok :: "crew \<Rightarrow> bool" where
  "crew_ok st \<longleftrightarrow> list_all proper (fst st) \<and> in_step (snd st)"

interpretation crews: invariant_system "\<lambda>st. \<exists>d. st = ([], new_world d)" "det_step operation" crew_ok
proof
  fix st :: crew assume "\<exists>d. st = ([], new_world d)"
  then show "crew_ok st"
    by (auto simp: crew_ok_def new_world_def in_step_def memory_ok_def state_of_def)
next
  fix st st' :: crew assume inv: "crew_ok st" and step: "det_step operation st st'"
  from step show "crew_ok st'"
  proof cases
    case (det_begin p ps w)
    then show ?thesis using inv proper_operation by (simp add: crew_ok_def)
  next
    case (det_act i ps w p' w')
    then have "proper (ps ! i)" "in_step w" using inv by (simp_all add: crew_ok_def list_all_length)
    with det_act have "proper p' \<and> in_step w'" by (intro proper_action) auto
    then show ?thesis using inv det_act
      by (auto simp: crew_ok_def list_all_iff dest!: subsetD [OF set_update_subset_insert])
  qed (use inv in \<open>auto simp: crew_ok_def in_step_def memory_ok_def\<close>)
qed

section \<open>Properties\<close>

text \<open>
  C14. However reconcile rounds, starts, ends and reopenings interleave, action by action, with any
  answers of the Detection Service and any database failures, the detection a Session's frontends were
  last pushed is the one the backend holds for it (\<open>none\<close> before the first), and it never pushed the
  same detection twice in a row.
\<close>

theorem pushed_detection_is_current:
  assumes "reach (\<lambda>st. \<exists>d. st = ([], new_world d)) (det_step operation) (ps, w)"
  shows "last (NONE # pushed_detections sid (wd_pushed w)) = state_of (wd_memory w) sid
    \<and> distinct_adj (NONE # pushed_detections sid (wd_pushed w))"
  using crews.reach_inv [OF assms] by (simp only: crew_ok_def in_step_def Let_def snd_conv)

text \<open>One thread advancing alone.\<close>

abbreviation reached :: "det_prog list \<Rightarrow> world \<Rightarrow> bool" where
  "reached ps w \<equiv> reach (\<lambda>st. \<exists>d. st = ([], new_world d)) (det_step operation) (ps, w)"

lemma reached_begin: "operation p \<Longrightarrow> reached [p] (new_world d)"
  by (rule reach_step [OF reach_init]) (auto intro: det_begin [where ps = "[]", simplified])

lemma reached_action: "reached [p] w \<Longrightarrow> det_action p w p' w' \<Longrightarrow> reached [p'] w'"
  using det_act [of 0 "[p]" w p' w' operation] by (auto intro: reach_step)

definition sample_db :: db where
  "sample_db = empty_db\<lparr>db_sessions :=
     [\<lparr>s_id = 7, s_name = ''s'', s_status = Active, s_started_at = 0, s_ended_at = None, s_record = False,
       s_camera_id = Some 3, s_created_at = 0\<rparr>],
     db_cameras := [\<lparr>c_id = 3, c_alias = ''cam'', c_mcast_ip = ''239.0.0.1'', c_mcast_port = 5000,
       c_iface = None, c_enabled = True, c_created_at = 0\<rparr>]\<rparr>"

theorem pushed_detection_is_current_witness:
  "\<exists>ps w. reached ps w \<and> pushed_detections 7 (wd_pushed w) = [detection_of Ending None None]
    \<and> state_of (wd_memory w) 7 = detection_of Ending None None"
proof -
  let ?s = "hd (db_sessions sample_db)"
  let ?e = "ending ?s (delete_session 7 0) (\<lambda>windows. Finish None)"
  have q: "get_session_or_404 7 sample_db = Inr ?s"
    by (simp add: get_session_or_404_def get_session_def sample_db_def)
  have "reached [delete_session_route 7 0] (new_world sample_db)"
    by (rule reached_begin) (rule op_delete)
  then have "reached [?e] (new_world sample_db)"
    by (rule reached_action, unfold delete_session_route_def fetch_def run_block_def)
       (use do_db [where w = "new_world sample_db" and d' = sample_db and es = "[]"] q
         in \<open>simp add: new_world_def\<close>)
  then obtain k where k: "reached [Set_state 7 (detection_of Ending None None) None k] (new_world sample_db)"
    by (rule reached_action [THEN that], unfold ending_def)
       (simp add: sample_db_def new_world_def)
  have r: "reached [k True] (after_set 7 (detection_of Ending None None) None (new_world sample_db))" (is "reached _ ?w")
    using reached_action [OF k] by (simp add: set_state_changed refused_def)
  have p: "pushed_detections 7 (wd_pushed ?w) = [detection_of Ending None None]"
    by (simp add: after_set_def set_state_def Let_def new_world_def state_of_def unless_unwatched_def
        END_UNCONFIRMED_def NONE_def detection_of_def)
  have "state_of (wd_memory ?w) 7 = detection_of Ending None None"
    using pushed_detection_is_current [OF r, of 7] p by simp
  with r p show ?thesis by (intro exI conjI)
qed

end
