(* ===== verification/Detection_Ends.thy ===== *)
theory Detection_Ends
  imports Detection_Races
begin

text \<open>
  An end under way (\<open>ending\<close>, around a completion or a deletion) beside everything else: reconcile
  rounds, the background start of the Session itself, and every request but another end or a second
  creation of the same Session. What keeps them from moving a Session that reads \<open>ending\<close> is that each
  names the states it may change (\<open>only_from\<close>), or decides under a look that saw it ending.
\<close>

section \<open>Programs that keep an end\<close>

definition reads_ending :: "uuid \<Rightarrow> memory \<Rightarrow> bool" where
  "reads_ending sid m \<longleftrightarrow> det_state (state_of m sid) = Ending"

definition not_from_ending :: "uuid \<Rightarrow> uuid \<Rightarrow> detection \<Rightarrow> det_state list option \<Rightarrow> bool" where
  "not_from_ending sid t d only \<longleftrightarrow> (t = sid \<longrightarrow> (\<exists>states. only = Some states \<and> Ending \<notin> set states))"

text \<open>
  \<open>keeps sid\<close>: while the Session reads \<open>ending\<close>, the program leaves it so. \<open>calm sid\<close>: it may run
  while the Session does not read \<open>ending\<close>, without making it, and keeps the end once one begins.
\<close>

definition keeps :: "uuid \<Rightarrow> det_prog \<Rightarrow> bool" where
  "keeps sid = all_sets (reads_ending sid) (not_from_ending sid) (\<lambda>t changed. t = sid \<longrightarrow> \<not> changed) (\<lambda>_. True)"

definition calm_set :: "uuid \<Rightarrow> uuid \<Rightarrow> detection \<Rightarrow> det_state list option \<Rightarrow> bool" where
  "calm_set sid t d only \<longleftrightarrow> not_from_ending sid t d only \<and> (t = sid \<longrightarrow> det_state d \<noteq> Ending)"

primrec calm :: "uuid \<Rightarrow> det_prog \<Rightarrow> bool" where
  "calm sid (Finish e) = True"
| "calm sid (Set_state t d only k) = (calm_set sid t d only \<and> (\<forall>b. calm sid (k b)))"
| "calm sid (Look f) = (\<forall>m. if reads_ending sid m then keeps sid (f m) else calm sid (f m))"
| "calm sid (Unwatch t k) = calm sid k"
| "calm sid (Push t e k) = calm sid k"
| "calm sid (Ask_status r) = (\<forall>a. calm sid (r a))"
| "calm sid (Ask_start t al s) = (\<forall>a. calm sid (s a))"
| "calm sid (Ask_end t r) = (\<forall>a. calm sid (r a))"
| "calm sid (Use_db f g) = ((\<forall>d. snd (snd (map_prod id (map_prod id (calm sid)) (f d)))) \<and> calm sid g)"

lemma calm_Use_db: "calm sid (Use_db f g) \<longleftrightarrow> (\<forall>d. calm sid (snd (snd (f d)))) \<and> calm sid g"
  by simp

declare calm.simps(9) [simp del]
declare calm_Use_db [simp]

lemma calm_keeps: "calm sid p \<Longrightarrow> keeps sid p"
  by (induction p rule: det_prog_induct)
     (simp_all add: keeps_def calm_set_def list.pred_True split: if_splits)

interpretation calm_programs: program_class "calm sid" "calm_set sid" "\<lambda>_. True" for sid
  by unfold_locales (auto simp: calm_keeps)

interpretation keeping_programs: program_class "keeps sid" "not_from_ending sid" "\<lambda>_. True" for sid
  by unfold_locales (simp_all add: keeps_def list.pred_True)


section \<open>Everything beside an end\<close>

text \<open>
  What may begin while the Session \<open>sid\<close> is being ended: any request but one that ends it too or
  creates it again, a reconcile round, and the \<open>watch\<close> its own creation left running.
\<close>

inductive beside :: "uuid \<Rightarrow> det_prog \<Rightarrow> bool" for sid where
  beside_reconcile: "beside sid (reconcile rid)"
| beside_watch: "beside sid (watch rid t al [Starting])"
| beside_create: "nid \<noteq> sid \<Longrightarrow> beside sid (create_session_route nid iid rid now created body d_check d_re)"
| beside_update: "t \<noteq> sid \<or> su_status body \<noteq> Some Completed \<Longrightarrow>
    beside sid (update_session_route t iid now1 now2 body d_check d_re)"
| beside_delete: "t \<noteq> sid \<Longrightarrow> beside sid (delete_session_route t now)"
| beside_report: "beside sid (report_bullet_route bid t bbody created)"
| beside_unreport: "beside sid (delete_bullet_route t bid now)"

lemma calm_look:
  "(\<And>m. reads_ending sid m \<Longrightarrow> keeps sid (f m)) \<Longrightarrow> (\<And>m. \<not> reads_ending sid m \<Longrightarrow> calm sid (f m)) \<Longrightarrow>
   calm sid (Look f)"
  by simp

lemma calm_watch: "t = sid \<Longrightarrow> Ending \<notin> set only \<Longrightarrow> calm sid (watch rid t al only)"
  by (rule calm_programs.S_watch) (auto simp: calm_set_def not_from_ending_def)

lemma calm_watch_other: "t \<noteq> sid \<Longrightarrow> calm sid (watch rid t al only)"
  by (rule calm_programs.S_watch) (auto simp: calm_set_def not_from_ending_def)

text \<open>A retry that saw the Session idle: what it shows is idle too, or it saw the end begin.\<close>

lemma keeps_retry:
  assumes "current \<noteq> Ending"
  shows "calm sid (retry rid s c current)"
proof (cases "s_id s = sid")
  case True
  show ?thesis
    unfolding retry_def Let_def
  proof (rule calm_look)
    fix m assume "reads_ending sid m"
    show "keeps sid (Set_state (s_id s)
        (if current = DNone then detection_of Starting None None
         else if current = Watching then RUN_LOST else state_of m (s_id s)) (Some [current])
        (\<lambda>changed. if changed then watch rid (s_id s) (c_alias c)
            [det_state (if current = DNone then detection_of Starting None None
               else if current = Watching then RUN_LOST else state_of m (s_id s))] else Finish None))"
      using True assms by (simp add: keeps_def not_from_ending_def)
  next
    fix m assume "\<not> reads_ending sid m"
    with True assms show "calm sid (Set_state (s_id s)
        (if current = DNone then detection_of Starting None None
         else if current = Watching then RUN_LOST else state_of m (s_id s)) (Some [current])
        (\<lambda>changed. if changed then watch rid (s_id s) (c_alias c)
            [det_state (if current = DNone then detection_of Starting None None
               else if current = Watching then RUN_LOST else state_of m (s_id s))] else Finish None))"
      by (intro calm_programs.S_set)
         (auto simp: calm_set_def not_from_ending_def reads_ending_def intro!: calm_watch)
  qed
next
  case False
  then show ?thesis
    unfolding retry_def Let_def
    by (intro calm_programs.S_look calm_programs.S_set)
       (auto simp: calm_set_def not_from_ending_def intro: calm_watch_other)
qed

lemma not_from_ending_idle: "not_from_ending sid t d (Some IDLE)"
  by (simp add: not_from_ending_def IDLE_def)

lemma Ending_not_idle [simp]: "Ending \<notin> set IDLE"
  by (simp add: IDLE_def)

lemma calm_keep_watched: "calm sid (keep_watched rid s c run)"
  unfolding keep_watched_def Let_def
  by (intro calm_programs.S_look)
     (auto simp: calm_set_def not_from_ending_idle
       intro!: keeps_retry calm_programs.S_store calm_programs.S_set split: option.splits)

lemma calm_reconcile: "calm sid (reconcile rid)"
proof (rule calm_programs.S_reconcile)
  show "calm_set sid t d (Some [Starting])" if "d \<in> {NONE, END_UNCONFIRMED}" for t d
    using that by (auto simp: calm_set_def not_from_ending_def)
  show "calm_set sid t d (Some IDLE)" if "d \<in> {NONE, SERVICE_DOWN, CAMERA_DISABLED}" for t d
    using that by (auto simp: calm_set_def not_from_ending_idle)
qed (rule calm_keep_watched)

lemma beside_calm: "beside sid p \<Longrightarrow> calm sid p"
proof (induction rule: beside.induct)
  case (beside_reconcile rid)
  then show ?case by (rule calm_reconcile)
next
  case (beside_watch rid t al)
  then show ?case by (cases "t = sid") (auto intro: calm_watch calm_watch_other)
next
  case beside_create
  then show ?case
    by (intro calm_programs.S_create_route) (auto intro: calm_watch_other simp: calm_set_def not_from_ending_def)
next
  case beside_update
  then show ?case
    by (intro calm_programs.S_update_route) (auto simp: calm_set_def not_from_ending_def)
next
  case beside_delete
  then show ?case
    by (intro calm_programs.S_delete_route) (auto simp: calm_set_def not_from_ending_def)
qed (rule calm_programs.S_bullet_routes; simp)+

section \<open>One action of theirs\<close>

lemma state_after_set:
  "state_of (fst (snd (set_state sid d only m))) sid \<in> {state_of m sid, d, NONE}"
  by (auto simp: set_state_def Let_def state_of_def update_conv delete_conv unless_unwatched_def
      split: option.splits)

lemma keeps_action:
  assumes "det_action p w p' w'" "keeps sid p" "reads_ending sid (wd_memory w)"
  shows "keeps sid p' \<and> reads_ending sid (wd_memory w')"
  using assms
proof cases
  case (do_set t d only k)
  show ?thesis
  proof (cases "t = sid")
    case True
    then have "refused t only (wd_memory w)"
      using assms(2,3) do_set by (auto simp: keeps_def not_from_ending_def refused_def reads_ending_def)
    then have "set_state t d only (wd_memory w) = (False, wd_memory w, [])"
      by (rule set_state_refused)
    then show ?thesis
      using assms(2,3) do_set by (simp add: keeps_def after_set_def)
  next
    case False
    then show ?thesis
      using assms(2,3) do_set set_state_other [of sid t d only "wd_memory w"]
      by (simp add: keeps_def after_set_def reads_ending_def)
  qed
next
  case (do_db f d' es g)
  have "keeps sid (snd (snd (f (wd_db w))))" using assms(2) do_db(1) by (simp add: keeps_def)
  then have "keeps sid p'" by (simp only: do_db(3) snd_conv)
  then show ?thesis using assms(3) by (simp add: do_db(2))
qed (use assms(2,3) in \<open>simp_all add: keeps_def forget_watched_def reads_ending_def\<close>)

lemma calm_action:
  assumes "det_action p w p' w'" "calm sid p" "\<not> reads_ending sid (wd_memory w)"
  shows "calm sid p' \<and> \<not> reads_ending sid (wd_memory w')"
  using assms
proof cases
  case (do_set t d only k)
  have "\<not> reads_ending sid (fst (snd (set_state t d only (wd_memory w))))"
  proof (cases "t = sid")
    case True
    then show ?thesis
      using assms(2,3) do_set state_after_set [of t d only "wd_memory w"]
      by (auto simp: calm_set_def reads_ending_def)
  next
    case False
    then show ?thesis
      using assms(3) set_state_other [of sid t d only "wd_memory w"] by (simp add: reads_ending_def)
  qed
  then show ?thesis using assms(2) do_set by (simp add: after_set_def)
next
  case (do_db f d' es g)
  have "calm sid (snd (snd (f (wd_db w))))" using assms(2) do_db(1) by simp
  then have "calm sid p'" by (simp only: do_db(3) snd_conv)
  then show ?thesis using assms(3) by (simp add: do_db(2))
qed (use assms(2,3) in \<open>simp_all add: forget_watched_def reads_ending_def\<close>)

lemma keeps_step:
  assumes "det_step (beside sid) (ps, w) (ps', w')" "list_all (keeps sid) ps" "reads_ending sid (wd_memory w)"
  shows "list_all (keeps sid) ps' \<and> reads_ending sid (wd_memory w')"
  using assms
proof cases
  case (det_begin p)
  then show ?thesis using assms(2,3) calm_keeps [OF beside_calm] by simp
next
  case (det_act i p')
  then have "keeps sid p' \<and> reads_ending sid (wd_memory w')"
    using assms(2,3) by (intro keeps_action) (auto simp: list_all_length)
  then show ?thesis using det_act assms(2)
    by (auto simp: list_all_iff dest!: subsetD [OF set_update_subset_insert])
qed (use assms(2,3) in \<open>auto simp: reads_ending_def\<close>)

lemma calm_step:
  assumes "det_step (beside sid) (ps, w) (ps', w')" "list_all (calm sid) ps" "\<not> reads_ending sid (wd_memory w)"
  shows "list_all (calm sid) ps' \<and> \<not> reads_ending sid (wd_memory w')"
  using assms
proof cases
  case (det_begin p)
  then show ?thesis using assms(2,3) beside_calm by simp
next
  case (det_act i p')
  then have "calm sid p' \<and> \<not> reads_ending sid (wd_memory w')"
    using assms(2,3) by (intro calm_action) (auto simp: list_all_length)
  then show ?thesis using det_act assms(2)
    by (auto simp: list_all_iff dest!: subsetD [OF set_update_subset_insert])
qed (use assms(2,3) in \<open>auto simp: reads_ending_def\<close>)

section \<open>The end itself\<close>

datatype end_phase = Before | Under_way | Over

definition phase_after :: "uuid \<Rightarrow> det_prog \<Rightarrow> end_phase \<Rightarrow> end_phase" where
  "phase_after sid e ph =
     (case e of
        Set_state t d only k \<Rightarrow>
          if t = sid then (case ph of Before \<Rightarrow> Under_way | _ \<Rightarrow> Over) else ph
      | _ \<Rightarrow> ph)"

text \<open>
  The thread of the end, with where it is: before its first \<open>_set\<close> of its Session (to \<open>ending\<close>),
  between that and its last, or after it; and every other thread.
\<close>

inductive end_race :: "uuid \<Rightarrow> (end_phase \<times> det_prog) \<times> crew \<Rightarrow> (end_phase \<times> det_prog) \<times> crew \<Rightarrow> bool" for sid where
  race_others: "det_step (beside sid) cr cr' \<Longrightarrow> end_race sid (e, cr) (e, cr')"
| race_own: "det_action e w e' w' \<Longrightarrow> end_race sid ((ph, e), ps, w) ((phase_after sid e ph, e'), ps, w')"

inductive_cases end_raceE: "end_race sid st st'"

text \<open>\<open>unfinished sid p\<close>: the program's next \<open>_set\<close> of the Session is the end's last.\<close>

primrec unfinished :: "uuid \<Rightarrow> det_prog \<Rightarrow> bool" where
  "unfinished sid (Finish e) = False"
| "unfinished sid (Set_state t d only k) = (t = sid \<and> only = None \<and> d \<in> {NONE, END_UNCONFIRMED})"
| "unfinished sid (Look f) = (\<forall>m. unfinished sid (f m))"
| "unfinished sid (Unwatch t k) = unfinished sid k"
| "unfinished sid (Push t e k) = unfinished sid k"
| "unfinished sid (Ask_status r) = (\<forall>a. unfinished sid (r a))"
| "unfinished sid (Ask_start t al s) = (\<forall>a. unfinished sid (s a))"
| "unfinished sid (Ask_end t r) = (\<forall>a. unfinished sid (r a))"
| "unfinished sid (Use_db f g) = ((\<forall>d. snd (snd (map_prod id (map_prod id (unfinished sid)) (f d)))) \<and> unfinished sid g)"

lemma unfinished_Use_db:
  "unfinished sid (Use_db f g) \<longleftrightarrow> (\<forall>d. unfinished sid (snd (snd (f d)))) \<and> unfinished sid g"
  by simp

declare unfinished.simps(9) [simp del]
declare unfinished_Use_db [simp]

lemma unfinished_failed: "unfinished sid (ending_failed sid b e)"
  by (simp add: ending_failed_def still_active_def)

lemma unfinished_block: "unfinished sid (ending_block sid b block after)"
  by (auto simp: ending_block_def run_block_def unfinished_failed split: prod.splits sum.splits)

lemma unfinished_end_run:
  assumes "\<And>b. unfinished sid (answered b)" "\<And>e. unfinished sid (raised e)"
  shows "unfinished sid (end_session_run sid answered raised)"
  using assms
  by (auto simp: end_session_run_def follow_db_def split: call.splits option.splits follow_result.splits)

definition end_begun :: "uuid \<Rightarrow> det_prog \<Rightarrow> bool" where
  "end_begun sid e \<longleftrightarrow>
     (\<exists>k. e = Set_state sid (detection_of Ending None None) None k \<and> (\<forall>b. unfinished sid (k b)))"

definition about_to_end :: "uuid \<Rightarrow> det_prog \<Rightarrow> bool" where
  "about_to_end sid e \<longleftrightarrow> end_begun sid e \<or> (\<exists>f. e = Look f \<and> (\<forall>m. end_begun sid (f m)))"

lemma about_to_end_ending:
  "s_status s = Active \<Longrightarrow> s_camera_id s \<noteq> None \<Longrightarrow> about_to_end (s_id s) (ending s block after)"
  by (auto simp: about_to_end_def ending_def end_begun_def unfinished_failed
      intro!: unfinished_end_run unfinished_block)

fun end_inv :: "uuid \<Rightarrow> (end_phase \<times> det_prog) \<times> crew \<Rightarrow> bool" where
  "end_inv sid ((Before, e), ps, w) \<longleftrightarrow>
     about_to_end sid e \<and> list_all (calm sid) ps \<and> \<not> reads_ending sid (wd_memory w)"
| "end_inv sid ((Under_way, e), ps, w) \<longleftrightarrow>
     unfinished sid e \<and> list_all (keeps sid) ps \<and> reads_ending sid (wd_memory w)"
| "end_inv sid ((Over, e), ps, w) \<longleftrightarrow> True"

lemma unfinished_action:
  assumes "det_action e w e' w'" "unfinished sid e" "reads_ending sid (wd_memory w)"
  shows "phase_after sid e Under_way = Over
    \<or> phase_after sid e Under_way = Under_way \<and> unfinished sid e' \<and> reads_ending sid (wd_memory w')"
  using assms
proof cases
  case (do_db f d' es g)
  have "unfinished sid (snd (snd (f (wd_db w))))" using assms(2) do_db(1) by simp
  then have "unfinished sid e'" by (simp only: do_db(3) snd_conv)
  then show ?thesis using do_db(1,2) assms(3) by (simp add: phase_after_def)
qed (use assms(2,3) in \<open>simp_all add: phase_after_def forget_watched_def reads_ending_def\<close>)

lemma set_ending: "reads_ending sid (fst (snd (set_state sid (detection_of Ending None None) None m)))"
proof -
  have "\<not> refused sid None m" by (simp add: refused_def)
  from state_of_set [OF this, of "detection_of Ending None None"] show ?thesis
    by (simp add: reads_ending_def)
qed

lemma list_all_calm_keeps: "list_all (calm sid) ps \<Longrightarrow> list_all (keeps sid) ps"
  by (auto simp: list_all_iff intro: calm_keeps)

lemma end_inv_step:
  assumes inv: "end_inv sid st" and step: "end_race sid st st'"
  shows "end_inv sid st'"
  using step
proof cases
  case (race_others cr cr' e)
  obtain ph p ps w ps' w' where "e = (ph, p)" "cr = (ps, w)" "cr' = (ps', w')"
    by (metis surj_pair)
  then show ?thesis
    using inv race_others keeps_step [of sid ps w ps' w'] calm_step [of sid ps w ps' w']
    by (cases ph) auto
next
  case (race_own e w e' w' ph ps)
  show ?thesis
  proof (cases ph)
    case Before
    then have ab: "about_to_end sid e" "list_all (calm sid) ps" "\<not> reads_ending sid (wd_memory w)"
      using inv race_own by simp_all
    show ?thesis
    proof (cases "end_begun sid e")
      case True
      then show ?thesis
        using race_own Before ab list_all_calm_keeps
        by (auto simp: end_begun_def phase_after_def after_set_def set_ending)
    next
      case False
      then show ?thesis
        using race_own Before ab by (auto simp: about_to_end_def phase_after_def)
    qed
  next
    case Under_way
    then show ?thesis
      using inv race_own unfinished_action [of e w e' w' sid] by auto
  next
    case Over
    then show ?thesis using race_own by (auto simp: phase_after_def split: det_prog.splits)
  qed
qed


text \<open>The locale of invariants, on the race of an end with everything else.\<close>

interpretation end_races: invariant_system
  "\<lambda>st. \<exists>e w. st = ((Before, e), [], w) \<and> about_to_end sid e \<and> \<not> reads_ending sid (wd_memory w)"
  "end_race sid" "end_inv sid" for sid
  by unfold_locales (auto intro: end_inv_step)

lemma reach_weaken: "reach A step st \<Longrightarrow> (\<And>s. A s \<Longrightarrow> B s) \<Longrightarrow> reach B step st"
  by (induction rule: reach.induct) (auto intro: reach_init reach_step)

section \<open>Properties\<close>

text \<open>
  C12. Once the one end under way of an active Session with a camera has set it \<open>ending\<close>, the Session
  reads \<open>ending\<close> until that end's own last \<open>_set\<close>, however reconcile rounds, the Session's background
  start, reopenings and requests of every other kind interleave with it, whatever the Detection
  Service answers them and whether or not the database is up: no tick and no late start makes a
  Session being completed look watched, or not watched, or starting. A second completion or deletion of
  the same Session meanwhile is left out: its last \<open>_set\<close> is also an end's own, and may come first.
\<close>

theorem end_is_not_overridden:
  assumes "s_status s = Active" "s_camera_id s \<noteq> None"
    and "reach (\<lambda>st. \<exists>w. st = ((Before, ending s block after), [], w) \<and> \<not> reads_ending (s_id s) (wd_memory w))
      (end_race (s_id s)) ((Under_way, e), ps, w)"
  shows "det_state (state_of (wd_memory w) (s_id s)) = Ending"
proof -
  have "end_inv (s_id s) ((Under_way, e), ps, w)"
    by (rule end_races.reach_inv, rule reach_weaken [OF assms(3)])
       (use about_to_end_ending [OF assms(1,2)] in blast)
  then show ?thesis by (simp add: reads_ending_def)
qed

theorem end_is_not_overridden_witness:
  "\<exists>s e w. s_id s = 7 \<and> reach (\<lambda>st. \<exists>w. st = ((Before, ending s (delete_session 7 0) (\<lambda>_. Finish None)), [], w)
        \<and> \<not> reads_ending (s_id s) (wd_memory w)) (end_race (s_id s)) ((Under_way, e), [reconcile 0], w)
    \<and> det_state (state_of (wd_memory w) 7) = Ending"
proof -
  define s where "s = hd (db_sessions sample_db)"
  have s: "s_status s = Active" "s_camera_id s \<noteq> None" "s_id s = 7"
    by (simp_all add: s_def sample_db_def)
  let ?e = "ending s (delete_session 7 0) (\<lambda>_. Finish None)" and ?w = "new_world sample_db"
  let ?R = "reach (\<lambda>st. \<exists>w. st = ((Before, ?e), [], w) \<and> \<not> reads_ending (s_id s) (wd_memory w)) (end_race (s_id s))"
  have "?R ((Before, ?e), [], ?w)"
    by (rule reach_init) (simp add: reads_ending_def new_world_def state_of_def)
  moreover obtain k where k: "det_action ?e ?w (Set_state 7 (detection_of Ending None None) None k) ?w"
    unfolding ending_def using s by simp
  ultimately have "?R ((Before, Set_state 7 (detection_of Ending None None) None k), [], ?w)"
    using race_own [OF k, of 7 Before "[]"] s by (auto simp: phase_after_def ending_def intro: reach_step)
  moreover have "det_action (Set_state 7 (detection_of Ending None None) None k) ?w (k True)
      (after_set 7 (detection_of Ending None None) None ?w)"
    by (simp add: set_state_changed refused_def)
  ultimately have "?R ((Under_way, k True), [], after_set 7 (detection_of Ending None None) None ?w)"
    using race_own [of "Set_state 7 (detection_of Ending None None) None k" ?w "k True" _ 7 Before "[]"] s
    by (auto simp: phase_after_def intro: reach_step)
  moreover have "end_race (s_id s) ((Under_way, k True), [], w) ((Under_way, k True), [reconcile 0], w)" for w
    using det_begin [of "beside (s_id s)" "reconcile 0" "[]" w] by (intro race_others) (simp add: beside_reconcile)
  ultimately have r: "?R ((Under_way, k True), [reconcile 0], after_set 7 (detection_of Ending None None) None ?w)"
    by (blast intro: reach_step)
  have "det_state (state_of (wd_memory (after_set 7 (detection_of Ending None None) None ?w)) 7) = Ending"
    using end_is_not_overridden [OF s(1,2) r] s(3) by simp
  with s(3) r show ?thesis by (intro exI conjI)
qed

end
