(* ===== verification/Publisher.thy ===== *)
theory Publisher
  imports Run_Loop Bullets
begin

text \<open>
  \<open>ImageRecognitionService/detection/webapp.py\<close>: how a Run's Confirmed Bullet Holes reach the
  backend. \<open>process\<close> puts each on a queue, and one worker thread posts them in order, retrying what
  the network or a 5xx lost, until leaving the \<open>with\<close> has waited long enough. The backend at the
  other end is \<open>Bullets.create_bullet\<close>: an attempt may be lost before it reaches it, or its answer
  after. The waits' lengths are not modelled, only that a drain may time out at any moment.
\<close>

section \<open>The payload\<close>

text \<open>Python's \<open>round\<close>: to the nearest integer, a half to the even one.\<close>

definition py_round :: "real \<Rightarrow> int" where
  "py_round x =
     (let f = \<lfloor>x\<rfloor>; part = x - of_int f in
      if part < 1 / 2 then f else if part > 1 / 2 then f + 1 else if even f then f else f + 1)"

definition key_text :: "string \<Rightarrow> confirmed_hole \<Rightarrow> string" where
  "key_text session_id v =
     session_id @ '':'' @ show_nat (first_frame_of v) @ '':'' @ show_int (py_round (fst (template_xy v)))
     @ '':'' @ show_int (py_round (snd (template_xy v)))"

text \<open>\<open>%f\<close> cut to three digits: the time to the millisecond below.\<close>

definition to_ms :: "time \<Rightarrow> time" where
  "to_ms t = t div 1000 * 1000"

text \<open>\<open>_payload\<close>; \<open>uuid5\<close> is the text of \<open>uuid.uuid5(NAMESPACE_URL, _)\<close>.\<close>

definition payload :: "(string \<Rightarrow> string) \<Rightarrow> string \<Rightarrow> confirmed_hole \<Rightarrow> bullet_payload" where
  "payload uuid5 session_id v =
     \<lparr>bp_version = ''v1'', bp_first_seen_at = Aware (to_ms (first_seen_at v)),
      bp_x = Finite (fst (template_xy v)), bp_y = Finite (snd (template_xy v)),
      bp_target_index = map_option int (target_of v),
      bp_x_mm = map_option (Finite \<circ> fst) (mm_of v), bp_y_mm = map_option (Finite \<circ> snd) (mm_of v),
      bp_source = Model, bp_idempotency_key = Some (uuid5 (key_text session_id v))\<rparr>"

section \<open>One attempt\<close>

definition RETRY_DELAYS_S :: "nat list" where
  "RETRY_DELAYS_S = [2, 4, 8, 16, 32, 60, 60, 60]"

definition attempts :: nat where
  "attempts = length RETRY_DELAYS_S + 1"

datatype attempt = Response nat | Http_error_status nat | Network_error

text \<open>\<open>_attempt\<close>: whether the value is settled, stored or refused for good.\<close>

fun settles :: "attempt \<Rightarrow> bool" where
  "settles (Response st) = True"
| "settles (Http_error_status code) = (code < 500)"
| "settles Network_error = False"

datatype outcome = Posted | Refused nat | Gave_up | Timed_out

fun settled_as :: "attempt \<Rightarrow> outcome" where
  "settled_as (Response st) = Posted"
| "settled_as (Http_error_status code) = Refused code"
| "settled_as Network_error = Gave_up"

section \<open>The publisher\<close>

text \<open>
  The queue (\<open>None\<close> is the sentinel), what the worker posts now with the attempts begun, whether one
  is in flight, and what became of each value: its attempts and its outcome.
\<close>

record publisher =
  pq_queue :: "confirmed_hole option list"
  pq_current :: "(confirmed_hole \<times> nat) option"
  pq_in_flight :: bool
  pq_closed :: bool
  pq_stop :: bool
  pq_finished :: bool
  pq_published :: "confirmed_hole list"
  pq_settled :: "(confirmed_hole \<times> nat \<times> outcome) list"
  pq_db :: db

definition new_publisher :: "db \<Rightarrow> publisher" where
  "new_publisher d =
     \<lparr>pq_queue = [], pq_current = None, pq_in_flight = False, pq_closed = False, pq_stop = False,
      pq_finished = False, pq_published = [], pq_settled = [], pq_db = d\<rparr>"

definition publish_value :: "confirmed_hole \<Rightarrow> publisher \<Rightarrow> publisher" where
  "publish_value v s = s\<lparr>pq_queue := pq_queue s @ [Some v], pq_published := pq_published s @ [v]\<rparr>"

definition exit_with :: "publisher \<Rightarrow> publisher" where
  "exit_with s = s\<lparr>pq_queue := pq_queue s @ [None], pq_closed := True\<rparr>"

definition settle_value :: "confirmed_hole \<Rightarrow> nat \<Rightarrow> outcome \<Rightarrow> publisher \<Rightarrow> publisher" where
  "settle_value v n out s =
     s\<lparr>pq_current := None, pq_in_flight := False, pq_settled := pq_settled s @ [(v, n, out)]\<rparr>"

text \<open>The loop of \<open>_post\<close> after an attempt: settled, given up, or waiting for the next.\<close>

definition after_attempt :: "confirmed_hole \<Rightarrow> nat \<Rightarrow> attempt \<Rightarrow> publisher \<Rightarrow> publisher" where
  "after_attempt v n a s =
     (if settles a then settle_value v n (settled_as a) s
      else if n < attempts then s\<lparr>pq_in_flight := False\<rparr>
      else settle_value v n Gave_up s)"

text \<open>
  What the backend makes of an attempt that reaches it: a 201 with the row stored, or the refusal;
  a body that validation refuses is a 422.
\<close>

definition backend_answer ::
    "(string \<Rightarrow> string) \<Rightarrow> string \<Rightarrow> uuid \<Rightarrow> uuid \<Rightarrow> time \<Rightarrow> confirmed_hole \<Rightarrow> db \<Rightarrow> attempt \<times> db" where
  "backend_answer uuid5 session_id sid bid created v d =
     (case validate_bullet (payload uuid5 session_id v) of
        Inl _ \<Rightarrow> (Http_error_status 422, d)
      | Inr body \<Rightarrow>
          (case create_bullet bid sid body created d of
             (Inr b, d') \<Rightarrow> (Response 201, d')
           | (Inl e, d') \<Rightarrow> (Http_error_status (http_status e), d')))"

text \<open>
  Other requests change the database meanwhile; the Session is not deleted, so its rows stay (a
  deleted Bullet Hole keeps its row).
\<close>

definition keeps_keys :: "uuid \<Rightarrow> db \<Rightarrow> db \<Rightarrow> bool" where
  "keeps_keys sid d d' \<longleftrightarrow> constraints d'
     \<and> (\<forall>k. find_by_idempotency_key d sid k \<noteq> None \<longrightarrow> find_by_idempotency_key d' sid k \<noteq> None)"

inductive publisher_step :: "(string \<Rightarrow> string) \<Rightarrow> string \<Rightarrow> uuid \<Rightarrow> publisher \<Rightarrow> publisher \<Rightarrow> bool"
  for uuid5 session_id sid where
  p_publish: "\<not> pq_closed s \<Longrightarrow> publisher_step uuid5 session_id sid s (publish_value v s)"
| p_exit: "\<not> pq_closed s \<Longrightarrow> publisher_step uuid5 session_id sid s (exit_with s)"
| p_drain_timeout: "pq_closed s \<Longrightarrow> publisher_step uuid5 session_id sid s (s\<lparr>pq_stop := True\<rparr>)"
| p_take: "pq_current s = None \<Longrightarrow> \<not> pq_finished s \<Longrightarrow> pq_queue s = Some v # rest \<Longrightarrow>
    publisher_step uuid5 session_id sid s (s\<lparr>pq_queue := rest, pq_current := Some (v, 0)\<rparr>)"
| p_sentinel: "pq_current s = None \<Longrightarrow> \<not> pq_finished s \<Longrightarrow> pq_queue s = None # rest \<Longrightarrow>
    publisher_step uuid5 session_id sid s (s\<lparr>pq_queue := rest, pq_finished := True\<rparr>)"
| p_stopped: "pq_current s = Some (v, n) \<Longrightarrow> \<not> pq_in_flight s \<Longrightarrow> pq_stop s \<Longrightarrow>
    publisher_step uuid5 session_id sid s (settle_value v n Timed_out s)"
| p_attempt: "pq_current s = Some (v, n) \<Longrightarrow> \<not> pq_in_flight s \<Longrightarrow> \<not> pq_stop s \<Longrightarrow>
    publisher_step uuid5 session_id sid s (s\<lparr>pq_current := Some (v, n + 1), pq_in_flight := True\<rparr>)"
| p_lost: "pq_current s = Some (v, n) \<Longrightarrow> pq_in_flight s \<Longrightarrow> \<not> settles a \<Longrightarrow>
    publisher_step uuid5 session_id sid s (after_attempt v n a s)"
| p_answer_lost: "pq_current s = Some (v, n) \<Longrightarrow> pq_in_flight s \<Longrightarrow>
    backend_answer uuid5 session_id sid bid created v (pq_db s) = (a, d') \<Longrightarrow>
    publisher_step uuid5 session_id sid s (after_attempt v n Network_error (s\<lparr>pq_db := d'\<rparr>))"
| p_answered: "pq_current s = Some (v, n) \<Longrightarrow> pq_in_flight s \<Longrightarrow>
    backend_answer uuid5 session_id sid bid created v (pq_db s) = (a, d') \<Longrightarrow>
    publisher_step uuid5 session_id sid s (after_attempt v n a (s\<lparr>pq_db := d'\<rparr>))"
| p_elsewhere: "keeps_keys sid (pq_db s) d' \<Longrightarrow> publisher_step uuid5 session_id sid s (s\<lparr>pq_db := d'\<rparr>)"

inductive_cases publisher_stepE: "publisher_step uuid5 session_id sid s s'"

section \<open>Every payload is taken\<close>

definition body_of :: "(string \<Rightarrow> string) \<Rightarrow> string \<Rightarrow> confirmed_hole \<Rightarrow> bullet_create" where
  "body_of uuid5 session_id v =
     \<lparr>bc_first_seen_at = to_ms (first_seen_at v), bc_position_x = fst (template_xy v),
      bc_position_y = snd (template_xy v), bc_target_index = map_option int (target_of v),
      bc_x_mm = map_option fst (mm_of v), bc_y_mm = map_option snd (mm_of v), bc_source = Model,
      bc_idempotency_key = Some (uuid5 (key_text session_id v))\<rparr>"

lemma payload_validated: "validate_bullet (payload uuid5 session_id v) = Inr (body_of uuid5 session_id v)"
  by (cases "mm_of v")
     (simp_all add: validate_bullet_def payload_def bullet_problems_def version_must_be_v1_def
       must_be_finite_def body_of_def comp_def)

lemma to_ms_near: "to_ms t \<le> t" "t < to_ms t + 1000"
  using pos_mod_bound [of 1000 t] minus_div_mult_eq_mod [of t 1000] pos_mod_sign [of 1000 t]
  by (simp_all add: to_ms_def)


section \<open>What the publisher keeps\<close>

definition queued :: "confirmed_hole option list \<Rightarrow> confirmed_hole list" where
  "queued q = concat (map (\<lambda>x. case x of None \<Rightarrow> [] | Some v \<Rightarrow> [v]) q)"

definition being_posted :: "publisher \<Rightarrow> confirmed_hole list" where
  "being_posted s = (case pq_current s of None \<Rightarrow> [] | Some (v, n) \<Rightarrow> [v])"

definition in_order :: "publisher \<Rightarrow> bool" where
  "in_order s \<longleftrightarrow> map fst (pq_settled s) @ being_posted s @ queued (pq_queue s) = pq_published s"

definition sentinel_last :: "publisher \<Rightarrow> bool" where
  "sentinel_last s \<longleftrightarrow>
     (if pq_finished s then pq_closed s \<and> pq_queue s = [] \<and> pq_current s = None
      else if pq_closed s then \<exists>q. pq_queue s = map Some q @ [None]
      else \<exists>q. pq_queue s = map Some q)"

definition is_stored :: "uuid \<Rightarrow> string \<Rightarrow> db \<Rightarrow> bool" where
  "is_stored sid key d \<longleftrightarrow> find_by_idempotency_key d sid key \<noteq> None"

definition counted :: "publisher \<Rightarrow> bool" where
  "counted s \<longleftrightarrow>
     (\<forall>v n. pq_current s = Some (v, n) \<longrightarrow> (if pq_in_flight s then 1 \<le> n \<and> n \<le> attempts else n < attempts))
     \<and> (pq_current s = None \<longrightarrow> \<not> pq_in_flight s)
     \<and> (\<forall>(v, n, out)\<in>set (pq_settled s). n \<le> attempts)"

definition all_stored :: "(string \<Rightarrow> string) \<Rightarrow> string \<Rightarrow> uuid \<Rightarrow> publisher \<Rightarrow> bool" where
  "all_stored uuid5 session_id sid s \<longleftrightarrow> constraints (pq_db s) \<and>
     (\<forall>(v, n, out)\<in>set (pq_settled s). out = Posted \<longrightarrow> is_stored sid (uuid5 (key_text session_id v)) (pq_db s))"

definition publisher_ok :: "(string \<Rightarrow> string) \<Rightarrow> string \<Rightarrow> uuid \<Rightarrow> publisher \<Rightarrow> bool" where
  "publisher_ok uuid5 session_id sid s \<longleftrightarrow>
     in_order s \<and> sentinel_last s \<and> counted s \<and> all_stored uuid5 session_id sid s"

lemma queued_simps [simp]:
  "queued [] = []" "queued (Some v # q) = v # queued q" "queued (None # q) = queued q"
  "queued (q @ r) = queued q @ queued r"
  by (simp_all add: queued_def)

lemma stored_once:
  assumes "constraints d" "is_stored sid key d"
  shows "count_where (\<lambda>b. b_session_id b = sid \<and> b_idempotency_key b = Some key) (db_bullets d) = 1"
proof -
  let ?P = "\<lambda>b. b_session_id b = sid \<and> b_idempotency_key b = Some key"
  have "distinct (map (\<lambda>b. (b_session_id b, b_idempotency_key b)) (filter (\<lambda>b. b_idempotency_key b \<noteq> None) (db_bullets d)))"
    using assms(1)
    by (simp add: constraints_iff uq_bullet_holes_session_idempotency_key_def unique_index_def)
  from count_key_le_one [OF this, of "(sid, Some key)"]
  have "count_where ?P (filter (\<lambda>b. b_idempotency_key b \<noteq> None) (db_bullets d)) \<le> 1"
    by simp
  moreover have "filter ?P (filter (\<lambda>b. b_idempotency_key b \<noteq> None) (db_bullets d)) = filter ?P (db_bullets d)"
    by (auto intro: filter_cong)
  ultimately have "count_where ?P (db_bullets d) \<le> 1" by (simp add: count_where_def)
  moreover have "count_where ?P (db_bullets d) \<noteq> 0"
    using assms(2) by (auto simp: count_where_zero is_stored_def find_by_idempotency_key_def find_None_iff)
  ultimately show ?thesis by simp
qed

text \<open>What reaching the backend does to the stored keys.\<close>

lemma create_keeps_keys:
  assumes "constraints d"
  shows "keeps_keys sid d (snd (create_bullet bid sid body created d))"
proof (cases "snd (create_bullet bid sid body created d) = d")
  case True
  with assms show ?thesis by (simp add: keeps_keys_def)
next
  case False
  obtain r d' where c: "create_bullet bid sid body created d = (r, d')" by (rule prod.exhaust)
  with False have "d' \<noteq> d" by simp
  then obtain b where d': "d' = d\<lparr>db_bullets := db_bullets d @ [b]\<rparr>" and ok: "constraints d'"
    using create_bullet_changes [OF c] by metis
  have "find P (xs @ [b]) \<noteq> None" if "find P xs \<noteq> None" for P xs
    using that by (auto simp: find_None_iff)
  with d' ok c show ?thesis by (auto simp: keeps_keys_def find_by_idempotency_key_def)
qed

lemma backend_keeps:
  assumes "constraints d" "backend_answer uuid5 session_id sid bid created v d = (a, d')"
  shows "keeps_keys sid d d'"
    and "settles a \<Longrightarrow> settled_as a = Posted \<Longrightarrow> is_stored sid (uuid5 (key_text session_id v)) d'"
proof -
  let ?b = "body_of uuid5 session_id v"
  obtain r e where c: "create_bullet bid sid ?b created d = (r, e)" by (rule prod.exhaust)
  then have d': "d' = e" and a: "a = (case r of Inl x \<Rightarrow> Http_error_status (http_status x) | Inr _ \<Rightarrow> Response 201)"
    using assms(2) by (auto simp: backend_answer_def payload_validated split: sum.splits)
  show "keeps_keys sid d d'"
    using create_keeps_keys [OF assms(1), of sid bid ?b created] c d' by simp
  show "is_stored sid (uuid5 (key_text session_id v)) d'" if "settles a" "settled_as a = Posted"
  proof -
    from that a obtain b where "r = Inr b" by (cases r) auto
    with c have "create_bullet bid sid ?b created d = (Inr b, e)" by simp
    from created_is_found(2) [OF this] show ?thesis by (simp add: is_stored_def d' body_of_def)
  qed
qed

lemma all_stored_db:
  "all_stored uuid5 session_id sid s \<Longrightarrow> keeps_keys sid (pq_db s) d' \<Longrightarrow>
   all_stored uuid5 session_id sid (s\<lparr>pq_db := d'\<rparr>)"
  by (fastforce simp: all_stored_def keeps_keys_def is_stored_def)

lemma after_attempt_ok:
  assumes ok: "publisher_ok uuid5 session_id sid s" and cur: "pq_current s = Some (v, n)" "pq_in_flight s"
    and stored: "settles a \<Longrightarrow> settled_as a = Posted \<Longrightarrow> is_stored sid (uuid5 (key_text session_id v)) (pq_db s)"
  shows "publisher_ok uuid5 session_id sid (after_attempt v n a s)"
proof -
  have n: "1 \<le> n" "n \<le> attempts" using ok cur by (auto simp: publisher_ok_def counted_def)
  have fin: "\<not> pq_finished s" using ok cur by (auto simp: publisher_ok_def sentinel_last_def)
  consider (settled) out where "after_attempt v n a s = settle_value v n out s"
      "out = Posted \<Longrightarrow> is_stored sid (uuid5 (key_text session_id v)) (pq_db s)"
    | (again) "after_attempt v n a s = s\<lparr>pq_in_flight := False\<rparr>" "n < attempts"
  proof (cases "settles a")
    case True
    then show ?thesis using settled [of "settled_as a"] stored by (simp add: after_attempt_def)
  next
    case False
    then show ?thesis using settled [of Gave_up] again by (cases "n < attempts") (simp_all add: after_attempt_def)
  qed
  then show ?thesis
  proof cases
    case settled
    then show ?thesis
      using ok cur n fin
      by (auto simp: publisher_ok_def in_order_def sentinel_last_def counted_def all_stored_def
          settle_value_def being_posted_def)
  next
    case again
    then show ?thesis
      using ok cur n fin
      by (auto simp: publisher_ok_def in_order_def sentinel_last_def counted_def all_stored_def being_posted_def)
  qed
qed

lemma publisher_ok_db:
  "publisher_ok uuid5 session_id sid s \<Longrightarrow> keeps_keys sid (pq_db s) d' \<Longrightarrow>
   publisher_ok uuid5 session_id sid (s\<lparr>pq_db := d'\<rparr>)"
  using all_stored_db
  by (auto simp: publisher_ok_def in_order_def sentinel_last_def counted_def being_posted_def)

lemma publisher_ok_constraints: "publisher_ok uuid5 session_id sid s \<Longrightarrow> constraints (pq_db s)"
  by (simp add: publisher_ok_def all_stored_def)

lemma sentinel_head:
  assumes "sentinel_last s" "pq_queue s = x # rest" "\<not> pq_finished s"
  shows "x = None \<longleftrightarrow> pq_closed s \<and> rest = []"
    and "x \<noteq> None \<Longrightarrow> (if pq_closed s then \<exists>q. rest = map Some q @ [None] else \<exists>q. rest = map Some q)"
proof -
  have q: "if pq_closed s then \<exists>q. x # rest = map Some q @ [None] else \<exists>q. x # rest = map Some q"
    using assms by (simp add: sentinel_last_def split: if_splits)
  have "(x = None \<longleftrightarrow> pq_closed s \<and> rest = []) \<and>
    (x \<noteq> None \<longrightarrow> (if pq_closed s then \<exists>q. rest = map Some q @ [None] else \<exists>q. rest = map Some q))"
  proof (cases "pq_closed s")
    case True
    with q have "\<exists>q. x # rest = map Some q @ [None]" by simp
    then obtain q where "x # rest = map Some q @ [None]" by (elim exE)
    with True show ?thesis by (cases q) auto
  next
    case False
    with q have "\<exists>q. x # rest = map Some q" by simp
    then obtain q where "x # rest = map Some q" by (elim exE)
    with False show ?thesis by (cases q) auto
  qed
  then show "x = None \<longleftrightarrow> pq_closed s \<and> rest = []"
    and "x \<noteq> None \<Longrightarrow> (if pq_closed s then \<exists>q. rest = map Some q @ [None] else \<exists>q. rest = map Some q)"
    by blast+
qed


lemma publisher_step_ok:
  assumes ok: "publisher_ok uuid5 session_id sid s" and step: "publisher_step uuid5 session_id sid s s'"
  shows "publisher_ok uuid5 session_id sid s'"
  using step
proof cases
  case (p_publish v)
  have "\<exists>q. pq_queue s @ [Some v] = map Some q" if "pq_queue s = map Some q" for q
    using that by (intro exI [of _ "q @ [v]"]) simp
  then show ?thesis
    using ok p_publish
    by (auto simp: publisher_ok_def in_order_def sentinel_last_def counted_def all_stored_def
        publish_value_def being_posted_def)
next
  case p_exit
  then show ?thesis
    using ok
    by (auto simp: publisher_ok_def in_order_def sentinel_last_def counted_def all_stored_def
        exit_with_def being_posted_def)
next
  case p_drain_timeout
  then show ?thesis
    using ok
    by (auto simp: publisher_ok_def in_order_def sentinel_last_def counted_def all_stored_def being_posted_def)
next
  case (p_take v rest)
  have "sentinel_last (s\<lparr>pq_queue := rest, pq_current := Some (v, 0)\<rparr>)"
    using sentinel_head(2) [OF _ p_take(4,3)] ok p_take(3) by (simp add: publisher_ok_def) (simp add: sentinel_last_def)
  moreover have "in_order (s\<lparr>pq_queue := rest, pq_current := Some (v, 0)\<rparr>)"
    using ok p_take by (simp add: publisher_ok_def in_order_def being_posted_def)
  ultimately show ?thesis
    using ok p_take by (auto simp: publisher_ok_def counted_def all_stored_def attempts_def)
next
  case (p_sentinel rest)
  have "pq_closed s \<and> rest = []"
    using sentinel_head(1) [of s None rest] ok p_sentinel by (simp add: publisher_ok_def)
  then show ?thesis
    using ok p_sentinel
    by (auto simp: publisher_ok_def in_order_def sentinel_last_def counted_def all_stored_def being_posted_def)
next
  case (p_stopped v n)
  then show ?thesis
    using ok
    by (auto simp: publisher_ok_def in_order_def sentinel_last_def counted_def all_stored_def
        settle_value_def being_posted_def split: if_splits)
next
  case (p_attempt v n)
  then show ?thesis
    using ok
    by (auto simp: publisher_ok_def in_order_def sentinel_last_def counted_def all_stored_def
        being_posted_def split: if_splits)
next
  case (p_lost v n a)
  then show ?thesis using after_attempt_ok [OF ok, of v n a] by simp
next
  case (p_answer_lost v n bid created a d')
  then have "publisher_ok uuid5 session_id sid (s\<lparr>pq_db := d'\<rparr>)"
    by (intro publisher_ok_db [OF ok] backend_keeps(1) [OF publisher_ok_constraints [OF ok]])
  from after_attempt_ok [OF this, of v n Network_error] show ?thesis using p_answer_lost by simp
next
  case (p_answered v n bid created a d')
  then have "publisher_ok uuid5 session_id sid (s\<lparr>pq_db := d'\<rparr>)"
    by (intro publisher_ok_db [OF ok] backend_keeps(1) [OF publisher_ok_constraints [OF ok]])
  from after_attempt_ok [OF this, of v n a] show ?thesis
    using p_answered backend_keeps(2) [OF publisher_ok_constraints [OF ok] p_answered(4)] by simp
next
  case (p_elsewhere d')
  then show ?thesis using publisher_ok_db [OF ok] by simp
qed

lemma publisher_ok_new: "constraints d \<Longrightarrow> publisher_ok uuid5 session_id sid (new_publisher d)"
  by (simp add: publisher_ok_def new_publisher_def in_order_def sentinel_last_def counted_def all_stored_def
      being_posted_def)

interpretation publishers: invariant_system "\<lambda>s. \<exists>d. constraints d \<and> s = new_publisher d"
  "publisher_step uuid5 session_id sid" "publisher_ok uuid5 session_id sid" for uuid5 session_id sid
  by unfold_locales (auto intro: publisher_ok_new publisher_step_ok)

section \<open>Properties\<close>

text \<open>
  C18. A Run's Confirmed Bullet Holes are posted in the order they were published, each settled before
  the next is begun, after at most nine attempts, and none is lost in the queue: when the worker has
  reached the end, every one published has its outcome. However often the network lost an attempt
  before or after the backend stored it, one reported posted is stored exactly once in its Session.
\<close>

theorem posted_in_order_stored_once:
  assumes "reach (\<lambda>s. \<exists>d. constraints d \<and> s = new_publisher d) (publisher_step uuid5 session_id sid) s"
  shows "prefix (map fst (pq_settled s)) (pq_published s)
    \<and> (pq_finished s \<longrightarrow> map fst (pq_settled s) = pq_published s)
    \<and> (\<forall>(v, n, out)\<in>set (pq_settled s). n \<le> 9 \<and> (out = Posted \<longrightarrow>
         count_where (\<lambda>b. b_session_id b = sid \<and> b_idempotency_key b = Some (uuid5 (key_text session_id v)))
           (db_bullets (pq_db s)) = 1))"
proof (intro conjI)
  have ok: "publisher_ok uuid5 session_id sid s" using assms by (rule publishers.reach_inv)
  then have order: "map fst (pq_settled s) @ being_posted s @ queued (pq_queue s) = pq_published s"
    by (simp add: publisher_ok_def in_order_def)
  show "prefix (map fst (pq_settled s)) (pq_published s)"
    using order by (metis prefixI)
  show "pq_finished s \<longrightarrow> map fst (pq_settled s) = pq_published s"
    using ok order by (auto simp: publisher_ok_def sentinel_last_def being_posted_def)
  have "n \<le> 9" if "(v, n, out) \<in> set (pq_settled s)" for v n out
    using ok that by (auto simp: publisher_ok_def counted_def attempts_def RETRY_DELAYS_S_def)
  moreover have "count_where (\<lambda>b. b_session_id b = sid \<and> b_idempotency_key b = Some (uuid5 (key_text session_id v)))
      (db_bullets (pq_db s)) = 1" if "(v, n, Posted) \<in> set (pq_settled s)" for v n
    using ok that by (intro stored_once) (auto simp: publisher_ok_def all_stored_def)
  ultimately show "\<forall>(v, n, out)\<in>set (pq_settled s). n \<le> 9 \<and> (out = Posted \<longrightarrow>
      count_where (\<lambda>b. b_session_id b = sid \<and> b_idempotency_key b = Some (uuid5 (key_text session_id v)))
        (db_bullets (pq_db s)) = 1)"
    by auto
qed

text \<open>A value whose first answer was lost: posted at the second attempt, stored once.\<close>

definition sent_hole :: confirmed_hole where
  "sent_hole = \<lparr>first_frame_of = 3, first_seen_at = 1234567, template_xy = (1, 2), target_of = None, mm_of = None\<rparr>"

definition sample_row :: bullet_row where
  "sample_row = new_bullet 5 1 (body_of (\<lambda>t. t) ''1'' sent_hole) 160 1"

definition sample_stored :: db where
  "sample_stored = recording_db\<lparr>db_bullets := [sample_row]\<rparr>"

lemma sample_first:
  "backend_answer (\<lambda>t. t) ''1'' 1 5 160 sent_hole recording_db = (Response 201, sample_stored)"
  by (simp add: backend_answer_def payload_validated create_bullet_def recording_db_eq get_session_def
      refused_by_status_def body_of_def sent_hole_def sample_row_def sample_stored_def
      stored_duplicate_def find_by_idempotency_key_def new_bullet_def count_active_def add_bullet_def
      commit_ok constraints_defs empty_db_def Let_def)

lemma sample_again:
  "backend_answer (\<lambda>t. t) ''1'' 1 6 170 sent_hole sample_stored = (Response 201, sample_stored)"
  by (simp add: backend_answer_def payload_validated create_bullet_def recording_db_eq get_session_def
      refused_by_status_def body_of_def sent_hole_def sample_row_def sample_stored_def
      stored_duplicate_def find_by_idempotency_key_def new_bullet_def Let_def)


definition sample_publisher :: publisher where
  "sample_publisher =
     \<lparr>pq_queue = [], pq_current = None, pq_in_flight = False, pq_closed = False, pq_stop = False,
      pq_finished = False, pq_published = [sent_hole], pq_settled = [(sent_hole, 2, Posted)],
      pq_db = sample_stored\<rparr>"

abbreviation posting :: "publisher \<Rightarrow> bool" where
  "posting s \<equiv> reach (\<lambda>s. \<exists>d. constraints d \<and> s = new_publisher d) (publisher_step (\<lambda>t. t) ''1'' 1) s"

lemma posting_sample: "posting sample_publisher"
proof -
  let ?st = "\<lambda>cur fl q d. \<lparr>pq_queue = q, pq_current = cur, pq_in_flight = fl, pq_closed = False,
      pq_stop = False, pq_finished = False, pq_published = [sent_hole], pq_settled = [], pq_db = d\<rparr>"
  let ?v = sent_hole
  note simps = publish_value_def new_publisher_def after_attempt_def settle_value_def attempts_def
    RETRY_DELAYS_S_def sample_publisher_def
  have "posting (new_publisher recording_db)"
    using recording_db_ok by (intro reach_init) (auto dest: sessions_ok_constraints)
  then have "posting (publish_value ?v (new_publisher recording_db))"
    by (rule reach_step) (intro p_publish, simp add: new_publisher_def)
  moreover have "publish_value ?v (new_publisher recording_db) = ?st None False [Some ?v] recording_db"
    by (simp add: simps)
  ultimately have "posting (?st None False [Some ?v] recording_db)" by simp
  from reach_step [OF this p_take] have "posting (?st (Some (?v, 0)) False [] recording_db)" by simp
  from reach_step [OF this p_attempt] have "posting (?st (Some (?v, 1)) True [] recording_db)" by simp
  moreover have "publisher_step (\<lambda>t. t) ''1'' 1 (?st (Some (?v, 1)) True [] recording_db)
      (after_attempt ?v 1 Network_error ((?st (Some (?v, 1)) True [] recording_db)\<lparr>pq_db := sample_stored\<rparr>))"
    by (rule p_answer_lost [where bid = 5 and created = 160 and a = "Response 201"]) (simp_all add: sample_first del: One_nat_def)
  ultimately have "posting (?st (Some (?v, 1)) False [] sample_stored)"
    by (auto simp: simps dest: reach_step)
  from reach_step [OF this p_attempt] have "posting (?st (Some (?v, 2)) True [] sample_stored)"
    by (simp add: numeral_2_eq_2)
  moreover have "publisher_step (\<lambda>t. t) ''1'' 1 (?st (Some (?v, 2)) True [] sample_stored)
      (after_attempt ?v 2 (Response 201) ((?st (Some (?v, 2)) True [] sample_stored)\<lparr>pq_db := sample_stored\<rparr>))"
    by (rule p_answered [where bid = 6 and created = 170]) (simp_all add: sample_again del: One_nat_def)
  ultimately have "posting (after_attempt ?v 2 (Response 201) (?st (Some (?v, 2)) True [] sample_stored))"
    by (auto dest: reach_step)
  then show ?thesis by (simp add: simps)
qed

theorem posted_in_order_stored_once_witness:
  "posting sample_publisher
    \<and> count_where (\<lambda>b. b_session_id b = 1 \<and> b_idempotency_key b = Some (key_text ''1'' sent_hole))
        (db_bullets (pq_db sample_publisher)) = 1"
  using posted_in_order_stored_once [OF posting_sample] posting_sample
  by (auto simp: sample_publisher_def)

end
