(* ===== verification/Motion_Protocol.thy ===== *)
theory Motion_Protocol
  imports Prelude "HOL-Library.Word"
begin

text \<open>
  \<open>MotionSimulator/protocol.py\<close>: the packets of the motion controller. Bytes are 8-bit words; what
  \<open>build_packet\<close> is given are Python integers, and \<open>bytearray\<close> refuses one outside 0..255
  (\<open>None\<close>). The table of opcodes is the source's, in its order.
\<close>

type_synonym byte = "8 word"

section \<open>Opcodes\<close>

definition OPCODES :: "(nat \<times> string) list" where
  "OPCODES =
     [(262, ''MOT_GetMotorCurrent''), (263, ''MOT_GetMotorVoltage''),
      (264, ''MOT_GetMotorPosition''), (265, ''MOT_GetLoadPosition''),
      (266, ''MOT_GetMotorSpeed''), (257, ''MOT_MerRegister''), (258, ''MOT_DerRegister''),
      (259, ''MOT_SrhRegister''), (260, ''MOT_SrlRegister''), (261, ''MOT_MsrRegister''),
      (268, ''MOT_GetNegSWLS''), (269, ''MOT_GetPosSWLS''), (272, ''MOT_IsActiveSWLS''),
      (335, ''MOT_GetShortPath''), (302, ''MOT_GetMaxCurrent''), (304, ''MOT_SetAcceleration''),
      (305, ''MOT_SetSpeed''), (306, ''MOT_SendPosition''), (307, ''MOT_SetActualPosition''),
      (308, ''MOT_Update''), (309, ''MOT_Homing''), (310, ''MOT_SetNegSWLS''),
      (311, ''MOT_SetPosSWLS''), (326, ''MOT_ActivateSWLS''), (312, ''MOT_SetPositionRelative''),
      (313, ''MOT_SetPositionAbsolute''), (314, ''MOT_SetSpeedMode''),
      (315, ''MOT_SetPositionMode''), (316, ''MOT_AxisOn''), (317, ''MOT_AxisOff''),
      (318, ''MOT_AxisReset''), (319, ''MOT_SetTum''), (323, ''MOT_ResetFaults''),
      (334, ''MOT_SetShortPath''), (357, ''MOT_SaveMotorSetting''), (358, ''MOT_SetMaxCurrent''),
      (324, ''MOT_SetMotionComplete''), (1024, ''SCN_SetYawMin''), (1025, ''SCN_SetYawMax''),
      (1026, ''SCN_SetPitchMin''), (1027, ''SCN_SetNumSteps''), (1028, ''SCN_SetStepHeight''),
      (1029, ''SCN_SetScanSpeed''), (1030, ''SCN_SetShortPath''), (1031, ''SCN_IsScanOn''),
      (1032, ''SCN_StopScan''), (1036, ''SCN_StartScanZigZag''), (1037, ''SCN_StartScanSnake''),
      (1038, ''SCN_StartScanSquare''), (1792, ''COM_Reboot''), (1794, ''COM_Connect''),
      (1795, ''COM_Disconnect''), (1796, ''COM_IsConnected''), (1797, ''COM_StartKeepAlive''),
      (1798, ''COM_IsKeepAliveOn''), (1800, ''COM_setKeepAliveTimeout''),
      (1801, ''COM_getKeepAliveTimeout''), (1820, ''COM_setKeepAliveCount''),
      (1821, ''COM_getKeepAliveCount''), (1817, ''COM_SetComType''), (1811, ''COM_SysState''),
      (1802, ''IP_SetControllerIP''), (1805, ''IP_GetControllerIP''),
      (1803, ''IP_SetControllerPort''), (1806, ''IP_GetControllerPort''),
      (1818, ''IP_SetControllerSubnetMask''), (1808, ''IP_SaveIP''), (3117, ''COM_GetPn''),
      (3119, ''COM_GetSn''), (3146, ''COM_GetFw''), (3148, ''COM_GetHw''), (768, ''LRF_SetRange''),
      (769, ''LRF_GetRange''), (2048, ''STB_StabilizationOn''), (2049, ''STB_StabilizationOff''),
      (2082, ''STB_GetStabError''), (2105, ''STB_SetStabMinAccel''),
      (2106, ''STB_GetStabMinAccel''), (3332, ''STB_SetSpdKp''), (3336, ''STB_GetSpdKp''),
      (3333, ''STB_SetSpdKi''), (3337, ''STB_GetSpdKi''), (3334, ''STB_SetSpdKd''),
      (3338, ''STB_GetSpdKd''), (3350, ''STB_SetPosKp''), (3351, ''STB_GetPosKp''),
      (3352, ''STB_SetPosKi''), (3353, ''STB_GetPosKi''), (3354, ''STB_SetPosKd''),
      (3355, ''STB_GetPosKd''), (2091, ''STB_SetDistanceToTarget''),
      (2090, ''STB_GetDistanceToTarget''), (2085, ''STB_SetCentralAxes''),
      (2086, ''STB_GetCentralAxes''), (3190, ''STB_SetRollCompensation''),
      (3191, ''STB_GetRollCompensation''), (2127, ''STB_SetRebalanceOn''),
      (2128, ''STB_GetRebalanceOn''), (2129, ''STB_GetRebalanceStatus''),
      (3335, ''STB_SaveStabilizationCfg''), (3595, ''ERR_CaptureMotorErrorRegister''),
      (3585, ''ERR_CaptureSystemRegister''), (3586, ''ERR_ClearErrors''),
      (3587, ''ERR_GetDriverErrorString''), (3588, ''ERR_GetSystemErrorString''),
      (3589, ''ERR_GetLoadImuErrorString''), (3590, ''ERR_GetBaseImuErrorString''),
      (3591, ''ERR_GetGpsComErrorString''), (3592, ''ERR_GetGpsPosString''),
      (3593, ''ERR_GetGpsHeadErrorString''), (3594, ''ERR_GetProtocolErrorString''),
      (3597, ''ERR_GetAbsEncComErrorString''), (3598, ''ERR_GetAbsEncCRCErrorString''),
      (3599, ''ERR_GetBodyImuErrorString''), (3600, ''ERR_GetHomingErrorString''),
      (3602, ''ERR_OperationRegister''), (4000, ''DG_SetSyncMode''), (4001, ''DG_SetInnerMode''),
      (4002, ''DG_IsSyncMode''), (4003, ''DG_IsInnerMode''), (4005, ''DG_GetPosDiff''),
      (4006, ''DG_SetMaxDiff''), (4007, ''DG_GetMaxDiff''), (4009, ''DG_GoToCamera''),
      (4010, ''DG_SetSyncSpd''), (4011, ''DG_SetMainGimbal''), (4012, ''DG_GetMainGimbal''),
      (4016, ''DG_CTC''), (4017, ''DG_GetCTCoffset''), (4018, ''DG_ResetCTCoffset''),
      (4021, ''DG_GetSyncSpd''), (4022, ''DG_SetActiveWeapon''), (4023, ''DG_GetActiveWeapon''),
      (4025, ''DG_IsBoresightEn''), (4026, ''DG_SetActiveCamera''), (4027, ''DG_GetActiveCamera''),
      (4028, ''DG_GetBoresightOffset''), (4029, ''DG_SetBallisticOffset''),
      (4030, ''DG_GetBallisticOffset''), (4031, ''DG_GetSafetyStatus''),
      (4032, ''DG_GetLoadStatus''), (4033, ''DG_GetCapsnapIOStatus''),
      (4034, ''DG_GetNumBullets''), (4035, ''DG_ResetNumBullets''), (4036, ''DG_IsCapSnapReady'')]"

text \<open>\<open>NAME_TO_OPCODE[name]\<close>: the reverse dictionary, in which a later entry replaces an earlier one.\<close>

definition NAME_TO_OPCODE :: "string \<Rightarrow> nat option" where
  "NAME_TO_OPCODE name = map_of (rev (map (\<lambda>(opcode, n). (n, opcode)) OPCODES)) name"

section \<open>Building\<close>

definition START_BYTE_1 :: int where "START_BYTE_1 = 0x50"
definition START_BYTE_2 :: int where "START_BYTE_2 = 0x54"
definition ACK_REPLY :: "byte list" where "ACK_REPLY = [6]"

definition calculate_checksum :: "int list \<Rightarrow> int" where
  "calculate_checksum packet_body = sum_list packet_body mod 256"

definition is_byte :: "int \<Rightarrow> bool" where
  "is_byte x \<longleftrightarrow> 0 \<le> x \<and> x < 256"

text \<open>\<open>bytearray(xs)\<close>.\<close>

definition bytearray :: "int list \<Rightarrow> byte list option" where
  "bytearray xs = (if list_all is_byte xs then Some (map of_int xs) else None)"

definition packet_body :: "int \<Rightarrow> int \<Rightarrow> int \<Rightarrow> int list \<Rightarrow> int list" where
  "packet_body group_id axis_id opcode data =
     [1 + 1 + 2 + int (length data), group_id, axis_id, (opcode div 256) mod 256, opcode mod 256] @ data"

definition build_packet :: "int \<Rightarrow> int \<Rightarrow> int \<Rightarrow> int list \<Rightarrow> byte list option" where
  "build_packet group_id axis_id opcode data =
     (let body = packet_body group_id axis_id opcode data
      in bytearray ([START_BYTE_1, START_BYTE_2] @ body @ [calculate_checksum body]))"

definition build_reply_packet :: "int \<Rightarrow> int \<Rightarrow> int \<Rightarrow> int list \<Rightarrow> byte list option" where
  "build_reply_packet group_id axis_id opcode data = build_packet group_id axis_id opcode data"

section \<open>Parsing\<close>

text \<open>\<open>buffer[buffer.find(start):]\<close>; \<open>None\<close> where \<open>find\<close> answers -1.\<close>

fun from_start :: "byte list \<Rightarrow> byte list option" where
  "from_start (a # b # bs) = (if a = 0x50 \<and> b = 0x54 then Some (a # b # bs) else from_start (b # bs))"
| "from_start _ = None"

definition parse_packet :: "byte list \<Rightarrow> byte list option \<times> byte list" where
  "parse_packet buffer =
     (case from_start buffer of
        None \<Rightarrow> (None, [])
      | Some buf \<Rightarrow>
          if length buf < 8 then (None, buf)
          else
            let total_packet_len = 4 + unat (buf ! 2) in
            if length buf < total_packet_len then (None, buf)
            else
              let packet = take total_packet_len buf;
                  remaining = drop total_packet_len buf;
                  body = butlast (drop 2 packet)
              in if calculate_checksum (map uint body) \<noteq> uint (last packet) then (None, remaining)
                 else (Some packet, remaining))"

text \<open>The inner loop of \<open>handle_client\<close>: packets until \<open>parse_packet\<close> gives none.\<close>

lemma from_start_length: "from_start bs = Some buf \<Longrightarrow> length buf \<le> length bs \<and> 2 \<le> length buf"
  by (induction bs rule: from_start.induct) (auto split: if_splits)

lemma parse_packet_shorter:
  "parse_packet buffer = (Some p, rest) \<Longrightarrow> length rest < length buffer"
  by (auto simp: parse_packet_def Let_def split: option.splits if_splits dest!: from_start_length)

function packets_of :: "byte list \<Rightarrow> byte list list \<times> byte list" where
  "packets_of buffer =
     (case parse_packet buffer of
        (None, rest) \<Rightarrow> ([], rest)
      | (Some p, rest) \<Rightarrow> (let (ps, left_over) = packets_of rest in (p # ps, left_over)))"
  by pat_completeness auto
termination
  by (relation "measure length") (auto dest: parse_packet_shorter [OF sym])

declare packets_of.simps [simp del]

text \<open>The buffer of a connection over the chunks \<open>recv\<close> hands it.\<close>

fun receive_chunks :: "byte list \<Rightarrow> byte list list \<Rightarrow> byte list list \<times> byte list" where
  "receive_chunks buffer [] = ([], buffer)"
| "receive_chunks buffer (chunk # chunks) =
     (let (ps, rest) = packets_of (buffer @ chunk); (qs, left_over) = receive_chunks rest chunks
      in (ps @ qs, left_over))"

section \<open>A built packet is parsed back\<close>

lemma is_byte_uint: "is_byte x \<Longrightarrow> uint (of_int x :: byte) = x"
  by (simp add: is_byte_def uint_word_of_int_eq)  (simp add: take_bit_eq_mod)

lemma byte_checksum [simp]: "is_byte (calculate_checksum xs)"
  by (simp add: calculate_checksum_def is_byte_def)

lemma map_uint_bytes: "list_all is_byte xs \<Longrightarrow> map uint (map (of_int :: int \<Rightarrow> byte) xs) = xs"
  by (induction xs) (simp_all add: is_byte_uint)

lemma build_packet_Some:
  "build_packet g a opcode data = Some p \<longleftrightarrow>
     is_byte g \<and> is_byte a \<and> list_all is_byte data \<and> length data \<le> 251
     \<and> p = map of_int ([START_BYTE_1, START_BYTE_2] @ packet_body g a opcode data
                        @ [calculate_checksum (packet_body g a opcode data)])"
  by (auto simp: build_packet_def bytearray_def packet_body_def Let_def START_BYTE_1_def START_BYTE_2_def)
     (auto simp: is_byte_def)

lemma build_packet_length: "build_packet g a opcode data = Some p \<Longrightarrow> length p = 8 + length data"
  by (auto simp: build_packet_Some packet_body_def)

lemma build_packet_head:
  assumes "build_packet g a opcode data = Some p"
  shows "\<exists>q. p = 0x50 # 0x54 # of_int (4 + int (length data)) # q"
  using assms by (auto simp: build_packet_Some packet_body_def START_BYTE_1_def START_BYTE_2_def)

lemma parse_built:
  assumes p: "build_packet g a opcode data = Some p"
  shows "parse_packet (p @ rest) = (Some p, rest)"
proof -
  let ?body = "packet_body g a opcode data"
  have b: "is_byte g" "is_byte a" "list_all is_byte data" "length data \<le> 251"
    and p_eq: "p = map of_int ([START_BYTE_1, START_BYTE_2] @ ?body @ [calculate_checksum ?body])"
    using p by (simp_all add: build_packet_Some)
  have len: "length p = 8 + length data" by (rule build_packet_length [OF p])
  have start: "from_start (p @ rest) = Some (p @ rest)" using build_packet_head [OF p] by auto
  have "is_byte (4 + int (length data))" using b(4) by (simp add: is_byte_def)
  then have u: "uint (of_int (4 + int (length data)) :: byte) = 4 + int (length data)" by (rule is_byte_uint)
  have "p ! 2 = of_int (4 + int (length data))"
    using build_packet_head [OF p] by (elim exE) (simp only: nth_Cons_0 nth_Cons_Suc numeral_2_eq_2)
  then have "unat (p ! 2) = 4 + length data" by (simp only: unat_eq_nat_uint u)
  then have total: "4 + unat ((p @ rest) ! 2) = length p" using len by (simp add: nth_append)
  have "list_all is_byte ?body"
    using b by (simp add: packet_body_def is_byte_def)
  then have "map uint (butlast (drop 2 p)) = ?body" "uint (last p) = calculate_checksum ?body"
    by (simp_all add: p_eq butlast_append is_byte_uint map_uint_bytes del: map_map)
  then show ?thesis
    using len start total by (simp add: parse_packet_def Let_def)
qed

text \<open>What a receiver reads of it.\<close>

lemma built_fields:
  assumes "build_packet g a opcode data = Some p"
  shows "uint (p ! 3) = g" "uint (p ! 4) = a" "uint (p ! 5) * 256 + uint (p ! 6) = opcode mod 65536"
    "map uint (butlast (drop 7 p)) = data"
proof -
  have b: "is_byte g" "is_byte a" "list_all is_byte data"
    and p: "p = map of_int ([START_BYTE_1, START_BYTE_2] @ packet_body g a opcode data
      @ [calculate_checksum (packet_body g a opcode data)])"
    using assms by (simp_all add: build_packet_Some)
  have h: "is_byte (opcode div 256 mod 256)" "is_byte (opcode mod 256)" by (simp_all add: is_byte_def)
  have five: "(5 :: nat) = Suc (Suc (Suc (Suc (Suc 0))))" "(6 :: nat) = Suc (Suc (Suc (Suc (Suc (Suc 0)))))"
    "(3 :: nat) = Suc (Suc (Suc 0))" "(4 :: nat) = Suc (Suc (Suc (Suc 0)))" by simp_all
  show "uint (p ! 3) = g" "uint (p ! 4) = a"
    unfolding p packet_body_def five using b by (simp_all add: is_byte_uint)
  have "uint (p ! 5) = opcode div 256 mod 256" "uint (p ! 6) = opcode mod 256"
    unfolding p packet_body_def five using h by (simp_all add: is_byte_uint)
  moreover have "opcode div 256 mod 256 * 256 + opcode mod 256 = opcode mod 65536"
    using zmod_zmult2_eq [of 256 opcode 256] by simp
  ultimately show "uint (p ! 5) * 256 + uint (p ! 6) = opcode mod 65536" by simp
  have "drop 7 p = map of_int (data @ [calculate_checksum (packet_body g a opcode data)])"
    by (simp add: p packet_body_def)
  then show "map uint (butlast (drop 7 p)) = data"
    using map_uint_bytes [OF b(3)] by (simp add: butlast_append del: map_map)
qed

section \<open>The stream of a connection\<close>

definition is_built :: "byte list \<Rightarrow> bool" where
  "is_built p \<longleftrightarrow> (\<exists>g a opcode data. build_packet g a opcode data = Some p)"

lemma built_nonempty: "is_built p \<Longrightarrow> p \<noteq> []"
  by (auto simp: is_built_def dest: build_packet_length)

lemma parse_partial:
  assumes "is_built p" "strict_prefix q p" "length q \<noteq> 1"
  shows "parse_packet q = (None, q)"
proof (cases "q = []")
  case True
  then show ?thesis by (simp add: parse_packet_def)
next
  case False
  obtain g a opcode data where p: "build_packet g a opcode data = Some p"
    using assms(1) by (auto simp: is_built_def)
  obtain r where r: "p = q @ r" "r \<noteq> []" using assms(2) by (auto elim: strict_prefixE')
  have start: "from_start q = Some q"
    using False assms(3) build_packet_head [OF p] r by (cases q rule: from_start.cases) auto
  show ?thesis
  proof (cases "length q < 8")
    case True
    then show ?thesis using start by (simp add: parse_packet_def)
  next
    case False
    have "4 + unat ((p @ []) ! 2) = length p"
    proof -
      have "is_byte (4 + int (length data))" using p by (auto simp: build_packet_Some is_byte_def)
      then have u: "uint (of_int (4 + int (length data)) :: byte) = 4 + int (length data)" by (rule is_byte_uint)
      have "p ! 2 = of_int (4 + int (length data))"
        using build_packet_head [OF p] by (elim exE) (simp only: nth_Cons_0 nth_Cons_Suc numeral_2_eq_2)
      then have "unat (p ! 2) = 4 + length data" by (simp only: unat_eq_nat_uint u)
      then show ?thesis using build_packet_length [OF p] by simp
    qed
    moreover have "(p @ []) ! 2 = q ! 2" using False r by (simp add: nth_append)
    ultimately have "length q < 4 + unat (q ! 2)" using r by simp
    then show ?thesis using start False by (simp add: parse_packet_def Let_def)
  qed
qed

lemma packets_of_stream:
  assumes "list_all is_built ps" and "parse_packet q = (None, q)"
  shows "packets_of (concat ps @ q) = (ps, q)"
  using assms(1)
proof (induction ps)
  case Nil
  then show ?case using assms(2) by (subst packets_of.simps) simp
next
  case (Cons p ps)
  then obtain g a opcode data where "build_packet g a opcode data = Some p" by (auto simp: is_built_def)
  from parse_built [OF this] show ?case
    using Cons by (subst packets_of.simps) simp
qed

text \<open>A prefix of a stream of packets: whole packets, then the beginning of one.\<close>

lemma split_stream:
  assumes "list_all is_built ps" "prefix x (concat ps)"
  shows "\<exists>done_ps to_do q. ps = done_ps @ to_do \<and> x = concat done_ps @ q
    \<and> (q = [] \<or> (\<exists>p later. to_do = p # later \<and> strict_prefix q p))"
  using assms
proof (induction ps arbitrary: x)
  case Nil
  then show ?case by simp
next
  case (Cons p ps)
  show ?case
  proof (cases "prefix p x")
    case True
    then obtain y where y: "x = p @ y" by (auto elim: prefixE)
    with Cons.prems have "prefix y (concat ps)" "list_all is_built ps" by simp_all
    from Cons.IH [OF this(2,1)] obtain done_ps to_do q where
      "ps = done_ps @ to_do" "y = concat done_ps @ q" "q = [] \<or> (\<exists>p later. to_do = p # later \<and> strict_prefix q p)"
      by (elim exE conjE)
    then show ?thesis using y by (intro exI [of _ "p # done_ps"] exI [of _ to_do] exI [of _ q]) simp
  next
    case False
    have "prefix x (p @ concat ps)" using Cons.prems(2) by simp
    then have "prefix x p \<or> prefix p x" by (rule prefix_same_cases) simp
    with False have "strict_prefix x p" by (auto simp: strict_prefix_def)
    then show ?thesis by (intro exI [of _ "[]"] exI [of _ "p # ps"] exI [of _ x]) simp
  qed
qed

text \<open>No chunk ends between the two start bytes of a packet.\<close>

definition starts_whole :: "nat \<Rightarrow> byte list list \<Rightarrow> byte list list \<Rightarrow> bool" where
  "starts_whole buffered chunks ps \<longleftrightarrow>
     (\<forall>k\<le>length chunks. \<forall>j<length ps.
        buffered + length (concat (take k chunks)) \<noteq> length (concat (take j ps)) + 1)"

lemma starts_whole_code:
  "starts_whole buffered chunks ps \<longleftrightarrow>
     list_all (\<lambda>k. list_all (\<lambda>j. buffered + length (concat (take k chunks)) \<noteq> length (concat (take j ps)) + 1)
       [0..<length ps]) [0..<Suc (length chunks)]"
  unfolding starts_whole_def list_all_iff set_upt Ball_def atLeastLessThan_iff less_Suc_eq_le by blast

lemma receive_stream:
  assumes "list_all is_built ps" "q @ concat chunks = concat ps" "starts_whole (length q) chunks ps"
    "q = [] \<or> (\<exists>p later. ps = p # later \<and> strict_prefix q p)"
  shows "receive_chunks q chunks = (ps, [])"
  using assms
proof (induction chunks arbitrary: q ps)
  case Nil
  have "ps = []"
  proof (cases ps)
    case (Cons p later)
    then have q: "q = p @ concat later" "p \<noteq> []" using Nil.prems(1,2) built_nonempty by auto
    then have "\<not> strict_prefix q p" using prefix_length_less by fastforce
    with q Cons show ?thesis using Nil.prems(4) by simp
  qed simp
  then show ?case using Nil.prems(2) by simp
next
  case (Cons chunk chunks)
  have "prefix (q @ chunk) (concat ps)"
    using Cons.prems(2) by (metis append_assoc concat.simps(2) prefixI)
  from split_stream [OF Cons.prems(1) this] obtain done_ps to_do q' where
    ps: "ps = done_ps @ to_do" and x: "q @ chunk = concat done_ps @ q'"
    and q': "q' = [] \<or> (\<exists>p later. to_do = p # later \<and> strict_prefix q' p)"
    by (elim exE conjE)
  have built: "list_all is_built done_ps" "list_all is_built to_do" using Cons.prems(1) ps by simp_all
  have lens: "length q + length chunk = length (concat done_ps) + length q'"
    using arg_cong [OF x, of length] by simp
  have "length q' \<noteq> 1"
  proof
    assume one: "length q' = 1"
    then obtain p later where "to_do = p # later" using q' by auto
    then have "length done_ps < length ps" "take (length done_ps) ps = done_ps" using ps by simp_all
    then have d: "length done_ps < length ps" and t: "take (length done_ps) ps = done_ps" by blast+
    have "length q + length (concat (take 1 (chunk # chunks))) \<noteq> length (concat (take (length done_ps) ps)) + 1"
      by (rule Cons.prems(3) [unfolded starts_whole_def, rule_format, OF _ d]) simp
    then show False unfolding t using lens one by simp
  qed
  then have "parse_packet q' = (None, q')"
    using q' built(2) parse_partial [of _ q'] by (auto simp: parse_packet_def)
  from packets_of_stream [OF built(1) this] have here: "packets_of (q @ chunk) = (done_ps, q')"
    using x by simp
  have "q' @ concat chunks = concat to_do"
  proof -
    have "(q @ chunk) @ concat chunks = concat ps" using Cons.prems(2) by simp
    then show ?thesis by (simp add: x ps)
  qed
  moreover have "starts_whole (length q') chunks to_do"
    unfolding starts_whole_def
  proof (intro allI impI)
    fix k j assume k: "k \<le> length chunks" and j: "j < length to_do"
    have "length q + length (concat (take (Suc k) (chunk # chunks)))
        \<noteq> length (concat (take (length done_ps + j) ps)) + 1"
      by (rule Cons.prems(3) [unfolded starts_whole_def, rule_format]) (use k j ps in simp_all)
    then show "length q' + length (concat (take k chunks)) \<noteq> length (concat (take j to_do)) + 1"
      using lens ps by simp
  qed
  ultimately have "receive_chunks q' chunks = (to_do, [])"
    by (intro Cons.IH built(2)) (use q' in simp_all)
  then show ?case using here ps by simp
qed


section \<open>Properties\<close>

text \<open>
  C36. Building a packet is refused exactly when the group, the axis or a data byte is outside 0..255 or
  there are more than 251 data bytes, whatever the opcode. A packet that is built is parsed back whole
  from the front of any buffer, with everything behind it left over, and carries the group, the axis,
  the opcode's low sixteen bits and the data where the receiver reads them.
\<close>

theorem packet_round_trip:
  "case build_packet g a opcode data of
     None \<Rightarrow> \<not> ({g, a} \<union> set data \<subseteq> {0..255} \<and> length data \<le> 251)
   | Some p \<Rightarrow> {g, a} \<union> set data \<subseteq> {0..255} \<and> length data \<le> 251
       \<and> parse_packet (p @ rest) = (Some p, rest)
       \<and> uint (p ! 3) = g \<and> uint (p ! 4) = a \<and> uint (p ! 5) * 256 + uint (p ! 6) = opcode mod 65536
       \<and> map uint (butlast (drop 7 p)) = data"
proof -
  have bytes: "is_byte g \<and> is_byte a \<and> list_all is_byte data \<longleftrightarrow> {g, a} \<union> set data \<subseteq> {0..255}"
    by (auto simp: is_byte_def list_all_iff)
  show ?thesis
  proof (cases "build_packet g a opcode data")
    case None
    then have "\<not> (is_byte g \<and> is_byte a \<and> list_all is_byte data \<and> length data \<le> 251)"
      using build_packet_Some [of g a opcode data] by force
    then show ?thesis unfolding None option.case bytes [symmetric] by blast
  next
    case (Some p)
    then have "is_byte g \<and> is_byte a \<and> list_all is_byte data \<and> length data \<le> 251"
      by (simp add: build_packet_Some)
    then show ?thesis
      unfolding Some option.case bytes [symmetric] using built_fields [OF Some] parse_built [OF Some] by blast
  qed
qed

text \<open>
  Packets sent one after the other are handed to the handler one by one, whole and in order,
  however the connection cuts the stream into chunks, as long as no chunk ends between the two start
  bytes of a packet.
\<close>

theorem packets_survive_chunking:
  assumes "list_all is_built ps" "concat chunks = concat ps" "starts_whole 0 chunks ps"
  shows "receive_chunks [] chunks = (ps, [])"
  using receive_stream [OF assms(1), of "[]" chunks] assms(2,3) by simp

definition connect_packet :: "byte list" where
  "connect_packet = [0x50, 0x54, 4, 0, 0, 7, 2, 13]"

lemma connect_packet_built: "build_packet 0 0 0x0702 [] = Some connect_packet"
  by (simp add: build_packet_Some packet_body_def calculate_checksum_def is_byte_def connect_packet_def
      START_BYTE_1_def START_BYTE_2_def)

theorem packets_survive_chunking_witness:
  "receive_chunks [] [[0x50, 0x54, 4], [0, 0, 7, 2, 13, 0x50, 0x54], [4, 0, 0, 7, 2, 13]]
    = ([connect_packet, connect_packet], [])"
proof (rule packets_survive_chunking)
  show "list_all is_built [connect_packet, connect_packet]"
    using connect_packet_built by (auto simp: is_built_def)
  show "starts_whole 0 [[0x50, 0x54, 4], [0, 0, 7, 2, 13, 0x50, 0x54], [4, 0, 0, 7, 2, 13]]
      [connect_packet, connect_packet]"
    by (simp add: starts_whole_code connect_packet_def upt_rec)
qed (simp add: connect_packet_def)

text \<open>
  A chunk that ends between the start bytes loses the packet: the buffer's lone first start byte is
  dropped. And a packet whose checksum fails holds up the ones behind it until more bytes arrive.
\<close>

lemma split_start_loses_packet: "receive_chunks [] [take 1 connect_packet, drop 1 connect_packet] = ([], [])"
  by (simp add: connect_packet_def packets_of.simps parse_packet_def)

lemma bad_checksum_holds_up:
  "receive_chunks [] [[0x50, 0x54, 4, 0, 0, 7, 2, 99] @ connect_packet] = ([], connect_packet)"
  by (simp add: connect_packet_def packets_of.simps parse_packet_def calculate_checksum_def)

end
