(* ===== verification/Motion_Simulator.thy ===== *)
theory Motion_Simulator
  imports Motion_Protocol Py_Float
begin

text \<open>
  \<open>MotionSimulator/motion_simulator.py\<close>: the simulated axes and the TCP handler that answers the
  controller's packets. Positions and speeds are Python's floats, infinities and NaN among them, as a
  client may send any four bytes. The 32-bit float codec of \<open>struct\<close> is a parameter: \<open>pack_f\<close> fails on
  what it cannot hold, \<open>unpack_f\<close> on data that is not four bytes. What \<open>random.uniform\<close> draws is an
  argument. What is printed is not modelled.
\<close>

section \<open>One axis\<close>

record axis =
  ax_id :: int
  ax_position :: py_float
  ax_speed :: py_float
  ax_target :: py_float
  ax_max_speed :: py_float
  ax_acceleration :: py_float
  ax_on :: bool
  ax_faulted :: bool
  ax_complete :: bool
  ax_offset :: py_float

definition SIM_UPDATE_INTERVAL :: py_float where "SIM_UPDATE_INTERVAL = Finite (1 / 100)"

definition new_axis :: "int \<Rightarrow> axis" where
  "new_axis aid =
     \<lparr>ax_id = aid, ax_position = 0, ax_speed = 0, ax_target = 0, ax_max_speed = Finite 10, ax_acceleration = Finite 20,
      ax_on = False, ax_faulted = False, ax_complete = True, ax_offset = 0\<rparr>"

definition update_axis :: "axis \<Rightarrow> axis" where
  "update_axis a =
     (if \<not> ax_on a \<or> ax_faulted a then a\<lparr>ax_speed := 0, ax_complete := True\<rparr>
      else
        let delta = ax_target a - ax_position a in
        if \<bar>delta\<bar> < Finite (1 / 100)
        then a\<lparr>ax_speed := 0, ax_position := ax_target a, ax_complete := True\<rparr>
        else
          let move_step = ax_max_speed a * SIM_UPDATE_INTERVAL in
          if 0 < delta
          then a\<lparr>ax_complete := False, ax_position := ax_position a + py_min move_step delta,
                 ax_speed := ax_max_speed a\<rparr>
          else a\<lparr>ax_complete := False, ax_position := ax_position a + py_max (- move_step) delta,
                 ax_speed := - ax_max_speed a\<rparr>)"

definition set_target_abs :: "py_float \<Rightarrow> axis \<Rightarrow> axis" where
  "set_target_abs pos a = a\<lparr>ax_target := pos, ax_complete := False\<rparr>"

definition set_target_rel :: "py_float \<Rightarrow> axis \<Rightarrow> axis" where
  "set_target_rel rel a = a\<lparr>ax_target := ax_target a + rel, ax_complete := False\<rparr>"

definition set_speed :: "py_float \<Rightarrow> axis \<Rightarrow> axis" where
  "set_speed speed a = a\<lparr>ax_max_speed := \<bar>speed\<bar>\<rparr>"

definition set_accel :: "py_float \<Rightarrow> axis \<Rightarrow> axis" where
  "set_accel accel a = a\<lparr>ax_acceleration := \<bar>accel\<bar>\<rparr>"

definition set_axis_on :: "axis \<Rightarrow> axis" where
  "set_axis_on a = a\<lparr>ax_on := True, ax_faulted := False\<rparr>"

definition set_axis_off :: "axis \<Rightarrow> axis" where
  "set_axis_off a = a\<lparr>ax_on := False, ax_speed := 0\<rparr>"

definition set_axis_reset :: "axis \<Rightarrow> axis" where
  "set_axis_reset a = a\<lparr>ax_faulted := False\<rparr>"

definition set_ballistic_offset :: "py_float \<Rightarrow> axis \<Rightarrow> axis" where
  "set_ballistic_offset offset a = a\<lparr>ax_offset := offset\<rparr>"

text \<open>\<open>noise\<close> is what \<open>random.uniform\<close> draws, within 0.2 V and 0.5 A.\<close>

definition get_voltage :: "real \<Rightarrow> axis \<Rightarrow> real" where
  "get_voltage noise a = 24 + noise"

definition get_current :: "real \<Rightarrow> axis \<Rightarrow> real" where
  "get_current noise a = max 0 (if Finite (1 / 100) < \<bar>ax_speed a\<bar> then 1 + noise + 1 / 2 else 1 + noise)"

unbundle bit_operations_syntax

definition get_error_register :: "real \<Rightarrow> axis \<Rightarrow> 16 word" where
  "get_error_register noise a =
     (if ax_faulted a then 0x0001 else 0)
     OR (if ax_on a then 0x0002 else 0)
     OR (if ax_complete a then 0x0004 else 0)
     OR (if get_current noise a > 2 then 0x0080 else 0)
     OR (if ax_id a = 5 then 0x8000 else 0)"

section \<open>The simulator\<close>

record motion_sim =
  sim_axes :: "(int \<times> axis) list"
  sim_lrf_range :: py_float
  sim_sync_mode :: bool
  sim_inner_mode :: bool

definition SIMULATED_AXES :: "int list" where "SIMULATED_AXES = [1, 2, 4, 5]"

definition new_sim :: motion_sim where
  "new_sim =
     \<lparr>sim_axes = map (\<lambda>i. (i, set_axis_off (new_axis i))) SIMULATED_AXES,
      sim_lrf_range = 0, sim_sync_mode = False, sim_inner_mode = False\<rparr>"

text \<open>\<open>simulation_loop\<close>: one round over every axis.\<close>

definition simulation_tick :: "motion_sim \<Rightarrow> motion_sim" where
  "simulation_tick m = m\<lparr>sim_axes := map (\<lambda>(i, a). (i, update_axis a)) (sim_axes m)\<rparr>"

definition change_axis :: "int \<Rightarrow> (axis \<Rightarrow> axis) \<Rightarrow> motion_sim \<Rightarrow> motion_sim" where
  "change_axis i f m = m\<lparr>sim_axes := map (\<lambda>(j, a). (j, if j = i then f a else a)) (sim_axes m)\<rparr>"

section \<open>One packet\<close>

record float_codec =
  pack_f :: "py_float \<Rightarrow> byte list option"
  unpack_f :: "byte list \<Rightarrow> py_float option"

definition opcode_named :: "string \<Rightarrow> int" where
  "opcode_named name = (case NAME_TO_OPCODE name of None \<Rightarrow> - 1 | Some opcode \<Rightarrow> int opcode)"

text \<open>\<open>struct.unpack(">H", _)\<close> and \<open>struct.pack(">H", _)\<close>.\<close>

fun unpack_H :: "byte list \<Rightarrow> int option" where
  "unpack_H [h, l] = Some (uint h * 256 + uint l)"
| "unpack_H _ = None"

definition pack_H :: "16 word \<Rightarrow> int list" where
  "pack_H w = [uint w div 256, uint w mod 256]"

text \<open>
  Every branch sends one reply: a packet, or \<open>ACK_REPLY\<close>, which is also what the exception handler
  sends when packing, unpacking or building failed (the state is then as it was).
\<close>

definition reply_data :: "int \<Rightarrow> int \<Rightarrow> int list \<Rightarrow> byte list" where
  "reply_data axis_id opcode data =
     (case build_reply_packet 0 axis_id opcode data of None \<Rightarrow> ACK_REPLY | Some p \<Rightarrow> p)"

definition reply_float :: "float_codec \<Rightarrow> int \<Rightarrow> int \<Rightarrow> py_float \<Rightarrow> byte list" where
  "reply_float codec axis_id opcode x =
     (case pack_f codec x of None \<Rightarrow> ACK_REPLY | Some bs \<Rightarrow> reply_data axis_id opcode (map uint bs))"

definition with_float :: "float_codec \<Rightarrow> byte list \<Rightarrow> (py_float \<Rightarrow> motion_sim) \<Rightarrow> motion_sim \<Rightarrow> byte list \<times> motion_sim" where
  "with_float codec data f m = (ACK_REPLY, case unpack_f codec data of None \<Rightarrow> m | Some x \<Rightarrow> f x)"

definition system_command :: "float_codec \<Rightarrow> int \<Rightarrow> byte list \<Rightarrow> motion_sim \<Rightarrow> byte list \<times> motion_sim" where
  "system_command codec opcode data m =
     (if opcode = opcode_named ''COM_Connect'' then (ACK_REPLY, m)
      else if opcode = opcode_named ''LRF_GetRange''
      then (reply_float codec 0 opcode (sim_lrf_range m), m)
      else if opcode = opcode_named ''LRF_SetRange''
      then with_float codec data (\<lambda>x. m\<lparr>sim_lrf_range := x\<rparr>) m
      else if opcode = opcode_named ''DG_SetSyncMode''
      then (ACK_REPLY, case unpack_H data of
              None \<Rightarrow> m | Some v \<Rightarrow> m\<lparr>sim_sync_mode := v \<noteq> 0, sim_inner_mode := False\<rparr>)
      else if opcode = opcode_named ''DG_SetInnerMode''
      then (ACK_REPLY, case unpack_H data of None \<Rightarrow> m | Some v \<Rightarrow> m\<lparr>sim_inner_mode := v \<noteq> 0\<rparr>)
      else (ACK_REPLY, m))"

definition axis_command ::
    "float_codec \<Rightarrow> real \<Rightarrow> int \<Rightarrow> axis \<Rightarrow> int \<Rightarrow> byte list \<Rightarrow> motion_sim \<Rightarrow> byte list \<times> motion_sim" where
  "axis_command codec noise axis_id a opcode data m =
     (if opcode = opcode_named ''MOT_GetLoadPosition''
      then (reply_float codec axis_id opcode (ax_position a), m)
      else if opcode = opcode_named ''MOT_GetMotorSpeed''
      then (reply_float codec axis_id opcode (ax_speed a), m)
      else if opcode = opcode_named ''MOT_GetMotorVoltage''
      then (reply_float codec axis_id opcode (Finite (get_voltage noise a)), m)
      else if opcode = opcode_named ''MOT_GetMotorCurrent''
      then (reply_float codec axis_id opcode (Finite (get_current noise a)), m)
      else if opcode = opcode_named ''ERR_CaptureMotorErrorRegister''
      then (reply_data axis_id opcode (pack_H (get_error_register noise a)), m)
      else if opcode = opcode_named ''DG_GetBallisticOffset''
      then (reply_float codec axis_id opcode (ax_offset a), m)
      else if opcode = opcode_named ''MOT_SetPositionAbsolute''
      then with_float codec data (\<lambda>x. change_axis axis_id (set_target_abs x) m) m
      else if opcode = opcode_named ''MOT_SetPositionRelative''
      then with_float codec data (\<lambda>x. change_axis axis_id (set_target_rel x) m) m
      else if opcode = opcode_named ''MOT_SetSpeed''
      then with_float codec data (\<lambda>x. change_axis axis_id (set_speed x) m) m
      else if opcode = opcode_named ''MOT_SetAcceleration''
      then with_float codec data (\<lambda>x. change_axis axis_id (set_accel x) m) m
      else if opcode = opcode_named ''MOT_AxisOn'' then (ACK_REPLY, change_axis axis_id set_axis_on m)
      else if opcode = opcode_named ''MOT_AxisOff'' then (ACK_REPLY, change_axis axis_id set_axis_off m)
      else if opcode = opcode_named ''MOT_AxisReset'' then (ACK_REPLY, change_axis axis_id set_axis_reset m)
      else if opcode = opcode_named ''DG_SetBallisticOffset''
      then (if axis_id \<in> {1, 2}
            then with_float codec data (\<lambda>x. change_axis axis_id (set_ballistic_offset x) m) m
            else (ACK_REPLY, m))
      else (ACK_REPLY, m))"

text \<open>
  \<open>None\<close> is the \<open>IndexError\<close> of a packet too short to carry an axis and an opcode: it is raised
  before the inner \<open>try\<close>, so it ends the connection.
\<close>

definition handle_packet ::
    "float_codec \<Rightarrow> real \<Rightarrow> byte list \<Rightarrow> motion_sim \<Rightarrow> (byte list \<times> motion_sim) option" where
  "handle_packet codec noise packet m =
     (if length packet < 7 then None
      else
        let axis_id = uint (packet ! 4);
            opcode = uint (packet ! 5) * 256 + uint (packet ! 6);
            data = butlast (drop 7 packet)
        in Some (if axis_id = 0 then system_command codec opcode data m
                 else case map_of (sim_axes m) axis_id of
                        None \<Rightarrow> (ACK_REPLY, m)
                      | Some a \<Rightarrow> axis_command codec noise axis_id a opcode data m))"

section \<open>A connection\<close>

text \<open>
  The packets of one chunk, each with the noise drawn while it is handled and after as many rounds of
  the simulation as came between: the replies sent, the state, and whether the connection goes on.
\<close>

fun handle_packets ::
    "float_codec \<Rightarrow> (nat \<Rightarrow> real) \<Rightarrow> (nat \<Rightarrow> nat) \<Rightarrow> nat \<Rightarrow> byte list list \<Rightarrow> motion_sim
       \<Rightarrow> byte list list \<times> motion_sim \<times> bool" where
  "handle_packets codec noise ticks n [] m = ([], m, True)"
| "handle_packets codec noise ticks n (p # ps) m =
     (case handle_packet codec (noise n) p ((simulation_tick ^^ ticks n) m) of
        None \<Rightarrow> ([], (simulation_tick ^^ ticks n) m, False)
      | Some (reply, m') \<Rightarrow>
          (let (replies, m'', open') = handle_packets codec noise ticks (n + 1) ps m'
           in (reply # replies, m'', open')))"

definition handle_client ::
    "float_codec \<Rightarrow> (nat \<Rightarrow> real) \<Rightarrow> (nat \<Rightarrow> nat) \<Rightarrow> byte list list \<Rightarrow> motion_sim
       \<Rightarrow> byte list list \<times> motion_sim \<times> bool" where
  "handle_client codec noise ticks chunks m =
     handle_packets codec noise ticks 0 (fst (receive_chunks [] chunks)) m"

section \<open>An axis moves to its target\<close>

text \<open>
  Where position, target and speed limit are finite, a round takes the position \<open>p\<close> a step of at most
  \<open>v / 100\<close> nearer the target \<open>t\<close>.
\<close>

definition placed_at :: "real \<Rightarrow> real \<Rightarrow> real \<Rightarrow> axis \<Rightarrow> bool" where
  "placed_at p t v a \<longleftrightarrow> ax_position a = Finite p \<and> ax_target a = Finite t \<and> ax_max_speed a = Finite v"

definition step_to :: "real \<Rightarrow> real \<Rightarrow> real \<Rightarrow> real" where
  "step_to t v p =
     (if \<bar>t - p\<bar> < 1 / 100 then t else if 0 < t - p then p + min (v / 100) (t - p) else p + max (- (v / 100)) (t - p))"

lemma update_axis_frame [simp]:
  "ax_id (update_axis a) = ax_id a" "ax_target (update_axis a) = ax_target a"
  "ax_max_speed (update_axis a) = ax_max_speed a" "ax_on (update_axis a) = ax_on a"
  "ax_faulted (update_axis a) = ax_faulted a" "ax_offset (update_axis a) = ax_offset a"
  by (simp_all add: update_axis_def Let_def)

lemma updates_frame [simp]:
  "ax_target ((update_axis ^^ n) a) = ax_target a" "ax_max_speed ((update_axis ^^ n) a) = ax_max_speed a"
  "ax_on ((update_axis ^^ n) a) = ax_on a" "ax_faulted ((update_axis ^^ n) a) = ax_faulted a"
  by (induction n) simp_all

lemma update_axis_still: "\<not> ax_on a \<Longrightarrow> ax_position (update_axis a) = ax_position a"
  by (simp add: update_axis_def)

lemma update_axis_placed:
  "placed_at p t v a \<Longrightarrow> ax_on a \<Longrightarrow> \<not> ax_faulted a \<Longrightarrow> placed_at (step_to t v p) t v (update_axis a)"
  by (auto simp: placed_at_def update_axis_def step_to_def Let_def SIM_UPDATE_INTERVAL_def zero_py_float_def)

lemma update_axis_placed_off: "placed_at p t v a \<Longrightarrow> \<not> (ax_on a \<and> \<not> ax_faulted a) \<Longrightarrow> placed_at p t v (update_axis a)"
  by (auto simp: placed_at_def update_axis_def)

lemma updates_placed:
  "placed_at p t v a \<Longrightarrow> ax_on a \<Longrightarrow> \<not> ax_faulted a \<Longrightarrow> placed_at ((step_to t v ^^ n) p) t v ((update_axis ^^ n) a)"
  by (induction n) (simp_all add: update_axis_placed)

lemma step_to_nearer: "0 < v \<Longrightarrow> \<bar>t - step_to t v p\<bar> \<le> max 0 (\<bar>t - p\<bar> - v / 100)"
  by (auto simp: step_to_def)

lemma step_to_side: "0 < v \<Longrightarrow> 0 \<le> t - p \<Longrightarrow> 0 \<le> t - step_to t v p" "0 < v \<Longrightarrow> t - p \<le> 0 \<Longrightarrow> t - step_to t v p \<le> 0"
  by (auto simp: step_to_def)

lemma steps_to_nearer: "0 < v \<Longrightarrow> \<bar>t - (step_to t v ^^ n) p\<bar> \<le> max 0 (\<bar>t - p\<bar> - real n * (v / 100))"
proof (induction n)
  case (Suc n)
  have "\<bar>t - step_to t v ((step_to t v ^^ n) p)\<bar> \<le> max 0 (\<bar>t - (step_to t v ^^ n) p\<bar> - v / 100)"
    using step_to_nearer Suc.prems by blast
  moreover have "real (Suc n) * (v / 100) = real n * (v / 100) + v / 100" by (simp add: distrib_right)
  ultimately show ?case using Suc unfolding funpow.simps comp_apply by linarith
qed simp

lemma steps_to_side:
  assumes "0 < v"
  shows "0 \<le> t - p \<Longrightarrow> 0 \<le> t - (step_to t v ^^ n) p" "t - p \<le> 0 \<Longrightarrow> t - (step_to t v ^^ n) p \<le> 0"
proof (induction n)
  case (Suc n)
  { case 1 with Suc step_to_side(1) [OF assms] show ?case by simp }
  { case 2 with Suc step_to_side(2) [OF assms] show ?case by simp }
qed simp_all

lemma steps_to_no_further: "0 < v \<Longrightarrow> \<bar>t - (step_to t v ^^ n) p\<bar> \<le> \<bar>t - p\<bar>"
proof -
  assume v: "0 < v"
  then have "0 \<le> real n * (v / 100)" by simp
  with steps_to_nearer [OF v, of t n p] show ?thesis by (simp add: max_def split: if_split_asm)
qed

lemma steps_to_arrive: "0 < v \<Longrightarrow> \<bar>t - p\<bar> \<le> real n * (v / 100) \<Longrightarrow> (step_to t v ^^ n) p = t"
  using steps_to_nearer [of v t n p] by simp

lemma update_axis_rests:
  assumes "placed_at t t v a" "ax_on a" "\<not> ax_faulted a"
  shows "ax_speed (update_axis a) = 0" "ax_complete (update_axis a)"
  using assms by (simp_all add: placed_at_def update_axis_def)

text \<open>
  An axis that is on, not faulted and has a speed reaches its target in as many rounds of the
  simulation as the distance holds steps of a hundredth of its speed, never going past it; one round
  later, and from then on, it reports no speed and its motion complete.
\<close>

theorem axis_reaches_target:
  assumes "placed_at p t v a" "ax_on a" "\<not> ax_faulted a" "0 < v" "\<bar>t - p\<bar> \<le> real n * (v / 100)"
  shows "(\<forall>k. \<exists>q. placed_at q t v ((update_axis ^^ k) a) \<and> min p t \<le> q \<and> q \<le> max p t)
       \<and> (\<forall>k\<ge>n. ax_position ((update_axis ^^ k) a) = Finite t)
       \<and> (\<forall>k>n. ax_speed ((update_axis ^^ k) a) = 0 \<and> ax_complete ((update_axis ^^ k) a))"
proof (intro conjI allI impI)
  note ats = updates_placed [OF assms(1-3)]
  have there: "placed_at t t v ((update_axis ^^ k) a)" if "n \<le> k" for k
  proof -
    have "real n * (v / 100) \<le> real k * (v / 100)"
      using that assms(4) by (intro mult_right_mono) simp_all
    then have "(step_to t v ^^ k) p = t" using assms(5) by (intro steps_to_arrive [OF assms(4)]) linarith
    with ats [of k] show ?thesis by simp
  qed
  fix k
  show "ax_position ((update_axis ^^ k) a) = Finite t" if "n \<le> k" using there [OF that] by (simp add: placed_at_def)
  show "ax_speed ((update_axis ^^ k) a) = 0" "ax_complete ((update_axis ^^ k) a)" if "n < k"
  proof -
    have j: "k = Suc (k - 1)" "n \<le> k - 1" using that by simp_all
    from update_axis_rests [OF there [OF j(2)]] assms(2,3)
    show "ax_speed ((update_axis ^^ k) a) = 0" "ax_complete ((update_axis ^^ k) a)"
      by (subst j(1), simp)+
  qed
  have "min p t \<le> (step_to t v ^^ k) p \<and> (step_to t v ^^ k) p \<le> max p t"
    using steps_to_side [OF assms(4), of t p k] steps_to_no_further [OF assms(4), of t k p]
    by (auto simp: min_def max_def abs_if split: if_splits)
  with ats [of k] show "\<exists>q. placed_at q t v ((update_axis ^^ k) a) \<and> min p t \<le> q \<and> q \<le> max p t" by blast
qed

theorem axis_reaches_target_witness:
  "ax_position ((update_axis ^^ 3) (set_target_abs (Finite (1 / 4)) (set_axis_on (new_axis 1)))) = Finite (1 / 4)"
  using axis_reaches_target [of 0 "1 / 4" 10 "set_target_abs (Finite (1 / 4)) (set_axis_on (new_axis 1))" 3]
  by (simp add: placed_at_def set_target_abs_def set_axis_on_def new_axis_def zero_py_float_def)

text \<open>
  A NaN a client sends does not stop at its own field. With a NaN speed limit one round gives an axis
  that is on and has a way to go a NaN position, which no later packet or round mends: every round from
  then on leaves it NaN. With a NaN target the axis moves off below, a whole step each round.
\<close>

lemma nan_speed_loses_position:
  assumes "ax_on a" "\<not> ax_faulted a" "ax_max_speed a = NaN" "ax_position a = Finite p" "ax_target a = Finite t"
    "p + 1 / 100 \<le> t"
  shows "ax_position (update_axis a) = NaN"
  using assms by (simp add: update_axis_def Let_def zero_py_float_def)

lemma nan_position_stays: "ax_position a = NaN \<Longrightarrow> ax_position ((update_axis ^^ n) a) = NaN"
proof (induction n)
  case (Suc n)
  then show ?case by (simp add: update_axis_def Let_def)
qed simp

lemma nan_target_runs_away:
  assumes "ax_on a" "\<not> ax_faulted a" "ax_max_speed a = Finite v" "ax_position a = Finite p" "ax_target a = NaN"
  shows "ax_position (update_axis a) = Finite (p - v / 100)"
  using assms by (simp add: update_axis_def Let_def SIM_UPDATE_INTERVAL_def)

section \<open>The state every client leaves\<close>

definition axis_ok :: "int \<Rightarrow> axis \<Rightarrow> bool" where
  "axis_ok i a \<longleftrightarrow> ax_id a = i
     \<and> (case ax_max_speed a of Finite v \<Rightarrow> 0 \<le> v | NaN \<Rightarrow> True | Infinity positive \<Rightarrow> positive)
     \<and> (case ax_acceleration a of Finite v \<Rightarrow> 0 \<le> v | NaN \<Rightarrow> True | Infinity positive \<Rightarrow> positive)
     \<and> \<not> ax_faulted a \<and> (ax_on a \<or> ax_speed a = Finite 0) \<and> (i \<in> {1, 2} \<or> ax_offset a = Finite 0)"

lemma abs_ok: "case \<bar>x\<bar> of Finite v \<Rightarrow> 0 \<le> v | NaN \<Rightarrow> True | Infinity positive \<Rightarrow> positive"
  by (cases x) simp_all

definition sim_ok :: "motion_sim \<Rightarrow> bool" where
  "sim_ok m \<longleftrightarrow> map fst (sim_axes m) = SIMULATED_AXES \<and> list_all (\<lambda>(i, a). axis_ok i a) (sim_axes m)"

named_theorems axis_ops

lemmas [axis_ops] = set_target_abs_def set_target_rel_def set_speed_def set_accel_def set_axis_on_def
  set_axis_off_def set_axis_reset_def set_ballistic_offset_def

lemma new_sim_ok: "sim_ok new_sim"
  by (simp add: sim_ok_def new_sim_def SIMULATED_AXES_def axis_ok_def new_axis_def axis_ops zero_py_float_def)

lemma update_axis_ok: "axis_ok i a \<Longrightarrow> axis_ok i (update_axis a)"
  by (auto simp: axis_ok_def update_axis_def Let_def zero_py_float_def)

lemma axis_ops_ok:
  assumes "axis_ok i a"
  shows "axis_ok i (set_target_abs x a)" "axis_ok i (set_target_rel x a)" "axis_ok i (set_speed x a)"
    "axis_ok i (set_accel x a)" "axis_ok i (set_axis_on a)" "axis_ok i (set_axis_off a)"
    "axis_ok i (set_axis_reset a)" "i \<in> {1, 2} \<Longrightarrow> axis_ok i (set_ballistic_offset x a)"
  using assms by (auto simp: axis_ok_def axis_ops zero_py_float_def abs_ok)

lemma simulation_tick_ok: "sim_ok m \<Longrightarrow> sim_ok (simulation_tick m)"
  by (auto simp: sim_ok_def simulation_tick_def list_all_iff update_axis_ok case_prod_beta comp_def)

lemma simulation_ticks_ok: "sim_ok m \<Longrightarrow> sim_ok ((simulation_tick ^^ n) m)"
  by (induction n) (simp_all add: simulation_tick_ok)

lemma change_axis_ok:
  assumes "sim_ok m" "\<And>a. axis_ok i a \<Longrightarrow> axis_ok i (f a)"
  shows "sim_ok (change_axis i f m)"
  using assms by (auto simp: sim_ok_def change_axis_def list_all_iff case_prod_beta comp_def)

lemma with_float_ok: "sim_ok m \<Longrightarrow> (\<And>x. sim_ok (f x)) \<Longrightarrow> sim_ok (snd (with_float codec data f m))"
  by (simp add: with_float_def split: option.split)

lemma with_float_ack [simp]: "fst (with_float codec data f m) = ACK_REPLY"
  by (simp add: with_float_def)

lemma sim_ok_more [simp]:
  "sim_ok (m\<lparr>sim_lrf_range := x\<rparr>) = sim_ok m" "sim_ok (m\<lparr>sim_sync_mode := b\<rparr>) = sim_ok m"
  "sim_ok (m\<lparr>sim_inner_mode := b\<rparr>) = sim_ok m"
  by (simp_all add: sim_ok_def)

lemma ok_if: "sim_ok (snd x) \<Longrightarrow> sim_ok (snd y) \<Longrightarrow> sim_ok (snd (if c then x else y))"
  by simp

lemma ballistic_ok:
  "sim_ok m \<Longrightarrow> sim_ok (snd (if i \<in> {1, 2}
     then with_float codec data (\<lambda>x. change_axis i (set_ballistic_offset x) m) m else (ACK_REPLY, m)))"
  by (simp add: with_float_ok change_axis_ok axis_ops_ok)

lemma system_command_ok: "sim_ok m \<Longrightarrow> sim_ok (snd (system_command codec opcode data m))"
  by (simp add: system_command_def with_float_ok split: option.split)

lemma axis_command_ok: "sim_ok m \<Longrightarrow> sim_ok (snd (axis_command codec noise i a opcode data m))"
  unfolding axis_command_def
  by (intro ballistic_ok ok_if) (simp_all add: with_float_ok change_axis_ok axis_ops_ok)

lemma handle_packet_ok:
  assumes "sim_ok m" "handle_packet codec noise p m = Some (reply, m')"
  shows "sim_ok m'"
proof -
  have "(reply, m') = (if uint (p ! 4) = 0
      then system_command codec (uint (p ! 5) * 256 + uint (p ! 6)) (butlast (drop 7 p)) m
      else case map_of (sim_axes m) (uint (p ! 4)) of None \<Rightarrow> (ACK_REPLY, m)
        | Some a \<Rightarrow> axis_command codec noise (uint (p ! 4)) a (uint (p ! 5) * 256 + uint (p ! 6))
            (butlast (drop 7 p)) m)"
    using assms(2) by (simp add: handle_packet_def Let_def split: if_split_asm)
  from arg_cong [OF this, of snd] show ?thesis
    using assms(1) by (simp add: system_command_ok axis_command_ok split: option.split)
qed

lemma handle_packets_ok:
  "sim_ok m \<Longrightarrow> sim_ok (fst (snd (handle_packets codec noise ticks n ps m)))"
proof (induction ps arbitrary: n m)
  case (Cons p ps)
  from simulation_ticks_ok [OF Cons.prems]
  have ticked: "sim_ok ((simulation_tick ^^ ticks n) m)" .
  show ?case
  proof (cases "handle_packet codec (noise n) p ((simulation_tick ^^ ticks n) m)")
    case (Some answer)
    obtain reply m' where "answer = (reply, m')" by (cases answer)
    with Some Cons.IH [OF handle_packet_ok [OF ticked], of codec "noise n" p reply m' "n + 1"]
    show ?thesis by (simp add: case_prod_beta Let_def)
  qed (use ticked in simp)
qed simp

text \<open>The opcode a name stands for, in one pass over the table.\<close>

fun last_opcode :: "string \<Rightarrow> nat option \<Rightarrow> (nat \<times> string) list \<Rightarrow> nat option" where
  "last_opcode name found [] = found"
| "last_opcode name found ((opcode, n) # rest) =
     last_opcode name (if n = name then Some opcode else found) rest"

lemma last_opcode_map_of:
  "last_opcode name found xs =
     (case map_of (rev (map (\<lambda>(opcode, n). (n, opcode)) xs)) name of None \<Rightarrow> found | Some k \<Rightarrow> Some k)"
  by (induction name found xs rule: last_opcode.induct) (simp_all add: map_add_def split: option.split)

lemma opcode_named_last:
  "opcode_named name = (case last_opcode name None OPCODES of None \<Rightarrow> - 1 | Some k \<Rightarrow> int k)"
  by (simp add: opcode_named_def NAME_TO_OPCODE_def last_opcode_map_of split: option.split)

lemma new_axes_keys: "sim_ok m \<Longrightarrow> dom (map_of (sim_axes m)) = {1, 2, 4, 5}"
  by (simp add: sim_ok_def dom_map_of_conv_image_fst SIMULATED_AXES_def flip: list.set_map)

section \<open>One answer for each packet\<close>

definition answers :: "byte list \<Rightarrow> byte list \<Rightarrow> bool" where
  "answers p reply \<longleftrightarrow> reply = ACK_REPLY
     \<or> is_built reply \<and> reply ! 4 = p ! 4 \<and> reply ! 5 = p ! 5 \<and> reply ! 6 = p ! 6"

abbreviation packet_axis :: "byte list \<Rightarrow> int" where "packet_axis p \<equiv> uint (p ! 4)"
abbreviation packet_opcode :: "byte list \<Rightarrow> int" where
  "packet_opcode p \<equiv> uint (p ! 5) * 256 + uint (p ! 6)"

lemma answers_ack [simp]: "answers p ACK_REPLY"
  by (simp add: answers_def)

lemma uint_byte_bounds: "0 \<le> uint (x :: byte)" "uint (x :: byte) < 256"
  using uint_lt2p [of x] by simp_all

lemma two_digits:
  fixes a :: int
  assumes "a * 256 + b = c * 256 + d" "0 \<le> b" "b < 256" "0 \<le> d" "d < 256"
  shows "a = c \<and> b = d"
proof -
  have "a = (a * 256 + b) div 256" "c = (c * 256 + d) div 256" using assms(2-5) by simp_all
  with assms(1) have "a = c" by metis
  with assms(1) show ?thesis by simp
qed

lemma reply_data_answers: "answers p (reply_data (packet_axis p) (packet_opcode p) data)"
proof (cases "build_packet 0 (packet_axis p) (packet_opcode p) data")
  case (Some r)
  note f = built_fields [OF Some]
  have "packet_opcode p mod 65536 = packet_opcode p"
    by (rule mod_pos_pos_trivial) (use uint_byte_bounds [of "p ! 5"] uint_byte_bounds [of "p ! 6"] in linarith)+
  with f(3) have "uint (r ! 5) * 256 + uint (r ! 6) = packet_opcode p" by simp
  from two_digits [OF this uint_byte_bounds uint_byte_bounds]
  have "uint (r ! 5) = uint (p ! 5)" "uint (r ! 6) = uint (p ! 6)" by blast+
  then have "r ! 5 = p ! 5" "r ! 6 = p ! 6" "r ! 4 = p ! 4" using f(2) by (simp_all add: word_uint_eq_iff)
  moreover have "is_built r" using Some by (auto simp: is_built_def)
  ultimately show ?thesis using Some by (simp add: reply_data_def build_reply_packet_def answers_def)
qed (simp add: reply_data_def build_reply_packet_def)

lemma reply_float_answers: "answers p (reply_float codec (packet_axis p) (packet_opcode p) x)"
  by (simp add: reply_float_def reply_data_answers split: option.split)

lemma answers_if: "answers p (fst x) \<Longrightarrow> answers p (fst y) \<Longrightarrow> answers p (fst (if c then x else y))"
  by simp

lemma system_command_answers:
  assumes "packet_axis p = 0"
  shows "answers p (fst (system_command codec (packet_opcode p) data m))"
proof -
  have "answers p (reply_float codec 0 (packet_opcode p) x)" for x
    using reply_float_answers [of p codec x] assms by simp
  then show ?thesis
    unfolding system_command_def by (intro answers_if) simp_all
qed

lemma axis_command_answers:
  "answers p (fst (axis_command codec noise (packet_axis p) a (packet_opcode p) data m))"
  unfolding axis_command_def
  by (intro answers_if) (simp_all add: reply_float_answers reply_data_answers)

lemma handle_packet_answers:
  assumes "is_built p"
  obtains reply m' where "handle_packet codec noise p m = Some (reply, m')" "answers p reply"
proof -
  have "7 \<le> length p" using assms by (auto simp: is_built_def dest: build_packet_length)
  then show ?thesis
    using that system_command_answers [of p codec] axis_command_answers [of p codec noise]
    by (cases "packet_axis p = 0"; cases "map_of (sim_axes m) (packet_axis p)")
      (simp_all add: handle_packet_def Let_def prod_eq_iff)
qed

lemma handle_packets_answers:
  "list_all is_built ps \<Longrightarrow>
     list_all2 answers ps (fst (handle_packets codec noise ticks n ps m))
     \<and> snd (snd (handle_packets codec noise ticks n ps m))"
proof (induction ps arbitrary: n m)
  case (Cons p ps)
  obtain reply m' where "handle_packet codec (noise n) p ((simulation_tick ^^ ticks n) m) = Some (reply, m')"
    "answers p reply" by (rule handle_packet_answers [of p codec "noise n" "(simulation_tick ^^ ticks n) m"]) (use Cons.prems in simp_all)
  with Cons.IH [of "n + 1" m'] Cons.prems show ?case by (simp add: case_prod_beta)
qed simp

section \<open>Properties\<close>

text \<open>
  C39. Whatever bytes clients send (floats that are infinite or not a number among them), in whatever
  chunks and with whatever rounds of the simulation between their packets, the simulator keeps its four
  axes under their ids: a speed or acceleration limit is never below zero (it is at least zero, positive
  infinity, or NaN when a client sent NaN), no axis is ever faulted, an axis that is off has no speed,
  and only axes 1 and 2 ever have a ballistic offset. It starts out this way.
\<close>

theorem simulator_state_is_well_formed:
  "sim_ok new_sim
   \<and> (\<forall>m n. sim_ok m \<longrightarrow> sim_ok ((simulation_tick ^^ n) m)
        \<and> sim_ok (fst (snd (handle_client codec noise ticks chunks m))))"
  by (simp add: new_sim_ok simulation_ticks_ok handle_client_def handle_packets_ok)

theorem simulator_state_is_well_formed_witness:
  "sim_ok (fst (snd (handle_client \<lparr>pack_f = \<lambda>_. None, unpack_f = \<lambda>_. None\<rparr> (\<lambda>_. 0) (\<lambda>_. 3)
     [connect_packet] new_sim)))"
  using simulator_state_is_well_formed by blast

text \<open>
  Every packet of a stream is answered by exactly one reply, in the order they were sent and however
  the stream is cut (never between the two start bytes of a packet), whatever the packets ask and whether
  or not the float codec fails; a reply is the acknowledgement, or a packet with the axis and the opcode
  of its request; and the connection stays open.
\<close>

theorem one_answer_each:
  assumes "list_all is_built ps" "concat chunks = concat ps" "starts_whole 0 chunks ps"
  shows "list_all2 answers ps (fst (handle_client codec noise ticks chunks m))
    \<and> snd (snd (handle_client codec noise ticks chunks m))"
  using handle_packets_answers [OF assms(1)] receive_stream [OF assms(1), of "[]" chunks] assms(2,3)
  by (simp add: handle_client_def)

theorem one_answer_each_witness:
  "length (fst (handle_client \<lparr>pack_f = \<lambda>_. None, unpack_f = \<lambda>_. None\<rparr> (\<lambda>_. 0) (\<lambda>_. 3)
     [take 5 connect_packet, drop 5 connect_packet] new_sim)) = 1"
proof -
  have "list_all2 answers [connect_packet] (fst (handle_client \<lparr>pack_f = \<lambda>_. None, unpack_f = \<lambda>_. None\<rparr>
      (\<lambda>_. 0) (\<lambda>_. 3) [take 5 connect_packet, drop 5 connect_packet] new_sim))
    \<and> snd (snd (handle_client \<lparr>pack_f = \<lambda>_. None, unpack_f = \<lambda>_. None\<rparr>
      (\<lambda>_. 0) (\<lambda>_. 3) [take 5 connect_packet, drop 5 connect_packet] new_sim))"
  proof (rule one_answer_each)
    show "list_all is_built [connect_packet]" using connect_packet_built by (auto simp: is_built_def)
    show "starts_whole 0 [take 5 connect_packet, drop 5 connect_packet] [connect_packet]"
      by (simp add: starts_whole_code connect_packet_def upt_rec)
  qed simp
  then show ?thesis by (auto dest: list_all2_lengthD)
qed

text \<open>
  A packet too short for an axis and an opcode ends the connection without an answer to it or to what
  follows it; and the over-current bit is never set, as no current goes beyond two amperes.
\<close>

lemma short_packet_closes:
  "handle_client codec noise (\<lambda>_. 0) [[0x50, 0x54, 1, 1, 2] @ connect_packet] m = ([], m, False)"
  by (simp add: handle_client_def connect_packet_def packets_of.simps parse_packet_def
      calculate_checksum_def handle_packet_def)

lemma over_current_never:
  assumes "\<bar>noise\<bar> \<le> 1 / 2" shows "\<not> get_current noise a > 2"
  using assms by (auto simp: get_current_def)

end
