(* ===== verification/Motion_Orders.thy ===== *)
theory Motion_Orders
  imports Motion_Simulator
begin

text \<open>
  The motion protocol, its handler and the simulated axes put together: a client's orders, from the
  bytes it sends to the position it reads back.
\<close>

section \<open>An ordered position is reported\<close>

lemma opcode_queries:
  "opcode_named ''MOT_GetLoadPosition'' = 265" "opcode_named ''MOT_GetMotorSpeed'' = 266"
  "opcode_named ''MOT_GetMotorVoltage'' = 263" "opcode_named ''MOT_GetMotorCurrent'' = 262"
  "opcode_named ''ERR_CaptureMotorErrorRegister'' = 3595" "opcode_named ''DG_GetBallisticOffset'' = 4030"
  by (simp_all only: opcode_named_last OPCODES_def) simp_all

lemma opcode_orders:
  "opcode_named ''MOT_SetPositionAbsolute'' = 313" "opcode_named ''MOT_SetPositionRelative'' = 312"
  "opcode_named ''MOT_SetSpeed'' = 305" "opcode_named ''MOT_SetAcceleration'' = 304"
  "opcode_named ''MOT_AxisOn'' = 316"
  by (simp_all only: opcode_named_last OPCODES_def) simp_all

lemma axis_commands:
  "axis_command codec noise i a 265 data m = (reply_float codec i 265 (ax_position a), m)"
  "axis_command codec noise i a 313 data m =
     with_float codec data (\<lambda>x. change_axis i (set_target_abs x) m) m"
  "axis_command codec noise i a 316 data m = (ACK_REPLY, change_axis i set_axis_on m)"
  by (simp_all add: axis_command_def opcode_queries opcode_orders)

lemma map_of_tick:
  "map_of (sim_axes (simulation_tick m)) i = map_option update_axis (map_of (sim_axes m) i)"
  by (simp add: simulation_tick_def map_of_map)

lemma map_of_ticks:
  "map_of (sim_axes ((simulation_tick ^^ n) m)) i = map_option (update_axis ^^ n) (map_of (sim_axes m) i)"
  by (induction n) (simp_all add: map_of_tick option.map_comp comp_def option.map_ident)

lemma map_of_change:
  "map_of (sim_axes (change_axis i f m)) i = map_option f (map_of (sim_axes m) i)"
proof -
  have "map_of (map (\<lambda>(j, a). (j, if j = i then f a else a)) xs) i = map_option f (map_of xs i)" for xs
    by (induction xs) auto
  then show ?thesis by (simp add: change_axis_def)
qed

lemma map_uint_inj: "map uint xs = map uint (ys :: byte list) \<Longrightarrow> xs = ys"
  by (rule map_injective) (auto simp: inj_def word_uint_eq_iff)

lemma handle_axis_packet:
  assumes p: "build_packet 0 i opcode (map uint bs) = Some p" and "i \<noteq> 0"
    and "0 \<le> opcode" "opcode < 65536" and a: "map_of (sim_axes m) i = Some a"
  shows "handle_packet codec noise p m = Some (axis_command codec noise i a opcode bs m)"
proof -
  note f = built_fields [OF p]
  have "7 \<le> length p" using build_packet_length [OF p] by simp
  moreover have "butlast (drop 7 p) = bs" by (rule map_uint_inj) (rule f(4))
  moreover have "uint (p ! 5) * 256 + uint (p ! 6) = opcode" using f(3) assms(3,4) by simp
  ultimately show ?thesis using f(2) a \<open>i \<noteq> 0\<close> by (simp add: handle_packet_def Let_def)
qed

text \<open>Wherever the axis is when it is turned on and ordered, on or off, it is no further from its old target.\<close>

lemma rounds_no_further:
  assumes "0 < v" "placed_at p t v a"
  shows "\<exists>q. placed_at q t v ((update_axis ^^ n) a) \<and> \<bar>t - q\<bar> \<le> \<bar>t - p\<bar>"
proof (cases "ax_on a \<and> \<not> ax_faulted a")
  case True
  with assms(2) have "placed_at ((step_to t v ^^ n) p) t v ((update_axis ^^ n) a)" by (intro updates_placed) simp_all
  then show ?thesis using steps_to_no_further [OF assms(1)] by blast
next
  case False
  then have "placed_at p t v ((update_axis ^^ n) a)"
    using assms(2) by (induction n) (simp_all add: update_axis_placed_off)
  then show ?thesis by blast
qed

lemma ordered_axis_arrives:
  assumes "0 < v" "placed_at p t v a" "\<bar>t - p\<bar> + \<bar>x - t\<bar> \<le> real n * (v / 100)"
  shows "ax_position ((update_axis ^^ n) (set_target_abs (Finite x) ((update_axis ^^ l)
    (set_axis_on ((update_axis ^^ k) a))))) = Finite x"
proof -
  let ?on = "set_axis_on ((update_axis ^^ k) a)"
  let ?b = "set_target_abs (Finite x) ((update_axis ^^ l) ?on)"
  obtain q where q: "placed_at q t v ((update_axis ^^ k) a)" "\<bar>t - q\<bar> \<le> \<bar>t - p\<bar>"
    using rounds_no_further [OF assms(1,2)] by blast
  have on: "placed_at q t v ?on" "ax_on ?on" "\<not> ax_faulted ?on"
    using q(1) by (simp_all add: placed_at_def set_axis_on_def)
  obtain r where r: "placed_at r t v ((update_axis ^^ l) ?on)" "\<bar>t - r\<bar> \<le> \<bar>t - q\<bar>"
    using rounds_no_further [OF assms(1) on(1)] by blast
  have b: "placed_at r x v ?b" "ax_on ?b" "\<not> ax_faulted ?b"
    using r(1) on(2,3) by (simp_all add: placed_at_def set_target_abs_def)
  have "\<bar>x - r\<bar> \<le> real n * (v / 100)" using q(2) r(2) assms(3) by linarith
  then have "(step_to x v ^^ n) r = x" by (rule steps_to_arrive [OF assms(1)])
  with updates_placed [OF b, of n] show ?thesis by (simp add: placed_at_def)
qed

text \<open>
  C37. A client turns an axis on, orders a position and asks for the position after some rounds of the
  simulation. If the axis has a speed limit above zero, and it, its position and its old target are finite;
  if the rounds suffice, at a hundredth of that speed each, for the way left to the old target and then
  from there to the new one (the axis may still be on its old way when it is ordered); and if no chunk
  of the stream ends between the two start bytes of a packet (such a cut loses the packet): then the client
  is answered twice by the acknowledgement and then by a packet that carries exactly the four bytes it
  had ordered, wherever else the stream was cut and whether or not the axis was on or moving before.
\<close>

theorem ordered_position_is_reported:
  assumes "map_of (sim_axes m) i = Some a" "i \<noteq> 0" "0 < v"
    and "ax_position a = Finite p" "ax_target a = Finite t" "ax_max_speed a = Finite v"
    and "pack_f codec (Finite x) = Some bs" "unpack_f codec bs = Some (Finite x)"
    and "build_packet 0 i (opcode_named ''MOT_AxisOn'') [] = Some on"
    and "build_packet 0 i (opcode_named ''MOT_SetPositionAbsolute'') (map uint bs) = Some go"
    and "build_packet 0 i (opcode_named ''MOT_GetLoadPosition'') [] = Some ask"
    and "concat chunks = on @ go @ ask" "starts_whole 0 chunks [on, go, ask]"
    and "\<bar>t - p\<bar> + \<bar>x - t\<bar> \<le> real (ticks 2) * (v / 100)"
  shows "\<exists>answer m'. handle_client codec noise ticks chunks m = ([ACK_REPLY, ACK_REPLY, answer], m', True)
    \<and> build_packet 0 i (opcode_named ''MOT_GetLoadPosition'') (map uint bs) = Some answer"
proof -
  note on = assms(9) [unfolded opcode_orders] and go = assms(10) [unfolded opcode_orders]
    and ask = assms(11) [unfolded opcode_queries]
  let ?m1 = "(simulation_tick ^^ ticks 0) m" let ?m2 = "change_axis i set_axis_on ?m1"
  let ?m3 = "(simulation_tick ^^ ticks 1) ?m2" let ?m4 = "change_axis i (set_target_abs (Finite x)) ?m3"
  let ?m5 = "(simulation_tick ^^ ticks 2) ?m4"
  let ?a1 = "(update_axis ^^ ticks 0) a" let ?a3 = "(update_axis ^^ ticks 1) (set_axis_on ?a1)"
  let ?a5 = "(update_axis ^^ ticks 2) (set_target_abs (Finite x) ?a3)"
  have axes: "map_of (sim_axes ?m1) i = Some ?a1" "map_of (sim_axes ?m3) i = Some ?a3"
    "map_of (sim_axes ?m5) i = Some ?a5"
    using assms(1) by (simp_all add: map_of_ticks map_of_change)
  have h1: "handle_packet codec (noise 0) on ?m1 = Some (ACK_REPLY, ?m2)"
    using handle_axis_packet [of i 316 "[]" on ?m1, OF _ assms(2) _ _ axes(1)] on by (simp add: axis_commands)
  have h2: "handle_packet codec (noise 1) go ?m3 = Some (ACK_REPLY, ?m4)"
    using handle_axis_packet [OF go assms(2) _ _ axes(2)] assms(8) by (simp add: axis_commands with_float_def)
  have "ax_position ?a5 = Finite x"
    by (rule ordered_axis_arrives [OF assms(3) _ assms(14)]) (simp add: placed_at_def assms(4-6))
  moreover have "is_byte i" "list_all is_byte (map uint bs)" "length bs \<le> 251"
    using go by (simp_all add: build_packet_Some)
  then obtain answer where answer: "build_packet 0 i 265 (map uint bs) = Some answer"
    by (simp add: build_packet_Some is_byte_def)
  ultimately have h3: "handle_packet codec (noise 2) ask ?m5 = Some (answer, ?m5)"
    using handle_axis_packet [of i 265 "[]" ask ?m5, OF _ assms(2) _ _ axes(3)] ask assms(7)
    by (simp add: axis_commands reply_float_def reply_data_def build_reply_packet_def)
  have "list_all is_built [on, go, ask]" using on go ask by (auto simp: is_built_def)
  from receive_stream [OF this, of "[]" chunks] assms(12,13)
  have "fst (receive_chunks [] chunks) = [on, go, ask]" by simp
  then have "handle_client codec noise ticks chunks m = ([ACK_REPLY, ACK_REPLY, answer], ?m5, True)"
    using h1 h2 h3 by (simp add: handle_client_def numeral_2_eq_2)
  with answer show ?thesis by (simp add: opcode_queries)
qed

text \<open>A quarter of a unit, ordered from an axis as the simulator starts it.\<close>

definition quarter_codec :: float_codec where
  "quarter_codec =
     \<lparr>pack_f = \<lambda>x. if x = Finite (1 / 4) then Some [0x3E, 0x80, 0, 0] else None,
      unpack_f = \<lambda>bs. if bs = [0x3E, 0x80, 0, 0] then Some (Finite (1 / 4)) else None\<rparr>"

definition turn_on :: "byte list" where "turn_on = [0x50, 0x54, 4, 0, 1, 1, 0x3C, 66]"
definition go_quarter :: "byte list" where
  "go_quarter = [0x50, 0x54, 8, 0, 1, 1, 0x39, 0x3E, 0x80, 0, 0, 1]"
definition ask_position :: "byte list" where "ask_position = [0x50, 0x54, 4, 0, 1, 1, 9, 15]"

lemma quarter_packets:
  "build_packet 0 1 (opcode_named ''MOT_AxisOn'') [] = Some turn_on"
  "build_packet 0 1 (opcode_named ''MOT_SetPositionAbsolute'') (map uint [0x3E, 0x80, 0, 0 :: byte]) = Some go_quarter"
  "build_packet 0 1 (opcode_named ''MOT_GetLoadPosition'') [] = Some ask_position"
  by (simp_all add: opcode_queries opcode_orders build_packet_Some packet_body_def calculate_checksum_def
      is_byte_def START_BYTE_1_def START_BYTE_2_def turn_on_def go_quarter_def ask_position_def)

theorem ordered_position_is_reported_witness:
  "\<exists>answer m'. handle_client quarter_codec (\<lambda>_. 0) (\<lambda>_. 3) [take 9 (turn_on @ go_quarter @ ask_position) @ [0x54],
      drop 10 (turn_on @ go_quarter @ ask_position)] new_sim = ([ACK_REPLY, ACK_REPLY, answer], m', True)
    \<and> build_packet 0 1 (opcode_named ''MOT_GetLoadPosition'') (map uint [0x3E, 0x80, 0, 0 :: byte]) = Some answer"
proof (rule ordered_position_is_reported [where x = "1 / 4" and p = 0 and t = 0 and v = 10, OF _ _ _ _ _ _ _ _ quarter_packets])
  show "map_of (sim_axes new_sim) 1 = Some (set_axis_off (new_axis 1))"
    by (simp add: new_sim_def SIMULATED_AXES_def)
  show "starts_whole 0 [take 9 (turn_on @ go_quarter @ ask_position) @ [0x54],
      drop 10 (turn_on @ go_quarter @ ask_position)] [turn_on, go_quarter, ask_position]"
    by (simp add: starts_whole_code turn_on_def go_quarter_def ask_position_def upt_rec)
qed (simp_all add: quarter_codec_def set_axis_off_def new_axis_def zero_py_float_def turn_on_def go_quarter_def ask_position_def)

end
