(* ===== verification/Detection_Service.thy ===== *)
theory Detection_Service
  imports Detection_Client
begin

text \<open>
  \<open>ImageRecognitionService/detection/service.py\<close>: the Detection Service, which holds at most one Run
  at a time. Its control API is served on a thread per request, and each Run works on a thread of its
  own, so the service is a step relation whose steps are the sections under \<open>_lock\<close>, the waits that
  end, and the worker's progress. A Run object is its position in \<open>sv_runs\<close>: a request that waits on
  it keeps the object after the service has let it go. What the pipeline does inside \<open>process\<close>
  (\<open>Run_Loop\<close>) and how long it takes is not restricted here: it may call \<open>watching\<close>, look, return or
  raise at any time.
\<close>

section \<open>A Run\<close>

datatype svc_state = R_starting | R_watching | R_ending

text \<open>
  What of \<open>RegisteredFrames\<close> the service uses: whether \<open>finish\<close> and \<open>stop\<close> were called, and its
  latest registered and latest Look.
\<close>

record svc_loop =
  lp_finish :: bool
  lp_stop :: bool
  lp_registered :: "place option"
  lp_looked :: "time option"

text \<open>Where the worker's \<open>_work\<close> is.\<close>

datatype worker =
    W_opening
  | W_opened bool
  | W_processing
  | W_watching
  | W_leaving
  | W_left
  | W_ready
  | W_done

record svc_run =
  sr_session :: uuid
  sr_state :: svc_state
  sr_since :: time
  sr_marks :: "nat option"
  sr_view :: "baseline_view option"
  sr_error :: "string option"
  sr_loop :: "svc_loop option"
  sr_ready :: bool
  sr_ended :: bool
  sr_deadline :: time
  sr_worker :: worker

definition START_TIMEOUT_S :: time where "START_TIMEOUT_S = seconds 15"

definition ENDING_TIMEOUT_S :: time where "ENDING_TIMEOUT_S = seconds 5"

definition new_svc_run :: "uuid \<Rightarrow> time \<Rightarrow> svc_run" where
  "new_svc_run sid now =
     \<lparr>sr_session = sid, sr_state = R_starting, sr_since = now, sr_marks = None, sr_view = None,
      sr_error = None, sr_loop = None, sr_ready = False, sr_ended = False,
      sr_deadline = now + START_TIMEOUT_S, sr_worker = W_opening\<rparr>"

definition enter :: "svc_state \<Rightarrow> time \<Rightarrow> svc_run \<Rightarrow> svc_run" where
  "enter state now r = r\<lparr>sr_state := state, sr_since := now\<rparr>"

text \<open>
  \<open>watched\<close> and \<open>view\<close>. \<open>None\<close> is the exception Python raises when the loop it reads is not there or
  has not looked (\<open>self.loop.registered\<close> of no loop, or unpacked before the first Look).
\<close>

record svc_view =
  vw_session :: uuid
  vw_state :: string
  vw_since :: time
  vw_marks :: "nat option"
  vw_baseline :: "baseline_view option"
  vw_registered :: "place option"
  vw_looked :: "time option"

definition watched :: "svc_run \<Rightarrow> (place option \<times> time option) option" where
  "watched r =
     (case sr_view r of
        None \<Rightarrow> Some (None, None)
      | Some _ \<Rightarrow>
          (case sr_loop r of
             None \<Rightarrow> None
           | Some l \<Rightarrow>
               (case (lp_registered l, lp_looked l) of
                  (Some reg, Some looked) \<Rightarrow> Some (Some reg, Some looked)
                | _ \<Rightarrow> None)))"

fun state_name :: "svc_state \<Rightarrow> string" where
  "state_name R_starting = ''starting''"
| "state_name R_watching = ''watching''"
| "state_name R_ending = ''ending''"

definition run_view :: "svc_run \<Rightarrow> svc_view option" where
  "run_view r =
     map_option (\<lambda>(reg, looked).
       \<lparr>vw_session = sr_session r, vw_state = state_name (sr_state r), vw_since = sr_since r,
        vw_marks = sr_marks r, vw_baseline = sr_view r, vw_registered = reg, vw_looked = looked\<rparr>)
     (watched r)"

section \<open>The service\<close>

text \<open>
  A request in progress: waiting for a start's Run to be ready, about to end a Run (with what is
  answered then), waiting for it to end (with whether the wait is bounded), or answered.
\<close>

datatype answer =
    Ok_run "svc_view option"
  | Ok_ended uuid "baseline_view option" "(place option \<times> time option) option"
  | Not_found
  | Other_active "svc_view option"
  | Is_ending "svc_view option"
  | Failed_start string
  | Start_timed_out

datatype request =
    Waiting_ready nat
  | About_to_end nat answer
  | Waiting_ended nat bool answer
  | Has_ended nat answer
  | Done answer

record service =
  sv_runs :: "svc_run list"
  sv_current :: "nat option"
  sv_log_session :: "uuid option"
  sv_requests :: "request list"
  sv_clock :: time

definition new_service :: service where
  "new_service = \<lparr>sv_runs = [], sv_current = None, sv_log_session = None, sv_requests = [], sv_clock = 0\<rparr>"

definition update_run :: "nat \<Rightarrow> (svc_run \<Rightarrow> svc_run) \<Rightarrow> service \<Rightarrow> service" where
  "update_run i f sv = sv\<lparr>sv_runs := (sv_runs sv)[i := f (sv_runs sv ! i)]\<rparr>"

definition svc_status :: "service \<Rightarrow> svc_view option option" where
  "svc_status sv = map_option (\<lambda>i. run_view (sv_runs sv ! i)) (sv_current sv)"

text \<open>\<open>start\<close>, up to its wait: under the lock.\<close>

definition start_enter :: "uuid \<Rightarrow> service \<Rightarrow> request \<times> service" where
  "start_enter sid sv =
     (case sv_current sv of
        None \<Rightarrow>
          (Waiting_ready (length (sv_runs sv)),
           sv\<lparr>sv_runs := sv_runs sv @ [new_svc_run sid (sv_clock sv)],
              sv_current := Some (length (sv_runs sv)), sv_log_session := Some sid\<rparr>)
      | Some i \<Rightarrow>
          if sr_session (sv_runs sv ! i) \<noteq> sid then (Done (Other_active (run_view (sv_runs sv ! i))), sv)
          else (Waiting_ready i, sv))"

text \<open>\<open>start\<close>, from the end of its wait: the answer, or the end of a Run that is late.\<close>

definition start_answer :: "nat \<Rightarrow> service \<Rightarrow> answer" where
  "start_answer i sv =
     (let r = sv_runs sv ! i in
      case sr_error r of
        Some e \<Rightarrow> Failed_start e
      | None \<Rightarrow> if sr_state r \<noteq> R_watching then Is_ending (run_view r) else Ok_run (run_view r))"

definition start_late :: "nat \<Rightarrow> request" where
  "start_late i = About_to_end i Start_timed_out"

text \<open>\<open>end\<close>, up to its \<open>_end\<close>. Its answer reads the Run once \<open>_end\<close> is back.\<close>

definition end_enter :: "uuid \<Rightarrow> service \<Rightarrow> request" where
  "end_enter sid sv =
     (case sv_current sv of
        None \<Rightarrow> Done Not_found
      | Some i \<Rightarrow>
          if sr_session (sv_runs sv ! i) \<noteq> sid then Done Not_found
          else About_to_end i (Ok_ended sid None None))"

definition end_answer :: "nat \<Rightarrow> answer \<Rightarrow> service \<Rightarrow> answer" where
  "end_answer i a sv =
     (case a of
        Ok_ended sid _ _ \<Rightarrow> Ok_ended sid (sr_view (sv_runs sv ! i)) (watched (sv_runs sv ! i))
      | _ \<Rightarrow> a)"

text \<open>\<open>_end\<close>, under the lock: what it was, and the flags.\<close>

definition call_finish :: "svc_loop \<Rightarrow> svc_loop" where
  "call_finish l = l\<lparr>lp_finish := True\<rparr>"

definition call_stop :: "svc_loop \<Rightarrow> svc_loop" where
  "call_stop l = l\<lparr>lp_stop := True\<rparr>"

definition end_flags :: "time \<Rightarrow> svc_run \<Rightarrow> svc_run" where
  "end_flags now r =
     (let r' = (if sr_state r \<noteq> R_ending then enter R_ending now r else r) in
      case sr_state r of
        R_watching \<Rightarrow> r'\<lparr>sr_loop := map_option call_finish (sr_loop r)\<rparr>
      | R_starting \<Rightarrow> r'\<lparr>sr_loop := map_option call_stop (sr_loop r)\<rparr>
      | R_ending \<Rightarrow> r')"

definition end_section :: "nat \<Rightarrow> answer \<Rightarrow> service \<Rightarrow> request \<times> service" where
  "end_section i a sv =
     (Waiting_ended i (sr_state (sv_runs sv ! i) = R_watching) a, update_run i (end_flags (sv_clock sv)) sv)"

text \<open>The bounded wait ran out: \<open>loop.stop()\<close>, and the wait goes on unbounded.\<close>

definition end_overdue :: "nat \<Rightarrow> service \<Rightarrow> service" where
  "end_overdue i = update_run i (\<lambda>r. r\<lparr>sr_loop := map_option call_stop (sr_loop r)\<rparr>)"

section \<open>The worker\<close>

text \<open>\<open>_work\<close>: the Stream opened, under the lock; then \<open>stop\<close> if the Run was ended meanwhile.\<close>

definition new_loop :: svc_loop where
  "new_loop = \<lparr>lp_finish = False, lp_stop = False, lp_registered = None, lp_looked = None\<rparr>"

definition work_opened :: "svc_run \<Rightarrow> svc_run" where
  "work_opened r = r\<lparr>sr_loop := Some new_loop, sr_worker := W_opened (sr_state r = R_ending)\<rparr>"

definition work_began :: "bool \<Rightarrow> svc_run \<Rightarrow> svc_run" where
  "work_began ending r =
     r\<lparr>sr_loop := (if ending then map_option call_stop (sr_loop r) else sr_loop r), sr_worker := W_processing\<rparr>"

text \<open>\<open>process\<close> looks, and at its baseline calls \<open>_watching\<close>.\<close>

definition work_looked :: "place option \<Rightarrow> time \<Rightarrow> svc_run \<Rightarrow> svc_run" where
  "work_looked reg looked r =
     r\<lparr>sr_loop := map_option (\<lambda>l. l\<lparr>lp_registered := (case reg of None \<Rightarrow> lp_registered l | Some p \<Rightarrow> Some p),
                                 lp_looked := Some looked\<rparr>) (sr_loop r)\<rparr>"

definition watching :: "baseline_view \<Rightarrow> nat \<Rightarrow> time \<Rightarrow> svc_run \<Rightarrow> svc_run" where
  "watching view marks now r =
     (let r' = r\<lparr>sr_marks := Some marks, sr_view := Some view, sr_worker := W_watching\<rparr>
      in if sr_state r = R_starting then enter R_watching now r' else r')"

text \<open>The exception handler and the \<open>finally\<close> block.\<close>

definition work_leaves :: "string option \<Rightarrow> svc_run \<Rightarrow> svc_run" where
  "work_leaves raised r =
     r\<lparr>sr_error := (case raised of None \<Rightarrow> sr_error r | Some e \<Rightarrow> Some e), sr_worker := W_leaving\<rparr>"

definition work_left :: "nat \<Rightarrow> service \<Rightarrow> service" where
  "work_left i sv =
     (let sv' = update_run i (\<lambda>r. r\<lparr>sr_worker := W_left\<rparr>) sv in
      if sv_current sv = Some i then sv'\<lparr>sv_current := None, sv_log_session := None\<rparr> else sv')"

definition set_ready :: "worker \<Rightarrow> svc_run \<Rightarrow> svc_run" where
  "set_ready w r = r\<lparr>sr_ready := True, sr_worker := w\<rparr>"

definition set_ended :: "svc_run \<Rightarrow> svc_run" where
  "set_ended r = r\<lparr>sr_ended := True, sr_worker := W_done\<rparr>"

section \<open>Interleaved\<close>

text \<open>
  \<open>process\<close> sets its first registered Look before it calls \<open>_watching\<close>; a Run's worker is where
  \<open>sr_worker\<close> says.
\<close>

inductive worker_step :: "service \<Rightarrow> service \<Rightarrow> bool" where
  w_open: "i < length (sv_runs sv) \<Longrightarrow> sr_worker (sv_runs sv ! i) = W_opening \<Longrightarrow>
    worker_step sv (update_run i work_opened sv)"
| w_begin: "i < length (sv_runs sv) \<Longrightarrow> sr_worker (sv_runs sv ! i) = W_opened e \<Longrightarrow>
    worker_step sv (update_run i (work_began e) sv)"
| w_look: "i < length (sv_runs sv) \<Longrightarrow> sr_worker (sv_runs sv ! i) = W_processing \<Longrightarrow>
    worker_step sv (update_run i (work_looked reg looked) sv)"
| w_watch: "i < length (sv_runs sv) \<Longrightarrow> sr_worker (sv_runs sv ! i) = W_processing \<Longrightarrow>
    sr_loop (sv_runs sv ! i) = Some l \<Longrightarrow> lp_registered l \<noteq> None \<Longrightarrow> lp_looked l \<noteq> None \<Longrightarrow>
    worker_step sv (update_run i (watching view marks (sv_clock sv)) sv)"
| w_ready: "i < length (sv_runs sv) \<Longrightarrow> sr_worker (sv_runs sv ! i) = W_watching \<Longrightarrow>
    worker_step sv (update_run i (set_ready W_processing) sv)"
| w_leave: "i < length (sv_runs sv) \<Longrightarrow> sr_worker (sv_runs sv ! i) \<in> {W_opening, W_processing, W_watching} \<Longrightarrow>
    worker_step sv (update_run i (work_leaves raised) sv)"
| w_left: "i < length (sv_runs sv) \<Longrightarrow> sr_worker (sv_runs sv ! i) = W_leaving \<Longrightarrow>
    worker_step sv (work_left i sv)"
| w_last_ready: "i < length (sv_runs sv) \<Longrightarrow> sr_worker (sv_runs sv ! i) = W_left \<Longrightarrow>
    worker_step sv (update_run i (set_ready W_ready) sv)"
| w_ended: "i < length (sv_runs sv) \<Longrightarrow> sr_worker (sv_runs sv ! i) = W_ready \<Longrightarrow>
    worker_step sv (update_run i set_ended sv)"

definition next_request :: "nat \<Rightarrow> request \<Rightarrow> service \<Rightarrow> service" where
  "next_request j q sv = sv\<lparr>sv_requests := (sv_requests sv)[j := q]\<rparr>"

definition add_request :: "request \<Rightarrow> service \<Rightarrow> service" where
  "add_request q sv = sv\<lparr>sv_requests := sv_requests sv @ [q]\<rparr>"

inductive service_step :: "service \<Rightarrow> service \<Rightarrow> bool" where
  s_worker: "worker_step sv sv' \<Longrightarrow> service_step sv sv'"
| s_start: "start_enter sid sv = (q, sv') \<Longrightarrow> service_step sv (add_request q sv')"
| s_end: "service_step sv (add_request (end_enter sid sv) sv)"
| s_close: "sv_current sv = Some i \<Longrightarrow> service_step sv (add_request (About_to_end i Not_found) sv)"
| s_ready: "j < length (sv_requests sv) \<Longrightarrow> sv_requests sv ! j = Waiting_ready i \<Longrightarrow> sr_ready (sv_runs sv ! i) \<Longrightarrow>
    service_step sv (next_request j (Done (start_answer i sv)) sv)"
| s_late: "j < length (sv_requests sv) \<Longrightarrow> sv_requests sv ! j = Waiting_ready i \<Longrightarrow>
    \<not> sr_ready (sv_runs sv ! i) \<Longrightarrow> sr_deadline (sv_runs sv ! i) \<le> sv_clock sv \<Longrightarrow>
    service_step sv (next_request j (start_late i) sv)"
| s_flags: "j < length (sv_requests sv) \<Longrightarrow> sv_requests sv ! j = About_to_end i a \<Longrightarrow>
    end_section i a sv = (q, sv') \<Longrightarrow> service_step sv (next_request j q sv')"
| s_overdue: "j < length (sv_requests sv) \<Longrightarrow> sv_requests sv ! j = Waiting_ended i True a \<Longrightarrow>
    service_step sv (next_request j (Waiting_ended i False a) (end_overdue i sv))"
| s_ended: "j < length (sv_requests sv) \<Longrightarrow> sv_requests sv ! j = Waiting_ended i b a \<Longrightarrow> sr_ended (sv_runs sv ! i) \<Longrightarrow>
    service_step sv (next_request j (Has_ended i a) sv)"
| s_answer: "j < length (sv_requests sv) \<Longrightarrow> sv_requests sv ! j = Has_ended i a \<Longrightarrow>
    service_step sv (next_request j (Done (end_answer i a sv)) sv)"
| s_clock: "sv_clock sv \<le> c \<Longrightarrow> service_step sv (sv\<lparr>sv_clock := c\<rparr>)"

inductive_cases worker_stepE: "worker_step sv sv'"
inductive_cases service_stepE: "service_step sv sv'"

section \<open>What the service keeps\<close>

definition left :: "svc_run \<Rightarrow> bool" where
  "left r \<longleftrightarrow> sr_worker r \<in> {W_left, W_ready, W_done}"

text \<open>Whoever ends a Run tells its loop, or leaves it to the worker, which has not opened its Stream
  or is about to tell it.\<close>

definition told_to_end :: "svc_run \<Rightarrow> bool" where
  "told_to_end r \<longleftrightarrow>
     (case sr_loop r of
        None \<Rightarrow> sr_worker r = W_opening \<or> sr_worker r = W_leaving \<or> left r
      | Some l \<Rightarrow> lp_finish l \<or> lp_stop l \<or> sr_worker r = W_opened True)"

definition has_looked :: "svc_run \<Rightarrow> bool" where
  "has_looked r \<longleftrightarrow> (\<exists>l. sr_loop r = Some l \<and> lp_registered l \<noteq> None \<and> lp_looked l \<noteq> None)"

definition run_ok :: "svc_run \<Rightarrow> bool" where
  "run_ok r \<longleftrightarrow>
     (sr_view r \<noteq> None \<longrightarrow> has_looked r)
     \<and> (sr_state r = R_watching \<longrightarrow> sr_view r \<noteq> None)
     \<and> (sr_state r = R_ending \<longrightarrow> told_to_end r)
     \<and> (sr_loop r = None \<longrightarrow> sr_worker r = W_opening \<or> sr_worker r = W_leaving \<or> left r)
     \<and> (sr_worker r = W_opening \<longrightarrow> sr_loop r = None)
     \<and> (sr_ended r \<longleftrightarrow> sr_worker r = W_done)"

fun pending_answer :: "answer \<Rightarrow> bool" where
  "pending_answer (Ok_ended _ _ _) = True"
| "pending_answer Not_found = True"
| "pending_answer Start_timed_out = True"
| "pending_answer _ = False"

fun answer_ok :: "answer \<Rightarrow> bool" where
  "answer_ok (Ok_run v) \<longleftrightarrow> (\<exists>x. v = Some x \<and> vw_state x = ''watching'' \<and> vw_baseline x \<noteq> None)"
| "answer_ok (Ok_ended _ b w) \<longleftrightarrow> w \<noteq> None"
| "answer_ok (Other_active v) \<longleftrightarrow> v \<noteq> None"
| "answer_ok (Is_ending v) \<longleftrightarrow> v \<noteq> None"
| "answer_ok _ \<longleftrightarrow> True"

fun request_ok :: "service \<Rightarrow> request \<Rightarrow> bool" where
  "request_ok sv (Waiting_ready i) \<longleftrightarrow> i < length (sv_runs sv)"
| "request_ok sv (About_to_end i a) \<longleftrightarrow> i < length (sv_runs sv) \<and> pending_answer a"
| "request_ok sv (Waiting_ended i b a) \<longleftrightarrow> i < length (sv_runs sv) \<and> pending_answer a"
| "request_ok sv (Has_ended i a) \<longleftrightarrow>
     i < length (sv_runs sv) \<and> pending_answer a \<and> sr_ended (sv_runs sv ! i)"
| "request_ok sv (Done a) \<longleftrightarrow> answer_ok a"

definition service_ok :: "service \<Rightarrow> bool" where
  "service_ok sv \<longleftrightarrow>
     list_all run_ok (sv_runs sv)
     \<and> (\<forall>i. sv_current sv = Some i \<longrightarrow> i < length (sv_runs sv) \<and> \<not> left (sv_runs sv ! i))
     \<and> (\<forall>i<length (sv_runs sv). sv_current sv \<noteq> Some i \<longrightarrow> left (sv_runs sv ! i))
     \<and> list_all (request_ok sv) (sv_requests sv)"

lemma run_ok_watched: "run_ok r \<Longrightarrow> watched r \<noteq> None"
  by (auto simp: run_ok_def watched_def has_looked_def split: option.splits)

lemma run_ok_view: "run_ok r \<Longrightarrow> run_view r \<noteq> None"
  by (simp add: run_view_def run_ok_watched)

lemma run_ok_watching_view:
  "run_ok r \<Longrightarrow> sr_state r = R_watching \<Longrightarrow> answer_ok (Ok_run (run_view r))"
  using run_ok_watched [of r] by (auto simp: run_view_def run_ok_def)

text \<open>The steps of one Run.\<close>

lemma run_ok_new: "run_ok (new_svc_run sid now)" "\<not> left (new_svc_run sid now)"
  by (simp_all add: new_svc_run_def run_ok_def left_def)

lemma run_ok_flags: "run_ok r \<Longrightarrow> run_ok (end_flags now r)"
  by (cases "sr_state r"; cases "sr_loop r")
     (auto simp: end_flags_def run_ok_def told_to_end_def has_looked_def left_def enter_def Let_def
       call_finish_def call_stop_def)

lemma run_ok_overdue: "run_ok r \<Longrightarrow> run_ok (r\<lparr>sr_loop := map_option call_stop (sr_loop r)\<rparr>)"
  by (cases "sr_loop r") (auto simp: run_ok_def told_to_end_def has_looked_def left_def call_stop_def)

lemma run_ok_opened: "run_ok r \<Longrightarrow> sr_worker r = W_opening \<Longrightarrow> run_ok (work_opened r)"
  by (auto simp: work_opened_def run_ok_def told_to_end_def has_looked_def new_loop_def left_def)

lemma run_ok_began: "run_ok r \<Longrightarrow> sr_worker r = W_opened e \<Longrightarrow> run_ok (work_began e r)"
  by (cases "sr_loop r"; cases e)
     (auto simp: work_began_def run_ok_def told_to_end_def has_looked_def left_def call_stop_def)

lemma run_ok_looked: "run_ok r \<Longrightarrow> sr_worker r = W_processing \<Longrightarrow> run_ok (work_looked reg at' r)"
  by (cases "sr_loop r")
     (auto simp: work_looked_def run_ok_def told_to_end_def has_looked_def left_def split: option.splits)

lemma run_ok_watching_step:
  "run_ok r \<Longrightarrow> sr_worker r = W_processing \<Longrightarrow> has_looked r \<Longrightarrow> run_ok (watching view marks now r)"
  by (auto simp: watching_def run_ok_def told_to_end_def has_looked_def left_def enter_def Let_def)

lemma run_ok_ready:
  "run_ok r \<Longrightarrow> (sr_worker r, w) \<in> {(W_watching, W_processing), (W_left, W_ready)} \<Longrightarrow> run_ok (set_ready w r)"
  by (auto simp: set_ready_def run_ok_def told_to_end_def has_looked_def left_def split: option.splits)

lemma run_ok_leaves: "run_ok r \<Longrightarrow> sr_worker r \<in> {W_opening, W_processing, W_watching} \<Longrightarrow> run_ok (work_leaves raised r)"
  by (auto simp: work_leaves_def run_ok_def told_to_end_def has_looked_def left_def split: option.splits)

lemma run_ok_left: "run_ok r \<Longrightarrow> sr_worker r = W_leaving \<Longrightarrow> run_ok (r\<lparr>sr_worker := W_left\<rparr>)"
  by (auto simp: run_ok_def told_to_end_def has_looked_def left_def split: option.splits)

lemma run_ok_ended: "run_ok r \<Longrightarrow> sr_worker r = W_ready \<Longrightarrow> run_ok (set_ended r)"
  by (auto simp: set_ended_def run_ok_def told_to_end_def has_looked_def left_def split: option.splits)


section \<open>Every step keeps it\<close>

lemma request_ok_mono:
  assumes "length (sv_runs sv) \<le> length (sv_runs sv')"
    and "\<And>i. i < length (sv_runs sv) \<Longrightarrow> sr_ended (sv_runs sv ! i) \<Longrightarrow> sr_ended (sv_runs sv' ! i)"
    and "request_ok sv q"
  shows "request_ok sv' q"
  using assms by (cases q) auto

lemma requests_ok_mono:
  assumes "length (sv_runs sv) \<le> length (sv_runs sv')"
    and "\<And>i. i < length (sv_runs sv) \<Longrightarrow> sr_ended (sv_runs sv ! i) \<Longrightarrow> sr_ended (sv_runs sv' ! i)"
    and "list_all (request_ok sv) qs"
  shows "list_all (request_ok sv') qs"
  using assms request_ok_mono [of sv sv'] by (auto simp: list_all_iff)

lemma service_ok_update:
  assumes ok: "service_ok sv" and i: "i < length (sv_runs sv)"
    and r: "r = sv_runs sv ! i" "run_ok (f r)" "left (f r) = left r" "sr_ended r \<Longrightarrow> sr_ended (f r)"
  shows "service_ok (update_run i f sv)"
proof -
  have nth: "sv_runs (update_run i f sv) ! j = (if j = i then f r else sv_runs sv ! j)"
    if "j < length (sv_runs sv)" for j
    using that i by (simp add: update_run_def r nth_list_update)
  have "list_all (request_ok (update_run i f sv)) (sv_requests sv)"
    by (rule requests_ok_mono [of sv])
       (use ok i r in \<open>auto simp: update_run_def service_ok_def nth_list_update\<close>)
  moreover have "list_all run_ok (sv_runs (update_run i f sv))"
    using ok r(2) by (auto simp: update_run_def service_ok_def list_all_iff r(1) dest: subsetD [OF set_update_subset_insert])
  moreover have "sv_current (update_run i f sv) = sv_current sv" "sv_requests (update_run i f sv) = sv_requests sv"
    "length (sv_runs (update_run i f sv)) = length (sv_runs sv)"
    by (simp_all add: update_run_def)
  ultimately show ?thesis
    using ok nth r(1,3) by (auto simp: service_ok_def)
qed

lemma service_ok_run: "service_ok sv \<Longrightarrow> i < length (sv_runs sv) \<Longrightarrow> run_ok (sv_runs sv ! i)"
  by (simp add: service_ok_def list_all_length)

lemma service_ok_leaving:
  assumes ok: "service_ok sv" and i: "i < length (sv_runs sv)" "sr_worker (sv_runs sv ! i) = W_leaving"
  shows "service_ok (work_left i sv)"
proof -
  let ?r = "sv_runs sv ! i"
  have cur: "sv_current sv = Some i"
    using ok i by (auto simp: service_ok_def left_def)
  have runs: "sv_runs (work_left i sv) = (sv_runs sv)[i := ?r\<lparr>sr_worker := W_left\<rparr>]"
    by (simp add: work_left_def update_run_def Let_def)
  have "list_all (request_ok (work_left i sv)) (sv_requests sv)"
    by (rule requests_ok_mono [of sv]) (use ok i in \<open>auto simp: runs nth_list_update service_ok_def\<close>)
  moreover have "list_all run_ok (sv_runs (work_left i sv))"
    using ok i run_ok_left [OF service_ok_run [OF ok i(1)] i(2)]
    by (auto simp: runs service_ok_def list_all_iff dest: subsetD [OF set_update_subset_insert])
  ultimately show ?thesis
    using ok cur i by (auto simp: service_ok_def runs nth_list_update left_def work_left_def Let_def update_run_def)
qed

lemma worker_step_ok:
  assumes ok: "service_ok sv" and step: "worker_step sv sv'"
  shows "service_ok sv'"
  using step
proof cases
  case (w_open i)
  then show ?thesis
    using service_ok_run [OF ok] by (auto intro!: service_ok_update [OF ok] run_ok_opened simp: work_opened_def left_def)
next
  case (w_begin i e)
  then show ?thesis
    using service_ok_run [OF ok] by (auto intro!: service_ok_update [OF ok] run_ok_began simp: work_began_def left_def)
next
  case (w_look i reg looked)
  then show ?thesis
    using service_ok_run [OF ok] by (auto intro!: service_ok_update [OF ok] run_ok_looked simp: work_looked_def left_def)
next
  case (w_watch i l view marks)
  then show ?thesis
    using service_ok_run [OF ok]
    by (auto intro!: service_ok_update [OF ok] run_ok_watching_step
        simp: watching_def left_def has_looked_def enter_def Let_def split: if_splits)
next
  case (w_ready i)
  then show ?thesis
    using service_ok_run [OF ok] by (auto intro!: service_ok_update [OF ok] run_ok_ready simp: set_ready_def left_def)
next
  case (w_leave i raised)
  then show ?thesis
    using service_ok_run [OF ok]
    by (auto intro!: service_ok_update [OF ok] run_ok_leaves simp: work_leaves_def left_def)
next
  case (w_left i)
  then show ?thesis using service_ok_leaving [OF ok] by simp
next
  case (w_last_ready i)
  then show ?thesis
    using service_ok_run [OF ok] by (auto intro!: service_ok_update [OF ok] run_ok_ready simp: set_ready_def left_def)
next
  case (w_ended i)
  then show ?thesis
    using service_ok_run [OF ok] by (auto intro!: service_ok_update [OF ok] run_ok_ended simp: set_ended_def left_def)
qed

lemma service_ok_add: "service_ok sv \<Longrightarrow> request_ok sv q \<Longrightarrow> service_ok (add_request q sv)"
  using requests_ok_mono [of sv "add_request q sv"] request_ok_mono [of sv "add_request q sv" q]
  by (simp add: service_ok_def add_request_def)

lemma service_ok_next: "service_ok sv \<Longrightarrow> request_ok sv q \<Longrightarrow> service_ok (next_request j q sv)"
  using requests_ok_mono [of sv "next_request j q sv"] request_ok_mono [of sv "next_request j q sv" q]
  by (auto simp: service_ok_def next_request_def list_all_iff dest: subsetD [OF set_update_subset_insert])

lemma service_ok_request: "service_ok sv \<Longrightarrow> j < length (sv_requests sv) \<Longrightarrow> request_ok sv (sv_requests sv ! j)"
  by (simp add: service_ok_def list_all_length)

lemma service_ok_start:
  assumes ok: "service_ok sv" and start: "start_enter sid sv = (q, sv')"
  shows "service_ok sv' \<and> request_ok sv' q"
proof (cases "sv_current sv")
  case None
  then have sv': "sv' = sv\<lparr>sv_runs := sv_runs sv @ [new_svc_run sid (sv_clock sv)],
      sv_current := Some (length (sv_runs sv)), sv_log_session := Some sid\<rparr>"
    and q: "q = Waiting_ready (length (sv_runs sv))"
    using start by (auto simp: start_enter_def)
  have "list_all (request_ok sv') (sv_requests sv)"
    by (rule requests_ok_mono [of sv]) (use ok in \<open>auto simp: sv' nth_append service_ok_def\<close>)
  then show ?thesis
    using ok None run_ok_new by (auto simp: sv' q service_ok_def nth_append less_Suc_eq)
next
  case (Some i)
  then have "i < length (sv_runs sv)" using ok by (simp add: service_ok_def)
  then show ?thesis
    using start Some ok run_ok_view [OF service_ok_run [OF ok]]
    by (auto simp: start_enter_def split: if_splits)
qed

lemma start_answer_ok: "service_ok sv \<Longrightarrow> i < length (sv_runs sv) \<Longrightarrow> answer_ok (start_answer i sv)"
  using run_ok_view [of "sv_runs sv ! i"] run_ok_watching_view [of "sv_runs sv ! i"] service_ok_run [of sv i]
  by (auto simp: start_answer_def Let_def split: option.splits)

lemma end_answer_ok: "service_ok sv \<Longrightarrow> i < length (sv_runs sv) \<Longrightarrow> pending_answer a \<Longrightarrow> answer_ok (end_answer i a sv)"
  using run_ok_watched [OF service_ok_run [of sv i]] by (cases a) (auto simp: end_answer_def)

lemma service_step_ok:
  assumes ok: "service_ok sv" and step: "service_step sv sv'"
  shows "service_ok sv'"
  using step
proof cases
  case s_worker
  then show ?thesis using worker_step_ok [OF ok] by simp
next
  case (s_start sid q sw)
  then show ?thesis using service_ok_start [OF ok] service_ok_add by blast
next
  case (s_end sid)
  have "request_ok sv (end_enter sid sv)"
    using ok by (auto simp: end_enter_def service_ok_def split: option.splits)
  then show ?thesis using s_end service_ok_add [OF ok] by simp
next
  case (s_close i)
  then have "request_ok sv (About_to_end i Not_found)" using ok by (simp add: service_ok_def)
  then show ?thesis using s_close service_ok_add [OF ok] by simp
next
  case (s_ready j i)
  then show ?thesis
    using service_ok_request [OF ok, of j] by (auto intro!: service_ok_next [OF ok] start_answer_ok [OF ok])
next
  case (s_late j i)
  then show ?thesis
    using service_ok_request [OF ok, of j] by (auto intro!: service_ok_next [OF ok] simp: start_late_def)
next
  case (s_flags j i a q sw)
  then have i: "i < length (sv_runs sv)" "pending_answer a" using service_ok_request [OF ok, of j] by auto
  have "service_ok (update_run i (end_flags (sv_clock sv)) sv)"
    using i service_ok_run [OF ok i(1)]
    by (intro service_ok_update [OF ok i(1) refl] run_ok_flags)
       (auto simp: end_flags_def left_def enter_def Let_def split: svc_state.splits)
  then show ?thesis
    using s_flags i by (auto simp: end_section_def update_run_def intro!: service_ok_next)
next
  case (s_overdue j i a)
  then have i: "i < length (sv_runs sv)" "pending_answer a" using service_ok_request [OF ok, of j] by auto
  have "service_ok (end_overdue i sv)"
    unfolding end_overdue_def using i service_ok_run [OF ok i(1)]
    by (intro service_ok_update [OF ok i(1) refl] run_ok_overdue) (auto simp: left_def)
  then show ?thesis
    using s_overdue i by (auto simp: end_overdue_def update_run_def intro!: service_ok_next)
next
  case (s_ended j i b a)
  then show ?thesis
    using service_ok_request [OF ok, of j] by (auto intro!: service_ok_next [OF ok])
next
  case (s_answer j i a)
  then show ?thesis
    using service_ok_request [OF ok, of j] by (auto intro!: service_ok_next [OF ok] end_answer_ok [OF ok])
next
  case (s_clock c)
  then show ?thesis
    using ok requests_ok_mono [of sv "sv\<lparr>sv_clock := c\<rparr>"] by (simp add: service_ok_def)
qed

lemma service_ok_new: "service_ok new_service"
  by (simp add: service_ok_def new_service_def)

interpretation services: invariant_system "\<lambda>sv. sv = new_service" service_step service_ok
  by unfold_locales (use service_ok_new in \<open>blast intro: service_step_ok\<close>)+


section \<open>Properties\<close>

text \<open>
  C15. However starts, ends, status reads, shutdown, the clock and the Runs' workers interleave, at
  most one Run has not been let go, and it is the one the service holds; every Run that reads
  \<open>ending\<close> has been told to finish or to stop, or has not opened its Stream yet, or is about to be
  told by its own worker: no end is lost between the requests and the worker.
\<close>

theorem one_run_at_a_time:
  assumes "reach (\<lambda>sv. sv = new_service) service_step sv"
  shows "(\<forall>i<length (sv_runs sv). \<not> left (sv_runs sv ! i) \<longleftrightarrow> sv_current sv = Some i)
    \<and> (\<forall>r\<in>set (sv_runs sv). sr_state r = R_ending \<longrightarrow> told_to_end r)"
proof -
  have ok: "service_ok sv" using assms by (rule services.reach_inv)
  then have "\<forall>i<length (sv_runs sv). \<not> left (sv_runs sv ! i) \<longleftrightarrow> sv_current sv = Some i"
    by (auto simp: service_ok_def)
  moreover have "\<forall>r\<in>set (sv_runs sv). sr_state r = R_ending \<longrightarrow> told_to_end r"
    using ok by (auto simp: service_ok_def list_all_iff run_ok_def)
  ultimately show ?thesis by blast
qed

text \<open>
  What the control API answers is so: in every interleaving the status of the Run can be read
  (no exception while its loop is missing or has not looked), a start answered 200 carries a Run that
  reads \<open>watching\<close> with its Baseline View, an end answered 200 says how far its Run watched, and a
  request whose Run is reported ended finds it ended, drained and no longer held by the service.
\<close>

theorem answers_are_true:
  assumes "reach (\<lambda>sv. sv = new_service) service_step sv"
  shows "svc_status sv \<noteq> Some None
    \<and> (\<forall>a. Done a \<in> set (sv_requests sv) \<longrightarrow> answer_ok a)
    \<and> (\<forall>i a. Has_ended i a \<in> set (sv_requests sv) \<longrightarrow> sr_ended (sv_runs sv ! i) \<and> sv_current sv \<noteq> Some i)"
proof (intro conjI allI impI)
  have ok: "service_ok sv" using assms by (rule services.reach_inv)
  show "svc_status sv \<noteq> Some None"
  proof (cases "sv_current sv")
    case (Some i)
    then have "run_ok (sv_runs sv ! i)" using ok service_ok_run [OF ok] by (simp add: service_ok_def)
    then show ?thesis using Some run_ok_view by (simp add: svc_status_def)
  qed (simp add: svc_status_def)
  show "answer_ok a" if "Done a \<in> set (sv_requests sv)" for a
    using ok that by (auto simp: service_ok_def list_all_iff)
  fix i a assume "Has_ended i a \<in> set (sv_requests sv)"
  then have q: "i < length (sv_runs sv)" "sr_ended (sv_runs sv ! i)"
    using ok by (force simp: service_ok_def list_all_iff)+
  then show "sr_ended (sv_runs sv ! i)" by blast
  have "left (sv_runs sv ! i)" using q service_ok_run [OF ok q(1)] by (simp add: run_ok_def left_def)
  then show "sv_current sv \<noteq> Some i" using ok by (auto simp: service_ok_def)
qed

text \<open>A Run started for Session 7, ended before its Stream opened.\<close>

lemmas step_simps = update_run_def next_request_def add_request_def new_service_def new_svc_run_def
  start_enter_def end_enter_def end_section_def end_flags_def enter_def work_opened_def work_began_def
  work_looked_def watching_def set_ready_def new_loop_def START_TIMEOUT_S_def

abbreviation served :: "service \<Rightarrow> bool" where
  "served sv \<equiv> reach (\<lambda>sv. sv = new_service) service_step sv"

lemma served_new: "served new_service"
  by (rule reach_init) (rule refl)

lemma served_start: "served sv \<Longrightarrow> served (add_request (fst (start_enter sid sv)) (snd (start_enter sid sv)))"
  by (rule reach_step, assumption, rule s_start) (rule prod.collapse [symmetric])

lemma served_flags:
  "served sv \<Longrightarrow> j < length (sv_requests sv) \<Longrightarrow> sv_requests sv ! j = About_to_end i a \<Longrightarrow>
   served (next_request j (fst (end_section i a sv)) (snd (end_section i a sv)))"
  by (rule reach_step, assumption, rule s_flags) (auto simp: prod.collapse)

definition sample_started :: service where
  "sample_started = add_request (fst (start_enter 7 new_service)) (snd (start_enter 7 new_service))"

definition sample_ended_early :: service where
  "sample_ended_early =
     (let sv = add_request (end_enter 7 sample_started) sample_started; e = end_section 0 (Ok_ended 7 None None) sv
      in next_request 1 (fst e) (snd e))"

lemma served_started: "served sample_started"
  unfolding sample_started_def by (rule served_start [OF served_new])

lemma served_ended_early: "served sample_ended_early"
  unfolding sample_ended_early_def Let_def
  by (rule served_flags [OF reach_step [OF served_started s_end]]) (simp_all add: sample_started_def step_simps)

theorem one_run_at_a_time_witness:
  "served sample_ended_early \<and> sr_state (sv_runs sample_ended_early ! 0) = R_ending
    \<and> told_to_end (sv_runs sample_ended_early ! 0) \<and> sv_current sample_ended_early = Some 0"
proof (intro conjI)
  have e: "sr_state (sv_runs sample_ended_early ! 0) = R_ending" "length (sv_runs sample_ended_early) = 1"
    by (simp_all add: sample_ended_early_def sample_started_def step_simps Let_def)
  show "sr_state (sv_runs sample_ended_early ! 0) = R_ending" by (rule e)
  show "told_to_end (sv_runs sample_ended_early ! 0)"
    using one_run_at_a_time [OF served_ended_early] e by (metis less_one nth_mem)
qed (simp_all add: served_ended_early, simp add: sample_ended_early_def sample_started_def step_simps Let_def)


text \<open>The same start, its Run watching.\<close>

definition sample_place :: place where
  "sample_place = \<lparr>pl_at = 5, pl_template_to_picture = ((1, 0, 0), (0, 1, 0), (0, 0, 1))\<rparr>"

definition sample_view :: baseline_view where
  "sample_view = \<lparr>bv_taken_at = 5, bv_picture = \<lparr>pic_width = 640, pic_height = 480\<rparr>,
     bv_template_to_picture = pl_template_to_picture sample_place, bv_targets = [], bv_baseline_marks = []\<rparr>"

definition sample_watching :: service where
  "sample_watching =
     update_run 0 (set_ready W_processing) (update_run 0 (watching sample_view 0 0)
       (update_run 0 (work_looked (Some sample_place) 5) (update_run 0 (work_began False)
         (update_run 0 work_opened sample_started))))"

definition sample_answered :: service where
  "sample_answered = next_request 0 (Done (start_answer 0 sample_watching)) sample_watching"

lemma worker_steps: "steps service_step sv0 sv \<Longrightarrow> worker_step sv sv' \<Longrightarrow> steps service_step sv0 sv'"
  by (rule steps_step) (auto intro: s_worker)

lemma sample_watching_steps: "steps service_step sample_started sample_watching"
proof -
  let ?a = "update_run 0 work_opened sample_started"
  let ?b = "update_run 0 (work_began False) ?a"
  let ?c = "update_run 0 (work_looked (Some sample_place) 5) ?b"
  let ?d = "update_run 0 (watching sample_view 0 0) ?c"
  have "steps service_step sample_started ?a"
    by (rule worker_steps [OF steps_refl w_open]) (simp_all add: sample_started_def step_simps)
  then have "steps service_step sample_started ?b"
    by (rule worker_steps [OF _ w_begin]) (simp_all add: sample_started_def step_simps)
  then have "steps service_step sample_started ?c"
    by (rule worker_steps [OF _ w_look]) (simp_all add: sample_started_def step_simps)
  moreover have "worker_step ?c (update_run 0 (watching sample_view 0 (sv_clock ?c)) ?c)"
    by (rule w_watch [where l = "\<lparr>lp_finish = False, lp_stop = False, lp_registered = Some sample_place, lp_looked = Some 5\<rparr>"])
       (simp_all add: sample_started_def step_simps)
  moreover have "sv_clock ?c = 0" by (simp add: sample_started_def step_simps)
  ultimately have "steps service_step sample_started ?d" by (metis worker_steps)
  then show ?thesis
    unfolding sample_watching_def by (rule worker_steps [OF _ w_ready]) (simp_all add: sample_started_def step_simps)
qed

lemma sample_answered_steps: "steps service_step sample_started sample_answered"
  unfolding sample_answered_def
  by (rule steps_step [OF sample_watching_steps], intro s_ready)
    (simp_all add: sample_watching_def sample_started_def step_simps)

lemma served_answered: "served sample_answered"
  by (rule steps_reach [OF sample_answered_steps served_started])

theorem answers_are_true_witness:
  "served sample_answered \<and> answer_ok (start_answer 0 sample_watching)
    \<and> (\<exists>v. start_answer 0 sample_watching = Ok_run (Some v))"
proof (intro conjI)
  have d: "Done (start_answer 0 sample_watching) \<in> set (sv_requests sample_answered)"
    by (simp add: sample_answered_def sample_watching_def sample_started_def step_simps)
  then show "answer_ok (start_answer 0 sample_watching)"
    using answers_are_true [OF served_answered] by blast
  show "\<exists>v. start_answer 0 sample_watching = Ok_run (Some v)"
    by (simp add: start_answer_def sample_watching_def sample_started_def step_simps run_view_def watched_def Let_def)
qed (rule served_answered)

end
