(* ===== verification/Detection_Wire.thy ===== *)
theory Detection_Wire
  imports Detection_Service Detection_Sync
begin

text \<open>
  The control API between the two processes: what \<open>ImageRecognitionService/detection/service.py\<close>
  writes (\<open>serve\<close>, \<open>_start_body\<close>, the dicts its calls answer) and what
  \<open>WebApp/backend/app/services/detection_client.py\<close> reads of it. \<open>json.dumps\<close>, ISO 8601 and UUID
  texts and the recognition of a stream's URL are parameters; that the backend's decoders read back
  what the service's encoders write (\<open>reads_back\<close>) is what is asked of them.
\<close>

section \<open>What the service writes\<close>

record encoders =
  enc_uuid :: "uuid \<Rightarrow> string"
  enc_time :: "time \<Rightarrow> string"
  enc_text :: "json \<Rightarrow> string"

definition json_point :: "point \<Rightarrow> json" where
  "json_point p = Json_list [Json_number (fst p), Json_number (snd p)]"

definition json_row :: "row3 \<Rightarrow> json" where
  "json_row r = (case r of (a, b, c) \<Rightarrow> Json_list [Json_number a, Json_number b, Json_number c])"

definition json_matrix :: "matrix3 \<Rightarrow> json" where
  "json_matrix h = (case h of (a, b, c) \<Rightarrow> Json_list [json_row a, json_row b, json_row c])"

text \<open>
  The service rounds the times of a place, a Look and the baseline down to a millisecond when it notes
  them (\<open>_at\<close>): those a Run holds are already rounded here, so that what is read back is what was noted.
\<close>

definition json_place :: "encoders \<Rightarrow> place \<Rightarrow> json" where
  "json_place enc p =
     Json_object [(''at'', Json_string (enc_time enc (pl_at p))),
                  (''template_to_picture'', json_matrix (pl_template_to_picture p))]"

definition json_baseline_view :: "encoders \<Rightarrow> baseline_view \<Rightarrow> json" where
  "json_baseline_view enc b =
     Json_object
       [(''taken_at'', Json_string (enc_time enc (bv_taken_at b))),
        (''picture'', Json_object [(''width'', Json_number (of_int (pic_width (bv_picture b)))),
                                   (''height'', Json_number (of_int (pic_height (bv_picture b))))]),
        (''template_to_picture'', json_matrix (bv_template_to_picture b)),
        (''targets'', Json_list (map (\<lambda>outline. Json_list (map json_point outline)) (bv_targets b))),
        (''baseline_marks'', Json_list (map json_point (bv_baseline_marks b)))]"

definition json_opt :: "('a \<Rightarrow> json) \<Rightarrow> 'a option \<Rightarrow> json" where
  "json_opt f x = (case x of None \<Rightarrow> Json_null | Some y \<Rightarrow> f y)"

definition json_watched :: "encoders \<Rightarrow> place option \<times> time option \<Rightarrow> (string \<times> json) list" where
  "json_watched enc w =
     [(''registered'', json_opt (json_place enc) (fst w)),
      (''looked_at'', json_opt (\<lambda>t. Json_string (enc_time enc t)) (snd w))]"

definition json_run_view :: "encoders \<Rightarrow> svc_view \<Rightarrow> json" where
  "json_run_view enc v =
     Json_object
       ([(''session_id'', Json_string (enc_uuid enc (vw_session v))),
         (''state'', Json_string (vw_state v)),
         (''since'', Json_string (enc_time enc (vw_since v))),
         (''baseline_marks'', json_opt (\<lambda>n. Json_number (of_nat n)) (vw_marks v)),
         (''baseline_view'', json_opt (json_baseline_view enc) (vw_baseline v))]
        @ json_watched enc (vw_registered v, vw_looked v))"

definition json_detail :: "string \<Rightarrow> (string \<times> json) list" where
  "json_detail detail = [(''detail'', Json_string detail)]"

text \<open>\<open>_answer\<close>. An exception instead of an answer closes the connection: no response.\<close>

definition send_answer :: "encoders \<Rightarrow> nat \<Rightarrow> json \<Rightarrow> http_response" where
  "send_answer enc status body = \<lparr>rs_status = status, rs_text = enc_text enc body, rs_json = Some body\<rparr>"

fun respond :: "encoders \<Rightarrow> answer \<Rightarrow> http_response option" where
  "respond enc (Ok_run v) = map_option (\<lambda>v. send_answer enc 200 (json_run_view enc v)) v"
| "respond enc (Ok_ended sid b w) =
     map_option (\<lambda>w. send_answer enc 200 (Json_object
       ([(''session_id'', Json_string (enc_uuid enc sid)), (''state'', Json_string ''ended''),
         (''baseline_view'', json_opt (json_baseline_view enc) b)] @ json_watched enc w))) w"
| "respond enc Not_found = Some (send_answer enc 404 (Json_object (json_detail ''no such Run'')))"
| "respond enc (Other_active v) =
     map_option (\<lambda>v. send_answer enc 409 (Json_object
       (json_detail ''another Session's Run is active'' @ [(''run'', json_run_view enc v)]))) v"
| "respond enc (Is_ending v) =
     map_option (\<lambda>v. send_answer enc 409 (Json_object
       (json_detail ''the Session's Run is ending'' @ [(''run'', json_run_view enc v)]))) v"
| "respond enc (Failed_start e) = Some (send_answer enc 502 (Json_object (json_detail e)))"
| "respond enc Start_timed_out =
     Some (send_answer enc 502 (Json_object (json_detail ''not watching within 15 s: no baseline was built'')))"

text \<open>\<open>do_GET\<close> of \<open>/status\<close>.\<close>

definition status_response :: "encoders \<Rightarrow> svc_view option option \<Rightarrow> http_response option" where
  "status_response enc status =
     (case status of
        None \<Rightarrow> Some (send_answer enc 200 (Json_object [(''run'', Json_null)]))
      | Some v \<Rightarrow> map_option (\<lambda>v. send_answer enc 200 (Json_object [(''run'', json_run_view enc v)])) v)"

section \<open>Which call a request is\<close>

datatype api_call = Call_status | Call_start uuid string | Call_end uuid | Refuse nat string

text \<open>
  \<open>_start_body\<close>: \<open>uuid_parse\<close> is \<open>uuid.UUID\<close> of a text and \<open>is_stream\<close> is \<open>nbh._is_stream\<close> of a URL;
  all of \<open>ValueError\<close>, \<open>KeyError\<close>, \<open>TypeError\<close> and \<open>AttributeError\<close> are caught.
\<close>

definition start_body ::
    "(string \<Rightarrow> uuid option) \<Rightarrow> (string \<Rightarrow> bool) \<Rightarrow> json option \<Rightarrow> (uuid \<times> string) option" where
  "start_body uuid_parse is_stream raw =
     (case raw of
        None \<Rightarrow> None
      | Some body \<Rightarrow>
          (case and_then (and_then (subscript body ''session_id'') (uuid_of uuid_parse))
                  (\<lambda>sid. and_then (subscript body ''stream_url'') (\<lambda>url. Inr (sid, url))) of
             Inr (sid, Json_string url) \<Rightarrow> if is_stream url then Some (sid, url) else None
           | _ \<Rightarrow> None))"

definition do_GET :: "string \<Rightarrow> api_call" where
  "do_GET path = (if path = ''/status'' then Call_status else Refuse 404 ''no such resource'')"

definition slash :: char where "slash = CHR ''/''"

text \<open>\<open>path.strip("/").split("/")\<close>.\<close>

definition path_parts :: "string \<Rightarrow> string list" where
  "path_parts path =
     split_on slash (rev (dropWhile (\<lambda>c. c = slash) (rev (dropWhile (\<lambda>c. c = slash) path))))"

definition do_POST ::
    "(string \<Rightarrow> uuid option) \<Rightarrow> (string \<Rightarrow> bool) \<Rightarrow> string \<Rightarrow> json option \<Rightarrow> api_call" where
  "do_POST uuid_parse is_stream path raw =
     (let parts = path_parts path in
      if parts = [''runs''] then
        (case start_body uuid_parse is_stream raw of
           Some (sid, url) \<Rightarrow> Call_start sid url
         | None \<Rightarrow> Refuse 400 (''a JSON body with the Session's UUID as ''
             @ ''session_id and an rtsp:// or rtsps:// stream_url''))
      else if length parts = 3 \<and> parts ! 0 = ''runs'' \<and> parts ! 2 = ''end'' then
        (case uuid_parse (parts ! 1) of
           Some sid \<Rightarrow> Call_end sid
         | None \<Rightarrow> Refuse 404 ''no such Run'')
      else Refuse 404 ''no such resource'')"

section \<open>What the backend reads of it\<close>

definition reads_back :: "encoders \<Rightarrow> decoders \<Rightarrow> bool" where
  "reads_back enc dec \<longleftrightarrow>
     (\<forall>sid. dec_uuid dec (enc_uuid enc sid) = Some sid)
     \<and> (\<forall>t. dec_time dec (Json_string (enc_time enc t)) = Some t)
     \<and> (\<forall>p. dec_place dec (json_place enc p) = Some p)
     \<and> (\<forall>b. dec_view dec (json_baseline_view enc b) = Some b)"

definition read_run :: "uuid \<Rightarrow> string \<Rightarrow> baseline_view option \<Rightarrow> place option \<times> time option \<Rightarrow> client_run" where
  "read_run sid state b w =
     \<lparr>cr_session_id = sid, cr_state = Json_string state, cr_baseline_view = b, cr_registered = fst w,
      cr_looked_at = snd w\<rparr>"

definition read_view :: "svc_view \<Rightarrow> client_run" where
  "read_view v = read_run (vw_session v) (vw_state v) (vw_baseline v) (vw_registered v, vw_looked v)"

lemma optional_json:
  assumes "\<And>x. decode (f x) = Some x" "\<And>x. f x \<noteq> Json_null"
  shows "optional decode (json_opt f x) = Inr x"
  using assms by (simp add: optional_def json_opt_def split: option.split)

lemma json_not_null [simp]: "json_place enc p \<noteq> Json_null" "json_baseline_view enc b \<noteq> Json_null"
  "json_run_view enc v \<noteq> Json_null"
  by (simp_all add: json_place_def json_baseline_view_def json_run_view_def)

lemma run_of_fields:
  assumes "reads_back enc dec"
    and "map_of kvs ''baseline_view'' = Some (json_opt (json_baseline_view enc) b)"
    and "map_of kvs ''registered'' = Some (json_opt (json_place enc) reg)"
    and "map_of kvs ''looked_at'' = Some (json_opt (\<lambda>t. Json_string (enc_time enc t)) looked)"
    and "map_of kvs ''session_id'' = Some (Json_string (enc_uuid enc sid))"
    and "map_of kvs ''state'' = Some (Json_string st)"
  shows "run_of dec (Json_object kvs) = Inr (read_run sid st b (reg, looked))"
proof -
  have "optional (dec_view dec) (json_opt (json_baseline_view enc) b) = Inr b"
    "optional (dec_place dec) (json_opt (json_place enc) reg) = Inr reg"
    "optional (dec_time dec) (json_opt (\<lambda>t. Json_string (enc_time enc t)) looked) = Inr looked"
    "dec_uuid dec (enc_uuid enc sid) = Some sid"
    using assms(1) by (auto simp: reads_back_def intro!: optional_json)
  then show ?thesis using assms(2-6) by (simp add: run_of_def read_run_def)
qed

lemma run_of_view: "reads_back enc dec \<Longrightarrow> run_of dec (json_run_view enc v) = Inr (read_view v)"
  unfolding json_run_view_def read_view_def
  by (rule run_of_fields) (simp_all add: json_watched_def)

lemma run_of_ended:
  "reads_back enc dec \<Longrightarrow>
   run_of dec (Json_object ([(''session_id'', Json_string (enc_uuid enc sid)), (''state'', Json_string ''ended''),
     (''baseline_view'', json_opt (json_baseline_view enc) b)] @ json_watched enc w))
   = Inr (read_run sid ''ended'' b w)"
  by (cases w) (auto simp: json_watched_def intro!: run_of_fields)

section \<open>Every answer, read\<close>

lemma answers_read:
  assumes "reads_back enc dec"
  shows "client_start_run dec (respond enc (Ok_run (Some v))) = Answered (Inr (read_view v))"
    "client_start_run dec (respond enc (Other_active (Some v))) =
       Answered (Inl \<lparr>rf_status = 409, rf_detail = Json_string ''another Session's Run is active'',
         rf_holder = Some (vw_session v)\<rparr>)"
    "client_start_run dec (respond enc (Is_ending (Some v))) =
       Answered (Inl \<lparr>rf_status = 409, rf_detail = Json_string ''the Session's Run is ending'',
         rf_holder = Some (vw_session v)\<rparr>)"
    "client_start_run dec (respond enc (Failed_start e)) =
       Answered (Inl \<lparr>rf_status = 502, rf_detail = Json_string e, rf_holder = None\<rparr>)"
    "client_start_run dec (respond enc Start_timed_out) =
       Answered (Inl \<lparr>rf_status = 502, rf_detail = Json_string ''not watching within 15 s: no baseline was built'',
         rf_holder = None\<rparr>)"
    "client_end_run dec (respond enc Not_found) = Answered None"
    "client_end_run dec (respond enc (Ok_ended sid b (Some w))) = Answered (Some (read_run sid ''ended'' b w))"
proof -
  have holder: "and_then (subscript (json_run_view enc v) ''session_id'') (uuid_of (dec_uuid dec)) = Inr (vw_session v)"
    using assms by (simp add: json_run_view_def reads_back_def)
  show "client_start_run dec (respond enc (Other_active (Some v))) =
      Answered (Inl \<lparr>rf_status = 409, rf_detail = Json_string ''another Session's Run is active'',
         rf_holder = Some (vw_session v)\<rparr>)"
    "client_start_run dec (respond enc (Is_ending (Some v))) =
       Answered (Inl \<lparr>rf_status = 409, rf_detail = Json_string ''the Session's Run is ending'',
         rf_holder = Some (vw_session v)\<rparr>)"
    using holder
    by (simp_all add: client_start_run_def send_answer_def is_error_def refusal_detail_def refusal_holder_def
        json_body_def json_detail_def and_then_def split: sum.splits)
qed (use assms run_of_view [OF assms] run_of_ended [OF assms] in
  \<open>simp_all add: client_start_run_def client_end_run_def send_answer_def is_error_def is_success_def
     refusal_detail_def refusal_holder_def json_body_def json_detail_def\<close>)

lemma status_read:
  assumes "reads_back enc dec"
  shows "client_status dec (status_response enc None) = Answered None"
    "client_status dec (status_response enc (Some (Some v))) = Answered (Some (read_view v))"
  using run_of_view [OF assms]
  by (simp_all add: client_status_def status_response_def send_answer_def is_success_def json_body_def)

section \<open>The Session a request is about\<close>

text \<open>A Run of the Session that has watched, and one that has ended.\<close>

definition has_watched :: "uuid \<Rightarrow> service \<Rightarrow> bool" where
  "has_watched sid sv \<longleftrightarrow> (\<exists>i<length (sv_runs sv). sr_session (sv_runs sv ! i) = sid \<and> sr_view (sv_runs sv ! i) \<noteq> None)"

definition has_ended :: "uuid \<Rightarrow> service \<Rightarrow> bool" where
  "has_ended sid sv \<longleftrightarrow> (\<exists>i<length (sv_runs sv).
     sr_session (sv_runs sv ! i) = sid \<and> sr_ended (sv_runs sv ! i) \<and> sv_current sv \<noteq> Some i)"

text \<open>A start of \<open>sid\<close> in progress or answered, and an end of \<open>sid\<close>.\<close>

fun about_start :: "uuid \<Rightarrow> service \<Rightarrow> request \<Rightarrow> bool" where
  "about_start sid sv (Waiting_ready i) \<longleftrightarrow> i < length (sv_runs sv) \<and> sr_session (sv_runs sv ! i) = sid"
| "about_start sid sv (About_to_end i a) \<longleftrightarrow> a = Start_timed_out"
| "about_start sid sv (Waiting_ended i b a) \<longleftrightarrow> a = Start_timed_out"
| "about_start sid sv (Has_ended i a) \<longleftrightarrow> a = Start_timed_out"
| "about_start sid sv (Done a) \<longleftrightarrow>
     (case a of
        Ok_run (Some v) \<Rightarrow> vw_session v = sid \<and> vw_state v = ''watching'' \<and> vw_baseline v \<noteq> None \<and> has_watched sid sv
      | Other_active (Some v) \<Rightarrow> vw_session v \<noteq> sid
      | Is_ending (Some v) \<Rightarrow> vw_session v = sid
      | Failed_start _ \<Rightarrow> True
      | Start_timed_out \<Rightarrow> True
      | _ \<Rightarrow> False)"

fun about_end :: "uuid \<Rightarrow> service \<Rightarrow> request \<Rightarrow> bool" where
  "about_end sid sv (Waiting_ready i) \<longleftrightarrow> False"
| "about_end sid sv (About_to_end i a) \<longleftrightarrow>
     a = Ok_ended sid None None \<and> i < length (sv_runs sv) \<and> sr_session (sv_runs sv ! i) = sid"
| "about_end sid sv (Waiting_ended i b a) \<longleftrightarrow>
     a = Ok_ended sid None None \<and> i < length (sv_runs sv) \<and> sr_session (sv_runs sv ! i) = sid"
| "about_end sid sv (Has_ended i a) \<longleftrightarrow>
     a = Ok_ended sid None None \<and> i < length (sv_runs sv) \<and> sr_session (sv_runs sv ! i) = sid"
| "about_end sid sv (Done a) \<longleftrightarrow>
     (case a of
        Ok_ended s b (Some w) \<Rightarrow> s = sid \<and> has_ended sid sv
      | Not_found \<Rightarrow> True
      | _ \<Rightarrow> False)"

text \<open>What no step undoes: a Run keeps its Session and its Baseline View, and once ended stays so.\<close>

definition kept :: "service \<Rightarrow> service \<Rightarrow> bool" where
  "kept sv sv' \<longleftrightarrow> length (sv_runs sv) \<le> length (sv_runs sv')
     \<and> (\<forall>i<length (sv_runs sv). sr_session (sv_runs sv' ! i) = sr_session (sv_runs sv ! i)
          \<and> (sr_ended (sv_runs sv ! i) \<longrightarrow> sr_ended (sv_runs sv' ! i))
          \<and> (sr_view (sv_runs sv ! i) \<noteq> None \<longrightarrow> sr_view (sv_runs sv' ! i) \<noteq> None))"

lemma kept_refl: "kept sv sv"
  by (simp add: kept_def)

lemma kept_runs: "sv_runs sv' = sv_runs sv \<Longrightarrow> kept sv sv'"
  by (simp add: kept_def)

lemma kept_same [simp]:
  "kept sv (next_request j q sv') = kept sv sv'" "kept sv (add_request q sv') = kept sv sv'"
  "kept sv (sv'\<lparr>sv_clock := c\<rparr>) = kept sv sv'"
  "kept sv (sv'\<lparr>sv_current := x, sv_log_session := y\<rparr>) = kept sv sv'"
  by (simp_all add: kept_def next_request_def add_request_def)

lemma kept_update:
  assumes "\<And>r. sr_session (f r) = sr_session r" "\<And>r. sr_ended r \<Longrightarrow> sr_ended (f r)"
    "\<And>r. sr_view r \<noteq> None \<Longrightarrow> sr_view (f r) \<noteq> None"
  shows "kept sv (update_run i f sv)"
  unfolding kept_def
proof (intro conjI allI impI)
  fix k assume k: "k < length (sv_runs sv)"
  show "sr_session (sv_runs (update_run i f sv) ! k) = sr_session (sv_runs sv ! k)"
    using k assms(1) by (cases "k = i") (simp_all add: update_run_def)
  show "sr_ended (sv_runs (update_run i f sv) ! k)" if "sr_ended (sv_runs sv ! k)"
    using k that assms(2) by (cases "k = i") (simp_all add: update_run_def)
  show "sr_view (sv_runs (update_run i f sv) ! k) \<noteq> None" if "sr_view (sv_runs sv ! k) \<noteq> None"
    using k that assms(3) by (cases "k = i") (simp_all add: update_run_def)
qed (simp add: update_run_def)

lemma end_flags_keeps [simp]:
  "sr_session (end_flags now r) = sr_session r" "sr_ended (end_flags now r) = sr_ended r"
  "sr_view (end_flags now r) = sr_view r"
  by (simp_all add: end_flags_def Let_def enter_def split: svc_state.split)

lemma worker_step_kept: "worker_step sv sv' \<Longrightarrow> kept sv sv'"
  by (erule worker_stepE)
    (auto intro!: kept_update simp: work_left_def Let_def work_opened_def work_began_def
      work_looked_def watching_def set_ready_def work_leaves_def set_ended_def enter_def)

lemma kept_start: "start_enter sid sv = (q, sv') \<Longrightarrow> kept sv sv'"
  by (auto simp: kept_def start_enter_def nth_append split: option.splits if_splits)

lemma service_step_kept: "service_step sv sv' \<Longrightarrow> kept sv sv'"
  by (erule service_stepE)
    (auto simp: end_section_def end_overdue_def kept_refl intro: worker_step_kept kept_start kept_update)

text \<open>How a request moves in a step.\<close>

inductive moved :: "service \<Rightarrow> request \<Rightarrow> request \<Rightarrow> bool" for sv where
  "moved sv q q"
| "moved sv (Waiting_ready i) (Done (start_answer i sv))"
| "moved sv (Waiting_ready i) (About_to_end i Start_timed_out)"
| "moved sv (About_to_end i a) (Waiting_ended i b a)"
| "moved sv (Waiting_ended i b a) (Waiting_ended i b' a)"
| "sr_ended (sv_runs sv ! i) \<Longrightarrow> moved sv (Waiting_ended i b a) (Has_ended i a)"
| "moved sv (Has_ended i a) (Done (end_answer i a sv))"

inductive_cases movedE: "moved sv q q'"

lemma worker_step_requests: "worker_step sv sv' \<Longrightarrow> sv_requests sv' = sv_requests sv"
  by (erule worker_stepE) (auto simp: update_run_def work_left_def Let_def)

lemma start_enter_requests: "start_enter sid sv = (q, sv') \<Longrightarrow> sv_requests sv' = sv_requests sv"
  by (auto simp: start_enter_def split: option.splits if_splits)

lemma next_request_moved:
  assumes "moved sv (sv_requests sv ! k) q" "sv_requests sv' = sv_requests sv" "j < length (sv_requests sv)"
  shows "j < length (sv_requests (next_request k q sv'))
    \<and> moved sv (sv_requests sv ! j) (sv_requests (next_request k q sv') ! j)"
  using assms by (cases "j = k") (simp_all add: next_request_def moved.intros(1))

lemma add_request_moved:
  assumes "sv_requests sv' = sv_requests sv" "j < length (sv_requests sv)"
  shows "j < length (sv_requests (add_request q sv'))
    \<and> moved sv (sv_requests sv ! j) (sv_requests (add_request q sv') ! j)"
  using assms by (simp add: add_request_def nth_append moved.intros(1))

lemma update_run_requests [simp]: "sv_requests (update_run i f sv) = sv_requests sv"
  by (simp add: update_run_def)

lemma service_step_moved:
  assumes "service_step sv sv'" "j < length (sv_requests sv)"
  shows "j < length (sv_requests sv') \<and> moved sv (sv_requests sv ! j) (sv_requests sv' ! j)"
  using assms(1)
proof cases
  case s_worker
  then show ?thesis using assms(2) by (simp add: worker_step_requests moved.intros(1))
next
  case (s_start sid q sv1)
  then show ?thesis using assms(2) add_request_moved [OF start_enter_requests] by simp
next
  case (s_end sid)
  then show ?thesis using assms(2) add_request_moved by simp
next
  case (s_close i)
  then show ?thesis using assms(2) add_request_moved by simp
next
  case (s_ready k i)
  show ?thesis
    unfolding s_ready(1) by (rule next_request_moved) (use s_ready assms(2) in \<open>simp_all add: moved.intros\<close>)
next
  case (s_late k i)
  show ?thesis
    unfolding s_late(1) by (rule next_request_moved) (use s_late assms(2) in \<open>simp_all add: start_late_def moved.intros\<close>)
next
  case (s_flags k i a q sv1)
  then have q: "q = Waiting_ended i (sr_state (sv_runs sv ! i) = R_watching) a" and r: "sv_requests sv1 = sv_requests sv"
    by (auto simp: end_section_def)
  show ?thesis
    unfolding s_flags(1) q
    by (rule next_request_moved) (use s_flags(2,3) r assms(2) in \<open>simp_all add: moved.intros\<close>)
next
  case (s_overdue k i a)
  show ?thesis
    unfolding s_overdue(1) by (rule next_request_moved) (use s_overdue assms(2) in \<open>simp_all add: end_overdue_def moved.intros\<close>)
next
  case (s_ended k i b a)
  show ?thesis
    unfolding s_ended(1) by (rule next_request_moved) (use s_ended assms(2) in \<open>simp_all add: moved.intros\<close>)
next
  case (s_answer k i a)
  show ?thesis
    unfolding s_answer(1) by (rule next_request_moved) (use s_answer assms(2) in \<open>simp_all add: moved.intros\<close>)
next
  case (s_clock c)
  then show ?thesis using assms(2) by (simp add: moved.intros)
qed

lemma has_watched_kept: "kept sv sv' \<Longrightarrow> has_watched sid sv \<Longrightarrow> has_watched sid sv'"
  unfolding has_watched_def kept_def by (metis order_less_le_trans)

lemma about_start_kept: "kept sv sv' \<Longrightarrow> about_start sid sv q \<Longrightarrow> about_start sid sv' q"
  by (cases q) (auto simp: kept_def has_watched_kept split: answer.splits option.splits)

lemma ended_not_current:
  "service_ok sv \<Longrightarrow> i < length (sv_runs sv) \<Longrightarrow> sr_ended (sv_runs sv ! i) \<Longrightarrow> sv_current sv \<noteq> Some i"
  using service_ok_run [of sv i] by (auto simp: service_ok_def run_ok_def left_def)

lemma has_ended_kept: "kept sv sv' \<Longrightarrow> service_ok sv' \<Longrightarrow> has_ended sid sv \<Longrightarrow> has_ended sid sv'"
  unfolding has_ended_def
proof (elim exE conjE)
  fix i assume "kept sv sv'" "service_ok sv'" "i < length (sv_runs sv)" "sr_session (sv_runs sv ! i) = sid"
    "sr_ended (sv_runs sv ! i)"
  moreover from this have "i < length (sv_runs sv')" "sr_ended (sv_runs sv' ! i)" by (auto simp: kept_def)
  ultimately show "\<exists>i<length (sv_runs sv'). sr_session (sv_runs sv' ! i) = sid \<and> sr_ended (sv_runs sv' ! i)
      \<and> sv_current sv' \<noteq> Some i"
    using ended_not_current [of sv' i] by (intro exI [of _ i]) (simp add: kept_def)
qed

lemma about_end_kept:
  "kept sv sv' \<Longrightarrow> service_ok sv' \<Longrightarrow> about_end sid sv q \<Longrightarrow> about_end sid sv' q"
  by (cases q) (auto simp: kept_def has_ended_kept split: answer.splits option.splits)

lemma run_view_session: "run_view r = Some v \<Longrightarrow> vw_session v = sr_session r"
  by (auto simp: run_view_def)

lemma about_start_moved:
  assumes ok: "service_ok sv" and "moved sv q q'" "about_start sid sv q"
  shows "about_start sid sv q'"
  using assms(2)
proof cases
  case (2 i)
  then have i: "i < length (sv_runs sv)" "sr_session (sv_runs sv ! i) = sid" using assms(3) by auto
  have "sr_state (sv_runs sv ! i) = R_watching \<Longrightarrow> has_watched sid sv"
    using i service_ok_run [OF ok i(1)] by (auto simp: has_watched_def run_ok_def)
  moreover from start_answer_ok [OF ok i(1)] have "answer_ok (start_answer i sv)" .
  ultimately show ?thesis
    using 2 i by (auto simp: start_answer_def Let_def split: option.splits if_splits dest: run_view_session)
qed (use assms(3) in \<open>auto simp: end_answer_def\<close>)

lemma about_end_moved:
  assumes ok: "service_ok sv" and "moved sv q q'" "about_end sid sv q" and q: "request_ok sv q"
  shows "about_end sid sv q'"
  using assms(2)
proof cases
  case (7 i a)
  then have i: "a = Ok_ended sid None None" "i < length (sv_runs sv)" "sr_session (sv_runs sv ! i) = sid"
    "sr_ended (sv_runs sv ! i)"
    using assms(3) q by auto
  then have "has_ended sid sv" using ended_not_current [OF ok] by (auto simp: has_ended_def)
  moreover have "watched (sv_runs sv ! i) \<noteq> None" using service_ok_run [OF ok i(2)] by (rule run_ok_watched)
  ultimately show ?thesis using 7 i by (auto simp: end_answer_def)
qed (use assms(3) in auto)

lemma about_start_step:
  assumes "service_ok sv" "service_step sv sv'" "j < length (sv_requests sv)"
    "about_start sid sv (sv_requests sv ! j)"
  shows "j < length (sv_requests sv') \<and> about_start sid sv' (sv_requests sv' ! j)"
  using service_step_moved [OF assms(2,3)] about_start_moved [OF assms(1) _ assms(4)]
    about_start_kept [OF service_step_kept [OF assms(2)]] by blast

lemma about_end_step:
  assumes "service_ok sv" "service_step sv sv'" "j < length (sv_requests sv)"
    "about_end sid sv (sv_requests sv ! j)"
  shows "j < length (sv_requests sv') \<and> about_end sid sv' (sv_requests sv' ! j)"
  using service_step_moved [OF assms(2,3)] about_end_moved [OF assms(1) _ assms(4) service_ok_request [OF assms(1,3)]]
    about_end_kept [OF service_step_kept [OF assms(2)] service_step_ok [OF assms(1,2)]] by blast

lemma about_start_steps:
  assumes "steps service_step sv sv'" "service_ok sv" "j < length (sv_requests sv)"
    "about_start sid sv (sv_requests sv ! j)"
  shows "j < length (sv_requests sv') \<and> about_start sid sv' (sv_requests sv' ! j) \<and> service_ok sv'"
  using assms
proof (induction rule: steps.induct)
  case (steps_step s t u)
  then have t: "j < length (sv_requests t)" "about_start sid t (sv_requests t ! j)" "service_ok t" by auto
  from about_start_step [OF t(3) steps_step.hyps(2) t(1,2)] service_step_ok [OF t(3) steps_step.hyps(2)]
  show ?case by blast
qed simp

lemma about_end_steps:
  assumes "steps service_step sv sv'" "service_ok sv" "j < length (sv_requests sv)"
    "about_end sid sv (sv_requests sv ! j)"
  shows "j < length (sv_requests sv') \<and> about_end sid sv' (sv_requests sv' ! j) \<and> service_ok sv'"
  using assms
proof (induction rule: steps.induct)
  case (steps_step s t u)
  then have t: "j < length (sv_requests t)" "about_end sid t (sv_requests t ! j)" "service_ok t" by auto
  from about_end_step [OF t(3) steps_step.hyps(2) t(1,2)] service_step_ok [OF t(3) steps_step.hyps(2)]
  show ?case by blast
qed simp

lemma about_start_enter:
  assumes ok: "service_ok sv" and q: "start_enter sid sv = (q, sv')"
  shows "about_start sid (add_request q sv') q"
proof (cases "sv_current sv")
  case None
  then show ?thesis using q by (auto simp: start_enter_def add_request_def new_svc_run_def)
next
  case (Some i)
  then have i: "i < length (sv_runs sv)" using ok by (simp add: service_ok_def)
  obtain v where v: "run_view (sv_runs sv ! i) = Some v" using run_ok_view [OF service_ok_run [OF ok i]] by auto
  then show ?thesis
    using q Some i run_view_session [OF v] by (auto simp: start_enter_def add_request_def split: if_splits)
qed

lemma about_end_enter: "service_ok sv \<Longrightarrow> about_end sid (add_request (end_enter sid sv) sv) (end_enter sid sv)"
  by (auto simp: end_enter_def add_request_def service_ok_def split: option.splits)

section \<open>Encoders and decoders that agree\<close>

text \<open>
  Decimal texts for identifiers and times, and decoders that take the dicts of the service apart, as
  Pydantic does: an instance of \<open>reads_back\<close>.
\<close>

definition decimal_encoders :: encoders where
  "decimal_encoders = \<lparr>enc_uuid = show_nat, enc_time = show_int, enc_text = \<lambda>_. []\<rparr>"

definition read_int :: "string \<Rightarrow> int" where
  "read_int s = (if take 1 s = ''-'' then - int (digits_value (drop 1 s)) else int (digits_value s))"

fun read_time :: "json \<Rightarrow> time option" where
  "read_time (Json_string s) = Some (read_int s)"
| "read_time _ = None"

fun read_point :: "json \<Rightarrow> point option" where
  "read_point (Json_list [Json_number a, Json_number b]) = Some (a, b)"
| "read_point _ = None"

fun read_row :: "json \<Rightarrow> row3 option" where
  "read_row (Json_list [Json_number a, Json_number b, Json_number c]) = Some (a, b, c)"
| "read_row _ = None"

definition opt_bind :: "'a option \<Rightarrow> ('a \<Rightarrow> 'b option) \<Rightarrow> 'b option" where
  "opt_bind x f = (case x of None \<Rightarrow> None | Some y \<Rightarrow> f y)"

fun read_matrix :: "json \<Rightarrow> matrix3 option" where
  "read_matrix (Json_list [a, b, c]) =
     opt_bind (read_row a) (\<lambda>a. opt_bind (read_row b) (\<lambda>b. map_option (\<lambda>c. (a, b, c)) (read_row c)))"
| "read_matrix _ = None"

fun read_all :: "(json \<Rightarrow> 'a option) \<Rightarrow> json list \<Rightarrow> 'a list option" where
  "read_all f [] = Some []"
| "read_all f (x # xs) = opt_bind (f x) (\<lambda>y. map_option (\<lambda>ys. y # ys) (read_all f xs))"

fun read_list :: "(json \<Rightarrow> 'a option) \<Rightarrow> json \<Rightarrow> 'a list option" where
  "read_list f (Json_list xs) = read_all f xs"
| "read_list f _ = None"

fun read_picture :: "json \<Rightarrow> picture option" where
  "read_picture (Json_object [(_, Json_number w), (_, Json_number h)]) =
     Some \<lparr>pic_width = \<lfloor>w\<rfloor>, pic_height = \<lfloor>h\<rfloor>\<rparr>"
| "read_picture _ = None"

fun read_place :: "json \<Rightarrow> place option" where
  "read_place (Json_object [(_, at'), (_, h)]) =
     opt_bind (read_time at') (\<lambda>t. map_option (\<lambda>h. \<lparr>pl_at = t, pl_template_to_picture = h\<rparr>) (read_matrix h))"
| "read_place _ = None"

fun read_baseline :: "json \<Rightarrow> baseline_view option" where
  "read_baseline (Json_object [(_, t), (_, p), (_, h), (_, targets), (_, marks)]) =
     opt_bind (read_time t) (\<lambda>t. opt_bind (read_picture p) (\<lambda>p. opt_bind (read_matrix h) (\<lambda>h.
     opt_bind (read_list (read_list read_point) targets) (\<lambda>targets.
     map_option (\<lambda>marks. \<lparr>bv_taken_at = t, bv_picture = p, bv_template_to_picture = h, bv_targets = targets,
       bv_baseline_marks = marks\<rparr>) (read_list read_point marks)))))"
| "read_baseline _ = None"

definition plain_decoders :: decoders where
  "plain_decoders =
     \<lparr>dec_uuid = Some \<circ> digits_value, dec_view = read_baseline, dec_place = read_place, dec_time = read_time\<rparr>"

lemma opt_bind_Some [simp]: "opt_bind (Some x) f = f x"
  by (simp add: opt_bind_def)

lemma read_int_show [simp]: "read_int (show_int t) = t"
proof (cases "t < 0")
  case False
  have "take 1 (show_nat (nat t)) \<noteq> ''-''"
  proof
    assume "take 1 (show_nat (nat t)) = ''-''"
    then obtain s where "show_nat (nat t) = CHR ''-'' # s" by (cases "show_nat (nat t)") simp_all
    with show_nat_digits [of "CHR ''-''" "nat t"] show False by (simp add: is_digit_def)
  qed
  with False show ?thesis by (simp add: read_int_def show_int_def)
qed (simp add: read_int_def show_int_def)

lemma read_point_json [simp]: "read_point (json_point p) = Some p"
  by (simp add: json_point_def)

lemma read_matrix_json [simp]: "read_matrix (json_matrix h) = Some h"
  by (cases h) (auto simp: json_matrix_def json_row_def split: prod.split)

lemma read_all_map: "(\<And>x. f (g x) = Some x) \<Longrightarrow> read_all f (map g xs) = Some xs"
  by (induction xs) simp_all

lemma decimal_reads_back: "reads_back decimal_encoders plain_decoders"
  by (simp add: reads_back_def decimal_encoders_def plain_decoders_def json_place_def
      json_baseline_view_def read_all_map)

section \<open>Properties\<close>

text \<open>What a start's answer should make the Session read.\<close>

fun detection_for :: "answer \<Rightarrow> detection option" where
  "detection_for (Ok_run _) = Some WATCHING"
| "detection_for (Other_active _) =
     Some (detection_of Not_watching (Some Other_session) (Some ''another Session's Run is active''))"
| "detection_for (Is_ending _) = Some (detection_of Not_watching None (Some ''the Session's Run is ending''))"
| "detection_for (Failed_start e) = Some (detection_of Not_watching (Some Stream_failed) (Some e))"
| "detection_for Start_timed_out =
     Some (detection_of Not_watching (Some Stream_failed) (Some ''not watching within 15 s: no baseline was built''))"
| "detection_for _ = None"

text \<open>
  C16. However the service's requests and workers interleave, the answer to a start of a Session, sent
  as JSON and read by the backend, makes the Session read exactly what the service answered: watching
  when its own Run is, with that Run read back and its Baseline View with it; another Session's Run
  only when the Run in the way is another's; its own Run ending; or the stream's failure with its
  reason. Reading it never raises.
\<close>

theorem start_is_read_as_answered:
  assumes "reads_back enc dec" "reach (\<lambda>sv. sv = new_service) service_step sv"
    and "start_enter sid sv = (q, sv1)" "steps service_step (add_request q sv1) sv'"
    and "sv_requests sv' ! length (sv_requests sv) = Done a"
  shows "watch_result sid (client_start_run dec (respond enc a)) = detection_for a
    \<and> detection_for a \<noteq> None
    \<and> (detection_for a = Some WATCHING \<longrightarrow>
         (\<exists>run. client_start_run dec (respond enc a) = Answered (Inr run) \<and> cr_session_id run = sid
            \<and> is_state ''watching'' run \<and> cr_baseline_view run \<noteq> None))"
proof -
  have ok: "service_ok sv" using assms(2) by (rule services.reach_inv)
  have "service_ok (add_request q sv1)"
    using service_step_ok [OF ok s_start [OF assms(3)]] .
  moreover have "sv_requests (add_request q sv1) ! length (sv_requests sv) = q"
    "length (sv_requests sv) < length (sv_requests (add_request q sv1))"
    using start_enter_requests [OF assms(3)] by (simp_all add: add_request_def nth_append)
  ultimately have "about_start sid sv' (Done a)"
    using about_start_steps [OF assms(4), of "length (sv_requests sv)" sid] about_start_enter [OF ok assms(3)]
      assms(5) by simp
  then consider v where "a = Ok_run (Some v)" "vw_session v = sid" "vw_state v = ''watching''" "vw_baseline v \<noteq> None"
    | v where "a = Other_active (Some v)" "vw_session v \<noteq> sid" | v where "a = Is_ending (Some v)" "vw_session v = sid"
    | e where "a = Failed_start e" | "a = Start_timed_out"
    by (auto split: answer.splits option.splits)
  then show ?thesis
    by cases (simp_all del: respond.simps add: answers_read [OF assms(1)] watch_result_def read_view_def read_run_def is_state_def
        WATCHING_def detection_of_def)
qed

theorem start_is_read_as_answered_witness:
  "watch_result 7 (client_start_run plain_decoders (respond decimal_encoders (start_answer 0 sample_watching)))
   = Some WATCHING"
proof -
  have q: "start_enter 7 new_service = (fst (start_enter 7 new_service), snd (start_enter 7 new_service))" by simp
  have "sv_requests sample_answered ! length (sv_requests new_service) = Done (start_answer 0 sample_watching)"
    by (simp add: sample_answered_def sample_watching_def sample_started_def step_simps)
  from start_is_read_as_answered [OF decimal_reads_back served_new q
      sample_answered_steps [unfolded sample_started_def] this]
  show ?thesis
    by (simp add: start_answer_def sample_watching_def sample_started_def step_simps Let_def)
qed

text \<open>
  However the service's requests and workers interleave, the answer to an end of a Session is read
  by the backend either as no such Run, or as the ended Run of that Session; and then a Run of that
  Session has ended, with its posts drained, and is no longer held. No other reading and no exception
  is possible, so an end the backend takes as confirmed is one.
\<close>

theorem confirmed_end_has_ended:
  assumes "reads_back enc dec" "reach (\<lambda>sv. sv = new_service) service_step sv"
    and "steps service_step (add_request (end_enter sid sv) sv) sv'"
    and "sv_requests sv' ! length (sv_requests sv) = Done a"
  shows "client_end_run dec (respond enc a) = Answered None
    \<or> (\<exists>run. client_end_run dec (respond enc a) = Answered (Some run) \<and> cr_session_id run = sid
         \<and> is_state ''ended'' run \<and> has_ended sid sv')"
proof -
  have ok: "service_ok sv" using assms(2) by (rule services.reach_inv)
  have "service_ok (add_request (end_enter sid sv) sv)" using service_step_ok [OF ok s_end] .
  moreover have "sv_requests (add_request (end_enter sid sv) sv) ! length (sv_requests sv) = end_enter sid sv"
    "length (sv_requests sv) < length (sv_requests (add_request (end_enter sid sv) sv))"
    by (simp_all add: add_request_def nth_append)
  ultimately have "about_end sid sv' (Done a)"
    using about_end_steps [OF assms(3), of "length (sv_requests sv)" sid] about_end_enter [OF ok] assms(4) by simp
  then consider "a = Not_found" | b w where "a = Ok_ended sid b (Some w)" "has_ended sid sv'"
    by (auto split: answer.splits option.splits)
  then show ?thesis
    by cases (simp_all del: respond.simps add: answers_read [OF assms(1)] read_run_def is_state_def)
qed

theorem confirmed_end_has_ended_witness:
  "client_end_run plain_decoders (respond decimal_encoders Not_found) = Answered None"
proof -
  have "sv_requests (add_request (end_enter 7 new_service) new_service) ! length (sv_requests new_service) = Done Not_found"
    by (simp add: step_simps)
  from confirmed_end_has_ended [OF decimal_reads_back served_new steps_refl this]
  show ?thesis by (auto simp: has_ended_def step_simps)
qed

text \<open>The paths and bodies the client sends are the calls they mean.\<close>

lemma client_requests_are_calls:
  assumes "reads_back enc dec" "slash \<notin> set (enc_uuid enc sid)"
  shows "do_GET ''/status'' = Call_status"
    and "is_stream url \<Longrightarrow> do_POST (dec_uuid dec) is_stream ''/runs''
      (Some (Json_object [(''session_id'', Json_string (enc_uuid enc sid)), (''stream_url'', Json_string url)]))
      = Call_start sid url"
    and "do_POST (dec_uuid dec) is_stream (''/runs/'' @ enc_uuid enc sid @ ''/end'') raw = Call_end sid"
proof -
  have u: "dec_uuid dec (enc_uuid enc sid) = Some sid" using assms(1) by (simp add: reads_back_def)
  show "do_GET ''/status'' = Call_status" by (simp add: do_GET_def)
  have "path_parts ''/runs'' = [''runs'']" by (simp add: path_parts_def slash_def)
  with u show "is_stream url \<Longrightarrow> do_POST (dec_uuid dec) is_stream ''/runs''
      (Some (Json_object [(''session_id'', Json_string (enc_uuid enc sid)), (''stream_url'', Json_string url)]))
      = Call_start sid url"
    by (simp add: do_POST_def Let_def start_body_def)
  have "path_parts (''/runs/'' @ enc_uuid enc sid @ ''/end'') = split_on slash (''runs'' @ slash # enc_uuid enc sid @ slash # ''end'')"
    by (simp add: path_parts_def slash_def dropWhile_append)
  also have "\<dots> = [''runs'', enc_uuid enc sid, ''end'']"
    using assms(2) by (subst split_on_append, simp add: slash_def) (simp add: split_on_append split_on_none slash_def)
  finally show "do_POST (dec_uuid dec) is_stream (''/runs/'' @ enc_uuid enc sid @ ''/end'') raw = Call_end sid"
    using u by (simp add: do_POST_def Let_def)
qed

end
