(* ===== verification/Detection_System.thy ===== *)
theory Detection_System
  imports Detection_Races Detection_Wire
begin

text \<open>
  The backend and the Detection Service together: any number of the backend's operations
  (\<open>Detection_Races\<close>), each a thread that may be waiting for one request of the service
  (\<open>Detection_Service\<close>), whose answer reaches it as the JSON it is sent as (\<open>Detection_Wire\<close>) or is
  lost. What is shown of every interleaving is that no Session reads \<open>watching\<close> without a Run of its
  own that watched.
\<close>

section \<open>The two processes\<close>

text \<open>A thread: what it has left to do, and the request it waits for.\<close>

type_synonym thread = "det_prog \<times> nat option"

type_synonym system = "thread list \<times> world \<times> service"

text \<open>What follows when the answer is lost or the request never arrives; \<open>None\<close> when none is asked.\<close>

fun unanswered :: "det_prog \<Rightarrow> det_prog option" where
  "unanswered (Ask_status r) = Some (r Unreachable)"
| "unanswered (Ask_start sid al s) = Some (s Unreachable)"
| "unanswered (Ask_end sid r) = Some (r Unreachable)"
| "unanswered _ = None"

inductive system_step :: "encoders \<Rightarrow> decoders \<Rightarrow> system \<Rightarrow> system \<Rightarrow> bool" for enc dec where
  y_begin: "operation p \<Longrightarrow> system_step enc dec (ts, w, sv) (ts @ [(p, None)], w, sv)"
| y_act: "i < length ts \<Longrightarrow> ts ! i = (p, None) \<Longrightarrow> unanswered p = None \<Longrightarrow> det_action p w p' w' \<Longrightarrow>
    system_step enc dec (ts, w, sv) (ts[i := (p', None)], w', sv)"
| y_status: "i < length ts \<Longrightarrow> ts ! i = (Ask_status r, None) \<Longrightarrow>
    system_step enc dec (ts, w, sv) (ts[i := (r (client_status dec (status_response enc (svc_status sv))), None)], w, sv)"
| y_send_start: "i < length ts \<Longrightarrow> ts ! i = (Ask_start sid al s, None) \<Longrightarrow> start_enter sid sv = (q, sv') \<Longrightarrow>
    system_step enc dec (ts, w, sv)
      (ts[i := (Ask_start sid al s, Some (length (sv_requests sv)))], w, add_request q sv')"
| y_started: "i < length ts \<Longrightarrow> ts ! i = (Ask_start sid al s, Some j) \<Longrightarrow> sv_requests sv ! j = Done a \<Longrightarrow>
    system_step enc dec (ts, w, sv) (ts[i := (s (client_start_run dec (respond enc a)), None)], w, sv)"
| y_send_end: "i < length ts \<Longrightarrow> ts ! i = (Ask_end sid r, None) \<Longrightarrow>
    system_step enc dec (ts, w, sv)
      (ts[i := (Ask_end sid r, Some (length (sv_requests sv)))], w, add_request (end_enter sid sv) sv)"
| y_ended: "i < length ts \<Longrightarrow> ts ! i = (Ask_end sid r, Some j) \<Longrightarrow> sv_requests sv ! j = Done a \<Longrightarrow>
    system_step enc dec (ts, w, sv) (ts[i := (r (client_end_run dec (respond enc a)), None)], w, sv)"
| y_lost: "i < length ts \<Longrightarrow> ts ! i = (p, awaited) \<Longrightarrow> unanswered p = Some p' \<Longrightarrow>
    system_step enc dec (ts, w, sv) (ts[i := (p', None)], w, sv)"
| y_service: "service_step sv sv' \<Longrightarrow> system_step enc dec (ts, w, sv) (ts, w, sv')"
| y_elsewhere: "system_step enc dec (ts, w, sv) (ts, w\<lparr>wd_db := d'\<rparr>, sv)"
| y_clock: "dm_clock (wd_memory w) \<le> c \<Longrightarrow>
    system_step enc dec (ts, w, sv) (ts, w\<lparr>wd_memory := (wd_memory w)\<lparr>dm_clock := c\<rparr>\<rparr>, sv)"

inductive_cases system_stepE: "system_step enc dec st st'"

section \<open>Programs that set \<open>watching\<close> only when it is so\<close>

text \<open>
  \<open>justified p H\<close>: when at least the Sessions \<open>H\<close> have had a Run that watched, the program sets
  \<open>watching\<close> only of such a Session, given that the memory it looks at and the answers it gets are
  true of them.
\<close>

definition watching_true :: "uuid set \<Rightarrow> memory \<Rightarrow> bool" where
  "watching_true H m \<longleftrightarrow> (\<forall>sid. state_of m sid = WATCHING \<longrightarrow> sid \<in> H)"

definition status_true :: "uuid set \<Rightarrow> client_run option call \<Rightarrow> bool" where
  "status_true H a \<longleftrightarrow> (\<forall>run. a = Answered (Some run) \<longrightarrow> is_state ''watching'' run \<longrightarrow> cr_session_id run \<in> H)"

definition start_true :: "uuid set \<Rightarrow> uuid \<Rightarrow> (refusal + client_run) call \<Rightarrow> bool" where
  "start_true H sid a \<longleftrightarrow> (\<forall>run. a = Answered (Inr run) \<longrightarrow> sid \<in> H)"

primrec justified :: "det_prog \<Rightarrow> uuid set \<Rightarrow> bool" where
  "justified (Finish e) = (\<lambda>H. True)"
| "justified (Set_state sid d only k) = (\<lambda>H. (d = WATCHING \<longrightarrow> sid \<in> H) \<and> (\<forall>b. justified (k b) H))"
| "justified (Look f) = (\<lambda>H. \<forall>m H'. H \<subseteq> H' \<longrightarrow> watching_true H' m \<longrightarrow> justified (f m) H')"
| "justified (Unwatch sid k) = justified k"
| "justified (Push sid e k) = (\<lambda>H. detection_free (sid, e) \<and> justified k H)"
| "justified (Ask_status r) = (\<lambda>H. \<forall>a H'. H \<subseteq> H' \<longrightarrow> status_true H' a \<longrightarrow> justified (r a) H')"
| "justified (Ask_start sid al s) = (\<lambda>H. \<forall>a H'. H \<subseteq> H' \<longrightarrow> start_true H' sid a \<longrightarrow> justified (s a) H')"
| "justified (Ask_end sid r) = (\<lambda>H. \<forall>a. justified (r a) H)"
| "justified (Use_db f g) =
     (\<lambda>H. (\<forall>d. list_all detection_free (fst (snd (f d)))
            \<and> snd (snd (map_prod id (map_prod id justified) (f d))) H) \<and> justified g H)"

lemma justified_Use_db:
  "justified (Use_db f g) H \<longleftrightarrow>
     (\<forall>d. list_all detection_free (fst (snd (f d))) \<and> justified (snd (snd (f d))) H) \<and> justified g H"
  by simp

declare justified.simps(9) [simp del]
declare justified_Use_db [simp]

lemma justified_mono: "justified p H \<Longrightarrow> H \<subseteq> H' \<Longrightarrow> justified p H'"
proof (induction p arbitrary: H H' rule: det_prog_induct)
  case (Set_state t d only k)
  then show ?case by (simp only: justified.simps) blast
next
  case (Look f)
  from Look.prems show ?case by (simp only: justified.simps) (meson subset_trans)
next
  case (Ask_status r)
  from Ask_status.prems show ?case by (simp only: justified.simps) (meson subset_trans)
next
  case (Ask_start t al s)
  from Ask_start.prems show ?case by (simp only: justified.simps) (meson subset_trans)
next
  case (Use_db f g)
  then show ?case by (metis justified_Use_db)
qed auto

interpretation justified_programs: program_class "\<lambda>p. justified p H"
    "\<lambda>sid d _. d = WATCHING \<longrightarrow> sid \<in> H" detection_free for H
  by unfold_locales (auto intro: justified_mono simp: detection_free_def)

lemma not_watching [simp]:
  "SERVICE_DOWN \<noteq> WATCHING" "RUN_LOST \<noteq> WATCHING" "CAMERA_DISABLED \<noteq> WATCHING"
  "detection_of Starting r t \<noteq> WATCHING" "detection_of Ending r t \<noteq> WATCHING"
  by (rule det_state_neq, simp)+

declare not_watching [symmetric, simp]

lemma justified_watch: "justified (watch rid sid al only) H"
proof -
  have "justified (watch_set sid d only) H'" if "watch_result sid a = Some d" "start_true H' sid a" for a d H'
    using that by (intro justified_programs.S_watch_set)
      (auto simp: watch_result_def start_true_def dest: refused_detection_state split: call.splits sum.splits if_splits)
  then show ?thesis
    unfolding watch_def
    by (auto intro!: justified_programs.S_store split: option.splits call.splits sum.splits)
qed

lemma justified_look:
  "(\<And>m H'. H \<subseteq> H' \<Longrightarrow> watching_true H' m \<Longrightarrow> justified (f m) H') \<Longrightarrow> justified (Look f) H"
  by simp

lemma justified_retry: "justified (retry rid s c current) H"
  unfolding retry_def Let_def
  by (intro justified_look justified_programs.S_set)
    (auto simp: watching_true_def intro: justified_watch)


lemma justified_keep_watched:
  assumes "\<And>r. run = Some r \<Longrightarrow> is_state ''watching'' r \<Longrightarrow> s_id s \<in> H \<or> is_state ''ending'' r"
  shows "justified (keep_watched rid s c run) H"
  unfolding keep_watched_def Let_def
proof (rule justified_look)
  fix m H' assume "H \<subseteq> H'"
  have "justified (Set_state (s_id s) WATCHING (Some IDLE) (\<lambda>_. Finish None)) H'"
    if "run = Some r" "is_state ''watching'' r" "\<not> is_state ''ending'' r" for r
    using assms [OF that(1,2)] that(3) \<open>H \<subseteq> H'\<close> by auto
  then show "justified (if det_state (state_of m (s_id s)) \<notin> set IDLE
        \<or> (case run of None \<Rightarrow> False | Some r \<Rightarrow> is_state ''ending'' r) then Finish None
      else case run of None \<Rightarrow> retry rid s c (det_state (state_of m (s_id s)))
        | Some r \<Rightarrow> if is_state ''watching'' r
            then store_run rid (s_id s) (c_alias c) r (Set_state (s_id s) WATCHING (Some IDLE) (\<lambda>_. Finish None))
            else retry rid s c (det_state (state_of m (s_id s)))) H'"
    by (cases run) (auto intro!: justified_retry justified_programs.S_store simp del: justified.simps(2))
qed

lemma justified_reconcile: "justified (reconcile rid) H"
proof -
  have round: "justified (reconcile_round rid st cs ss) H'"
    if "\<And>r. st = Some (Some r) \<Longrightarrow> is_state ''watching'' r \<Longrightarrow> cr_session_id r \<in> H'" for st cs ss H'
    by (rule justified_programs.S_round) (use that in \<open>auto intro!: justified_keep_watched\<close>)
  then show ?thesis
    unfolding reconcile_def Let_def
    by (auto intro!: justified_programs.S_reading round simp: status_true_def simp del: justified_Use_db split: call.splits)
qed

lemma justified_operation: "operation p \<Longrightarrow> justified p H"
proof (induction rule: operation.induct)
  case op_reconcile
  then show ?case by (rule justified_reconcile)
next
  case op_create
  then show ?case by (rule justified_programs.S_create_route) (auto intro: justified_watch)
next
  case op_update
  then show ?case by (rule justified_programs.S_update_route) (auto simp: detection_free_def)
next
  case op_delete
  then show ?case by (rule justified_programs.S_delete_route) auto
qed (auto intro!: justified_programs.S_bullet_routes simp: detection_free_def)

section \<open>What the system keeps\<close>

definition watched_sessions :: "service \<Rightarrow> uuid set" where
  "watched_sessions sv = {sid. has_watched sid sv}"

definition pushes_true :: "uuid set \<Rightarrow> (uuid \<times> live_event) list \<Rightarrow> bool" where
  "pushes_true H es \<longleftrightarrow> (\<forall>sid. (sid, DetectionUpdatedEvent WATCHING) \<in> set es \<longrightarrow> sid \<in> H)"

definition world_true :: "uuid set \<Rightarrow> world \<Rightarrow> bool" where
  "world_true H w \<longleftrightarrow> watching_true H (wd_memory w) \<and> pushes_true H (wd_pushed w)"

fun request_kept :: "service \<Rightarrow> thread \<Rightarrow> bool" where
  "request_kept sv (Ask_start sid al s, Some j) \<longleftrightarrow>
     j < length (sv_requests sv) \<and> about_start sid sv (sv_requests sv ! j)"
| "request_kept sv (Ask_end sid r, Some j) \<longleftrightarrow>
     j < length (sv_requests sv) \<and> about_end sid sv (sv_requests sv ! j)"
| "request_kept sv _ \<longleftrightarrow> True"

definition thread_ok :: "service \<Rightarrow> thread \<Rightarrow> bool" where
  "thread_ok sv t \<longleftrightarrow> justified (fst t) (watched_sessions sv) \<and> request_kept sv t"

definition system_ok :: "system \<Rightarrow> bool" where
  "system_ok = (\<lambda>(ts, w, sv). service_ok sv \<and> list_all (thread_ok sv) ts \<and> world_true (watched_sessions sv) w)"

lemma watched_sessions_mono: "kept sv sv' \<Longrightarrow> watched_sessions sv \<subseteq> watched_sessions sv'"
  by (auto simp: watched_sessions_def has_watched_kept)

lemma world_true_mono: "world_true H w \<Longrightarrow> H \<subseteq> H' \<Longrightarrow> world_true H' w"
  by (auto simp: world_true_def watching_true_def pushes_true_def)

lemma set_state_watching:
  "state_of (fst (snd (set_state sid d only m))) t = WATCHING \<Longrightarrow>
   state_of m t = WATCHING \<or> t = sid \<and> d = WATCHING"
  by (cases "t = sid")
    (auto simp: set_state_other set_state_def Let_def state_of_def update_conv delete_conv unless_unwatched_def
      split: option.splits if_splits)

lemma set_state_pushes:
  "(t, DetectionUpdatedEvent WATCHING) \<in> set (snd (snd (set_state sid d only m))) \<Longrightarrow> t = sid \<and> d = WATCHING"
  by (auto simp: set_state_def Let_def unless_unwatched_def split: option.splits if_splits)

lemma pushes_true_append [simp]: "pushes_true H (es @ fs) \<longleftrightarrow> pushes_true H es \<and> pushes_true H fs"
  by (auto simp: pushes_true_def)

lemma pushes_true_free: "list_all detection_free es \<Longrightarrow> pushes_true H es"
  by (auto simp: pushes_true_def list_all_iff detection_free_def)

lemma justified_action:
  assumes "det_action p w p' w'" "unanswered p = None" "justified p H" "world_true H w"
  shows "justified p' H \<and> world_true H w'"
  using assms(1)
proof cases
  case (do_set sid d only k)
  then have "d = WATCHING \<Longrightarrow> sid \<in> H" using assms(3) by simp
  then have "watching_true H (fst (snd (set_state sid d only (wd_memory w))))"
    "pushes_true H (snd (snd (set_state sid d only (wd_memory w))))"
    using assms(4) unfolding watching_true_def pushes_true_def world_true_def
    by (blast dest: set_state_watching set_state_pushes)+
  then have "world_true H (after_set sid d only w)"
    using assms(4) by (simp add: world_true_def after_set_def)
  with do_set assms(3) show ?thesis by simp
next
  case (do_look f)
  then show ?thesis using assms(3,4) by (simp add: world_true_def)
next
  case (do_unwatch sid)
  then show ?thesis using assms(3,4) by (simp add: world_true_def watching_true_def forget_watched_def)
next
  case (do_push sid e)
  then show ?thesis using assms(3,4) pushes_true_free [of "[(sid, e)]"] by (simp add: world_true_def)
next
  case (do_db f d' es g)
  have "list_all detection_free (fst (snd (f (wd_db w)))) \<and> justified (snd (snd (f (wd_db w)))) H"
    using assms(3) unfolding do_db(1) justified_Use_db by blast
  then have "list_all detection_free es" "justified p' H" by (simp_all only: do_db(3) fst_conv snd_conv)
  then show ?thesis using assms(4) pushes_true_free [of es H] by (simp add: do_db(2) world_true_def)
next
  case (do_db_down f)
  then show ?thesis using assms(3,4) by simp
qed (use assms(2) in simp_all)

lemma request_kept_None [simp]: "request_kept sv (p, None)"
  by (cases p) simp_all

lemma justified_unanswered: "unanswered p = Some p' \<Longrightarrow> justified p H \<Longrightarrow> justified p' H"
  by (cases p) (auto simp: status_true_def start_true_def)

lemma unanswered_None: "unanswered p = None \<Longrightarrow> request_kept sv (p, awaited)"
  by (cases p) simp_all

text \<open>The service moves on, and every thread keeps its request.\<close>

lemma thread_ok_step:
  assumes "service_ok sv" "service_step sv sv'" "thread_ok sv t"
  shows "thread_ok sv' t"
proof -
  obtain p awaited where t: "t = (p, awaited)" by (cases t)
  have kept: "request_kept sv (p, awaited)" using assms(3) by (simp add: t thread_ok_def)
  have "request_kept sv' (p, awaited)"
  proof (cases awaited)
    case (Some j)
    then show ?thesis
      using kept about_start_step [OF assms(1,2), of j] about_end_step [OF assms(1,2), of j] by (cases p) auto
  qed simp
  moreover have "justified p (watched_sessions sv')"
    using assms(3) watched_sessions_mono [OF service_step_kept [OF assms(2)]] justified_mono
    by (auto simp: t thread_ok_def)
  ultimately show ?thesis by (simp add: t thread_ok_def)
qed

lemma thread_ok_update:
  assumes "list_all (thread_ok sv) ts" "thread_ok sv t"
  shows "list_all (thread_ok sv) (ts[i := t])"
  using assms by (auto simp: list_all_iff dest!: subsetD [OF set_update_subset_insert])

lemma status_answer_true:
  assumes "reads_back enc dec" "service_ok sv"
  shows "status_true (watched_sessions sv) (client_status dec (status_response enc (svc_status sv)))"
proof (cases "sv_current sv")
  case None
  then show ?thesis using status_read(1) [OF assms(1)] by (simp add: svc_status_def status_true_def)
next
  case (Some i)
  then have i: "i < length (sv_runs sv)" using assms(2) by (simp add: service_ok_def)
  note run = service_ok_run [OF assms(2) i]
  obtain v where v: "run_view (sv_runs sv ! i) = Some v" using run_ok_view [OF run] by auto
  have "has_watched (vw_session v) sv" if "vw_state v = ''watching''"
  proof -
    have "sr_state (sv_runs sv ! i) = R_watching"
      using that v by (cases "sr_state (sv_runs sv ! i)") (auto simp: run_view_def)
    then show ?thesis using run i run_view_session [OF v] by (auto simp: has_watched_def run_ok_def)
  qed
  then show ?thesis
    using Some v status_read(2) [OF assms(1)]
    by (simp add: svc_status_def status_true_def watched_sessions_def read_view_def read_run_def is_state_def)
qed

lemma start_answer_true:
  assumes "reads_back enc dec" "about_start sid sv (Done a)"
  shows "start_true (watched_sessions sv) sid (client_start_run dec (respond enc a))"
proof -
  consider v where "a = Ok_run (Some v)" "has_watched sid sv" | v where "a = Other_active (Some v)"
    | v where "a = Is_ending (Some v)" | e where "a = Failed_start e" | "a = Start_timed_out"
    using assms(2) by (auto split: answer.splits option.splits)
  then show ?thesis
    by cases (simp_all del: respond.simps add: answers_read [OF assms(1)] start_true_def watched_sessions_def)
qed

lemma system_step_ok:
  assumes rb: "reads_back enc dec" and inv: "system_ok st" and step: "system_step enc dec st st'"
  shows "system_ok st'"
  using step
proof cases
  case (y_begin p ts w sv)
  then show ?thesis using inv justified_operation by (simp add: system_ok_def thread_ok_def)
next
  case (y_act i ts p w p' w' sv)
  then have ok: "thread_ok sv (p, None)" "world_true (watched_sessions sv) w"
    using inv by (auto simp: system_ok_def list_all_length)
  from justified_action [OF y_act(6,5)] ok
  have "justified p' (watched_sessions sv) \<and> world_true (watched_sessions sv) w'" by (simp add: thread_ok_def)
  then show ?thesis
    using inv y_act thread_ok_update by (simp add: system_ok_def thread_ok_def)
next
  case (y_status i ts r w sv)
  then have "thread_ok sv (Ask_status r, None)" "service_ok sv"
    using inv by (auto simp: system_ok_def list_all_length)
  with status_answer_true [OF rb] have "thread_ok sv (r (client_status dec (status_response enc (svc_status sv))), None)"
    by (simp add: thread_ok_def)
  then show ?thesis using inv y_status thread_ok_update by (simp add: system_ok_def)
next
  case (y_send_start i ts sid al s sv q sv' w)
  then have ok: "service_ok sv" "list_all (thread_ok sv) ts" "world_true (watched_sessions sv) w"
    using inv by (simp_all add: system_ok_def)
  note st = s_start [OF y_send_start(5)]
  have "justified (Ask_start sid al s) (watched_sessions sv)"
    using ok(2) y_send_start(3,4) by (force simp: list_all_length thread_ok_def)
  then have "justified (Ask_start sid al s) (watched_sessions (add_request q sv'))"
    using justified_mono watched_sessions_mono [OF service_step_kept [OF st]] by blast
  moreover have "sv_requests (add_request q sv') ! length (sv_requests sv) = q"
    "length (sv_requests sv) < length (sv_requests (add_request q sv'))"
    using start_enter_requests [OF y_send_start(5)] by (simp_all add: add_request_def nth_append)
  ultimately have "thread_ok (add_request q sv') (Ask_start sid al s, Some (length (sv_requests sv)))"
    using about_start_enter [OF ok(1) y_send_start(5)] by (simp add: thread_ok_def)
  moreover have "list_all (thread_ok (add_request q sv')) ts"
    using ok(2) thread_ok_step [OF ok(1) st] by (auto simp: list_all_iff)
  ultimately show ?thesis
    using y_send_start service_step_ok [OF ok(1) st] thread_ok_update
      world_true_mono [OF ok(3) watched_sessions_mono [OF service_step_kept [OF st]]]
    by (simp add: system_ok_def)
next
  case (y_started i ts sid al s j sv a w)
  then have t: "thread_ok sv (Ask_start sid al s, Some j)" using inv by (auto simp: system_ok_def list_all_length)
  then have "about_start sid sv (Done a)" using y_started(5) by (simp add: thread_ok_def)
  from start_answer_true [OF rb this] t have "thread_ok sv (s (client_start_run dec (respond enc a)), None)"
    by (simp add: thread_ok_def)
  then show ?thesis using inv y_started thread_ok_update by (simp add: system_ok_def)
next
  case (y_send_end i ts sid r w sv)
  then have ok: "service_ok sv" "list_all (thread_ok sv) ts" "world_true (watched_sessions sv) w"
    using inv by (simp_all add: system_ok_def)
  note st = s_end [of sv sid] let ?sv = "add_request (end_enter sid sv) sv"
  have "justified (Ask_end sid r) (watched_sessions sv)"
    using ok(2) y_send_end(3,4) by (force simp: list_all_length thread_ok_def)
  then have "justified (Ask_end sid r) (watched_sessions ?sv)"
    using justified_mono watched_sessions_mono [OF service_step_kept [OF st]] by blast
  moreover have "sv_requests ?sv ! length (sv_requests sv) = end_enter sid sv"
    "length (sv_requests sv) < length (sv_requests ?sv)" by (simp_all add: add_request_def nth_append)
  ultimately have "thread_ok ?sv (Ask_end sid r, Some (length (sv_requests sv)))"
    using about_end_enter [OF ok(1)] by (simp add: thread_ok_def)
  moreover have "list_all (thread_ok ?sv) ts"
    using ok(2) thread_ok_step [OF ok(1) st] by (auto simp: list_all_iff)
  ultimately show ?thesis
    using y_send_end service_step_ok [OF ok(1) st] thread_ok_update
      world_true_mono [OF ok(3) watched_sessions_mono [OF service_step_kept [OF st]]]
    by (simp add: system_ok_def)
next
  case (y_ended i ts sid r j sv a w)
  then have "thread_ok sv (Ask_end sid r, Some j)" using inv by (auto simp: system_ok_def list_all_length)
  then have "thread_ok sv (r (client_end_run dec (respond enc a)), None)" by (simp add: thread_ok_def)
  then show ?thesis using inv y_ended thread_ok_update by (simp add: system_ok_def)
next
  case (y_lost i ts p awaited p' w sv)
  then have "thread_ok sv (p, awaited)" using inv by (auto simp: system_ok_def list_all_length)
  with justified_unanswered [OF y_lost(5)] have "thread_ok sv (p', None)" by (simp add: thread_ok_def)
  then show ?thesis using inv y_lost thread_ok_update by (simp add: system_ok_def)
next
  case (y_service sv sv' ts w)
  then have ok: "service_ok sv" "list_all (thread_ok sv) ts" "world_true (watched_sessions sv) w"
    using inv by (simp_all add: system_ok_def)
  note st = y_service(3)
  have "list_all (thread_ok sv') ts"
    using ok(2) thread_ok_step [OF ok(1) st] by (auto simp: list_all_iff)
  then show ?thesis
    using y_service service_step_ok [OF ok(1) st]
      world_true_mono [OF ok(3) watched_sessions_mono [OF service_step_kept [OF st]]]
    by (simp add: system_ok_def)
next
  case (y_elsewhere ts w sv d')
  then show ?thesis using inv by (simp add: system_ok_def world_true_def)
next
  case (y_clock w c ts sv)
  then show ?thesis using inv by (simp add: system_ok_def world_true_def watching_true_def)
qed

interpretation systems: invariant_system "\<lambda>st. \<exists>d. st = ([], new_world d, new_service)"
    "\<lambda>st st'. reads_back enc dec \<and> system_step enc dec st st'" system_ok for enc dec
proof
  fix st :: system assume "\<exists>d. st = ([], new_world d, new_service)"
  then show "system_ok st"
    using service_ok_new
    by (auto simp: system_ok_def world_true_def watching_true_def pushes_true_def new_world_def state_of_def)
qed (use system_step_ok in blast)

abbreviation runs_to :: "encoders \<Rightarrow> decoders \<Rightarrow> system \<Rightarrow> bool" where
  "runs_to enc dec \<equiv> reach (\<lambda>st. \<exists>d. st = ([], new_world d, new_service)) (system_step enc dec)"

lemma runs_to_ok:
  assumes "reads_back enc dec" "runs_to enc dec st"
  shows "system_ok st"
proof -
  have "reach (\<lambda>st. \<exists>d. st = ([], new_world d, new_service))
      (\<lambda>st st'. reads_back enc dec \<and> system_step enc dec st st') st"
    using assms(2) by (induction rule: reach.induct) (auto intro: reach.intros assms(1))
  then show ?thesis by (rule systems.reach_inv)
qed

section \<open>Properties\<close>

text \<open>
  C13. In the whole system - any number of requests and reconcile rounds in the backend, interleaved
  action by action with one another, with the Detection Service's requests, Runs and clock, and with
  answers lost or late on the way - a Session reads \<open>watching\<close>, or was ever pushed as watching to its
  frontends, only if a Run of that Session has built its baseline in the service and watched.
\<close>

theorem watching_is_true:
  assumes "reads_back enc dec" "runs_to enc dec (ts, w, sv)"
    and "state_of (wd_memory w) sid = WATCHING \<or> (sid, DetectionUpdatedEvent WATCHING) \<in> set (wd_pushed w)"
  shows "\<exists>r\<in>set (sv_runs sv). sr_session r = sid \<and> sr_view r \<noteq> None"
proof -
  have "world_true (watched_sessions sv) w" using runs_to_ok [OF assms(1,2)] by (simp add: system_ok_def)
  with assms(3) have "has_watched sid sv"
    by (auto simp: world_true_def watching_true_def pushes_true_def watched_sessions_def)
  then show ?thesis by (auto simp: has_watched_def)
qed

text \<open>A Run started by someone else is found by a reconcile round, which makes the Session read watching.\<close>

lemma runs_service: "steps service_step sv sv' \<Longrightarrow> runs_to enc dec (ts, w, sv) \<Longrightarrow> runs_to enc dec (ts, w, sv')"
  by (induction rule: steps.induct) (auto intro: reach_step y_service)

lemma runs_action:
  "runs_to enc dec ([(p, None)], w, sv) \<Longrightarrow> unanswered p = None \<Longrightarrow> det_action p w p' w' \<Longrightarrow>
   runs_to enc dec ([(p', None)], w', sv)"
  using y_act [of 0 "[(p, None)]" p w p' w' enc dec sv] by (auto intro: reach_step)

definition found_run :: client_run where
  "found_run = read_run 7 ''watching'' (Some sample_view) (Some sample_place, Some 5)"

lemma sample_status:
  "client_status plain_decoders (status_response decimal_encoders (svc_status sample_watching)) = Answered (Some found_run)"
proof -
  have "run_view (sv_runs sample_watching ! 0) =
      Some \<lparr>vw_session = 7, vw_state = ''watching'', vw_since = 0, vw_marks = Some 0,
        vw_baseline = Some sample_view, vw_registered = Some sample_place, vw_looked = Some 5\<rparr>"
    by (simp add: sample_watching_def sample_started_def step_simps run_view_def watched_def Let_def)
  moreover have "sv_current sample_watching = Some 0"
    by (simp add: sample_watching_def sample_started_def step_simps)
  ultimately show ?thesis
    using status_read(2) [OF decimal_reads_back] by (simp add: svc_status_def read_view_def found_run_def)
qed

lemma runs_status:
  "runs_to enc dec ([(Ask_status r, None)], w, sv) \<Longrightarrow>
   runs_to enc dec ([(r (client_status dec (status_response enc (svc_status sv))), None)], w, sv)"
  using y_status [of 0 "[(Ask_status r, None)]" r enc dec w sv] by (auto intro: reach_step)

theorem watching_is_true_witness:
  "\<exists>ts w. runs_to decimal_encoders plain_decoders (ts, w, sample_watching) \<and> state_of (wd_memory w) 7 = WATCHING
     \<and> (\<exists>r\<in>set (sv_runs sample_watching). sr_session r = 7 \<and> sr_view r \<noteq> None)"
proof -
  let ?w = "new_world sample_db" and ?s = "hd (db_sessions sample_db)" and ?c = "hd (db_cameras sample_db)"
  let ?to = "runs_to decimal_encoders plain_decoders"
  have "?to ([], ?w, sample_watching)"
    by (rule runs_service [OF sample_watching_steps], unfold sample_started_def, rule reach_step [OF reach_init])
      (blast, rule y_service, rule s_start, rule prod.collapse [symmetric])
  then have "?to ([(reconcile 9, None)], ?w, sample_watching)"
    using y_begin [OF op_reconcile [of 9], of _ _ "[]"] by (auto intro: reach_step)
  then have "?to ([(Use_db (\<lambda>d. (d, [], Use_db (\<lambda>d'. (d', [],
      reconcile_round 9 (Some (Some found_run)) (list_all_cameras d) (list_active d')))
      (Finish (Some Db_error)))) (Finish (Some Db_error)), None)], ?w, sample_watching)"
    unfolding reconcile_def Let_def using runs_status sample_status by force
  then have "?to ([(Use_db (\<lambda>d'. (d', [],
      reconcile_round 9 (Some (Some found_run)) (list_all_cameras sample_db) (list_active d')))
      (Finish (Some Db_error)), None)], ?w, sample_watching)"
    by (rule runs_action) (use do_db [where w = ?w and es = "[]"] in \<open>simp_all add: new_world_def\<close>)
  then have "?to ([(reconcile_round 9 (Some (Some found_run)) (list_all_cameras sample_db) (list_active sample_db), None)],
      ?w, sample_watching)"
    by (rule runs_action) (use do_db [where w = ?w and es = "[]"] in \<open>simp_all add: new_world_def\<close>)
  then have "?to ([(keep_watched 9 ?s ?c (Some found_run), None)], ?w, sample_watching)"
    by (rule runs_action)
      (simp_all add: reconcile_round_def Let_def sample_db_def new_world_def empty_db_def list_active_def
        list_all_cameras_def stuck_sessions_def ended_sessions_def show_camera_def wanted_session_def settle_run_def
        run_to_end_def is_state_def found_run_def read_run_def keep_wanted_def)
  then have "?to ([(store_run 9 7 ''cam'' found_run (Set_state 7 WATCHING (Some IDLE) (\<lambda>_. Finish None)), None)],
      ?w, sample_watching)"
    unfolding keep_watched_def
    by (rule runs_action)
      (simp_all add: new_world_def state_of_def IDLE_def is_state_def found_run_def read_run_def sample_db_def Let_def)
  then have "?to ([(Set_state 7 WATCHING (Some IDLE) (\<lambda>_. Finish None), None)], ?w, sample_watching)"
    by (rule runs_action, unfold store_run_def)
      (auto simp: found_run_def read_run_def intro: do_db_down)
  then have r: "?to ([(Finish None, None)], after_set 7 WATCHING (Some IDLE) ?w, sample_watching)"
    by (rule runs_action) (use do_set [of 7 WATCHING "Some IDLE" "\<lambda>_. Finish None"] in simp_all)
  have "state_of (wd_memory (after_set 7 WATCHING (Some IDLE) ?w)) 7 = WATCHING"
    by (simp add: after_set_def set_state_def Let_def new_world_def state_of_def IDLE_def unless_unwatched_def)
  with r watching_is_true [OF decimal_reads_back r] show ?thesis by blast
qed

end
