(* ===== verification/Board_View.thy ===== *)
theory Board_View
  imports Schemas Tracks
begin

text \<open>
  Board space (\<open>ImageRecognitionService/detection/board.py\<close>): the homographies between template,
  frame and Board, a view of the Board (\<open>BoardView\<close>), the Target Sheets and the canvases the
  detector is shown, scores and millimetres, and how a frame's view is fitted, tracked and found
  again. Matrices are 3 by 3 of reals, polygons are lists of points.

  What OpenCV does on pixels is the parameter \<open>vision\<close>: the Targets it finds, the fits it converges to
  or fails at (\<open>cv2.error\<close>), moments and the point in polygon test. \<open>numpy.linalg.inv\<close> of a singular
  matrix, which raises, is not modelled: the statements ask for a determinant that is not zero.
\<close>

section \<open>Homographies\<close>

type_synonym polygon = "point list"

definition as_matrix :: "real \<Rightarrow> point \<Rightarrow> matrix3" where
  "as_matrix scale offset = ((scale, 0, fst offset), (0, scale, snd offset), (0, 0, 1))"

definition row_at :: "row3 \<Rightarrow> point \<Rightarrow> real" where
  "row_at r p = (case r of (a, b, c) \<Rightarrow> a * fst p + b * snd p + c)"

text \<open>\<open>cv2.perspectiveTransform\<close>, which gives 0 where the third coordinate is 0, as \<open>/\<close> does.\<close>

definition apply_to :: "matrix3 \<Rightarrow> point \<Rightarrow> point" where
  "apply_to m p = (case m of (r1, r2, r3) \<Rightarrow> (row_at r1 p / row_at r3 p, row_at r2 p / row_at r3 p))"

definition row_mul :: "row3 \<Rightarrow> matrix3 \<Rightarrow> row3" where
  "row_mul r m =
     (case r of (a, b, c) \<Rightarrow> case m of ((m11, m12, m13), (m21, m22, m23), (m31, m32, m33)) \<Rightarrow>
        (a * m11 + b * m21 + c * m31, a * m12 + b * m22 + c * m32, a * m13 + b * m23 + c * m33))"

definition mat_mul :: "matrix3 \<Rightarrow> matrix3 \<Rightarrow> matrix3" where
  "mat_mul m n = (case m of (r1, r2, r3) \<Rightarrow> (row_mul r1 n, row_mul r2 n, row_mul r3 n))"

definition mat_det :: "matrix3 \<Rightarrow> real" where
  "mat_det m = (case m of ((a, b, c), (d, e, f), (g, h, i)) \<Rightarrow>
     a * (e * i - f * h) - b * (d * i - f * g) + c * (d * h - e * g))"

definition mat_inv :: "matrix3 \<Rightarrow> matrix3" where
  "mat_inv m = (let k = mat_det m in case m of ((a, b, c), (d, e, f), (g, h, i)) \<Rightarrow>
     (((e * i - f * h) / k, (c * h - b * i) / k, (b * f - c * e) / k),
      ((f * g - d * i) / k, (a * i - c * g) / k, (c * d - a * f) / k),
      ((d * h - e * g) / k, (b * g - a * h) / k, (a * e - b * d) / k)))"

definition third :: "matrix3 \<Rightarrow> point \<Rightarrow> real" where
  "third m p = row_at (snd (snd m)) p"

lemma row_at_mul: "third n p \<noteq> 0 \<Longrightarrow> row_at (row_mul r n) p = third n p * row_at r (apply_to n p)"
proof -
  assume w: "third n p \<noteq> 0"
  obtain r1 r2 r3 where n: "n = (r1, r2, r3)" by (cases n)
  obtain a b c where r: "r = (a, b, c)" by (cases r)
  have "row_at (row_mul r n) p = a * row_at r1 p + b * row_at r2 p + c * row_at r3 p"
    by (cases r1; cases r2; cases r3) (simp add: n r row_mul_def row_at_def algebra_simps)
  also have "\<dots> = row_at r3 p * (a * (row_at r1 p / row_at r3 p) + b * (row_at r2 p / row_at r3 p) + c)"
    using w by (simp add: n third_def distrib_left)
  finally show ?thesis by (simp add: n r apply_to_def third_def row_at_def [of "(a, b, c)"])
qed

lemma apply_mat_mul:
  assumes "third n p \<noteq> 0"
  shows "apply_to (mat_mul m n) p = apply_to m (apply_to n p)"
proof -
  obtain r1 r2 r3 where m: "m = (r1, r2, r3)" by (cases m)
  have "apply_to (mat_mul m n) p
      = (row_at (row_mul r1 n) p / row_at (row_mul r3 n) p, row_at (row_mul r2 n) p / row_at (row_mul r3 n) p)"
    by (simp add: m mat_mul_def apply_to_def)
  also have "\<dots> = apply_to m (apply_to n p)"
    unfolding row_at_mul [OF assms] using assms by (simp add: m apply_to_def [of "(r1, r2, r3)"])
  finally show ?thesis .
qed

lemma mat_mul_assoc: "mat_mul (mat_mul a b) c = mat_mul a (mat_mul b c)"
  by (simp add: mat_mul_def row_mul_def algebra_simps split: prod.splits)

lemma mat_mul_id [simp]: "mat_mul (as_matrix 1 (0, 0)) m = m" "mat_mul m (as_matrix 1 (0, 0)) = m"
  by (simp_all add: mat_mul_def row_mul_def as_matrix_def split: prod.splits)

lemma mat_inv_left: "mat_det m \<noteq> 0 \<Longrightarrow> mat_mul (mat_inv m) m = as_matrix 1 (0, 0)"
proof -
  obtain a b c d e f g h i where m: "m = ((a, b, c), (d, e, f), (g, h, i))" by (metis prod.exhaust)
  assume k: "mat_det m \<noteq> 0"
  have "mat_mul (mat_inv m) m = ((mat_det m / mat_det m, 0, 0), (0, mat_det m / mat_det m, 0), (0, 0, mat_det m / mat_det m))"
    by (simp add: m mat_mul_def row_mul_def mat_inv_def Let_def add_divide_distrib [symmetric])
      (simp add: mat_det_def algebra_simps)
  then show ?thesis using k by (simp add: as_matrix_def)
qed

lemma mat_inv_right: "mat_det m \<noteq> 0 \<Longrightarrow> mat_mul m (mat_inv m) = as_matrix 1 (0, 0)"
proof -
  obtain a b c d e f g h i where m: "m = ((a, b, c), (d, e, f), (g, h, i))" by (metis prod.exhaust)
  assume k: "mat_det m \<noteq> 0"
  have "mat_mul m (mat_inv m) = ((mat_det m / mat_det m, 0, 0), (0, mat_det m / mat_det m, 0), (0, 0, mat_det m / mat_det m))"
    by (simp add: m mat_mul_def row_mul_def mat_inv_def Let_def add_divide_distrib [symmetric])
      (simp add: mat_det_def algebra_simps)
  then show ?thesis using k by (simp add: as_matrix_def)
qed

lemma apply_id [simp]: "apply_to (as_matrix 1 (0, 0)) p = p"
  by (simp add: apply_to_def as_matrix_def row_at_def)

lemma third_as_matrix [simp]: "third (as_matrix s t) p = 1"
  by (simp add: third_def as_matrix_def row_at_def)

lemma apply_as_matrix: "apply_to (as_matrix s t) p = (s * fst p + fst t, s * snd p + snd t)"
  by (simp add: apply_to_def as_matrix_def row_at_def)

lemma inv_as_matrix: "s \<noteq> 0 \<Longrightarrow> mat_inv (as_matrix s (x, y)) = as_matrix (1 / s) (- x / s, - y / s)"
  by (simp add: mat_inv_def as_matrix_def mat_det_def Let_def field_simps)

lemma det_as_matrix [simp]: "mat_det (as_matrix s t) = s * s"
  by (simp add: mat_det_def as_matrix_def)

lemma mul_as_matrix: "mat_mul (as_matrix a (x, y)) (as_matrix b (u, v)) = as_matrix (a * b) (a * u + x, a * v + y)"
  by (simp add: mat_mul_def row_mul_def as_matrix_def)

section \<open>A view of the Board\<close>

type_synonym rect = "real \<times> real \<times> real \<times> real"
type_synonym crop = "int \<times> int \<times> int \<times> int"

record 'img board_anchor =
  an_gray :: 'img
  an_region :: 'img
  an_H :: matrix3

record 'img board_view =
  vw_H :: matrix3
  tpl_to_board :: matrix3
  canvas_size :: "int \<times> int"
  targets :: "polygon list"
  anchor :: "'img board_anchor"
  sheets :: "rect list"
  crops :: "crop list"

text \<open>
  \<open>find_targets\<close> is the function of that name, largest first; \<open>fit_silhouette\<close> and \<open>fit_affine\<close> are
  \<open>register\<close> with either motion (\<open>None\<close> is \<open>cv2.error\<close>); \<open>shift_between\<close> is \<open>board_shift\<close>, \<open>ecc\<close> is
  \<open>ecc_warp\<close>, \<open>region_of\<close> is \<open>texture_region\<close>, \<open>span_of\<close> is \<open>contour_span\<close>; \<open>disk\<close> and \<open>digits\<close> are
  \<open>disk_centre\<close> of the frame's patch and \<open>digit_scale\<close> of its digit row.
\<close>

record 'img vision =
  find_targets :: "'img \<Rightarrow> polygon list"
  fit_silhouette :: "'img \<Rightarrow> polygon \<Rightarrow> matrix3 option"
  fit_affine :: "'img \<Rightarrow> polygon \<Rightarrow> (matrix3 \<times> real) option"
  disk :: "'img \<Rightarrow> matrix3 \<Rightarrow> point option"
  digits :: "'img \<Rightarrow> matrix3 \<Rightarrow> point \<Rightarrow> real \<times> real"
  artwork_disk :: point
  template_span :: real
  span_of :: "polygon \<Rightarrow> real"
  gray_of :: "'img \<Rightarrow> 'img"
  region_of :: "matrix3 \<Rightarrow> 'img \<Rightarrow> real \<Rightarrow> 'img"
  shift_between :: "'img \<Rightarrow> 'img \<Rightarrow> matrix3 \<Rightarrow> 'img \<Rightarrow> matrix3 option"
  ecc :: "'img \<Rightarrow> 'img \<Rightarrow> matrix3 \<Rightarrow> 'img \<Rightarrow> (matrix3 \<times> real) option"
  moments_of :: "polygon \<Rightarrow> real \<times> real \<times> real"
  on_polygon :: "polygon \<Rightarrow> point \<Rightarrow> bool"

definition RING_CENTRE_TPL :: point where "RING_CENTRE_TPL = (6954 / 10, 6392 / 10)"
definition RING_DIAMETER_TPL :: real where "RING_DIAMETER_TPL = 223"

definition RING_RADII_TPL :: "real list" where
  "RING_RADII_TPL = [RING_DIAMETER_TPL / 2, 2205 / 10, 3224 / 10, 4251 / 10, 5282 / 10]"

definition RING_SCORES :: "nat list" where "RING_SCORES = [10, 9, 8, 7, 6]"
definition OUTSIDE_RINGS :: nat where "OUTSIDE_RINGS = 0"
definition TARGET_NET_SCALE :: real where "TARGET_NET_SCALE = 9 / 10"
definition MATCH_TPL_PX :: real where "MATCH_TPL_PX = 20"
definition BOARD_MARGIN :: real where "BOARD_MARGIN = 1 / 2"
definition SHEET_BOUND_MM :: real where "SHEET_BOUND_MM = 5"
definition SHEET_CONTEXT_PX :: real where "SHEET_CONTEXT_PX = 32"
definition REANCHOR_MIN_CORRELATION :: real where "REANCHOR_MIN_CORRELATION = 9 / 10"
definition INTERIOR_MIN_CORRELATION :: real where "INTERIOR_MIN_CORRELATION = 6 / 10"

definition board_scale :: "'img board_view \<Rightarrow> real" where
  "board_scale v = fst (fst (tpl_to_board v))"

definition template_to_board :: "'img board_view \<Rightarrow> point \<Rightarrow> point" where
  "template_to_board v = apply_to (tpl_to_board v)"

definition on_template :: "'img board_view \<Rightarrow> point \<Rightarrow> point" where
  "on_template v = apply_to (mat_inv (tpl_to_board v))"

definition frame_to_board :: "'img board_view \<Rightarrow> point \<Rightarrow> point" where
  "frame_to_board v = apply_to (mat_mul (tpl_to_board v) (mat_inv (vw_H v)))"

definition board_to_frame :: "'img board_view \<Rightarrow> point \<Rightarrow> point" where
  "board_to_frame v = apply_to (mat_mul (vw_H v) (mat_inv (tpl_to_board v)))"

definition match_radius :: "'img board_view \<Rightarrow> real" where
  "match_radius v = MATCH_TPL_PX * board_scale v"

definition plus_point :: "point \<Rightarrow> point \<Rightarrow> point" where
  "plus_point p q = (fst p + fst q, snd p + snd q)"

definition minus_point :: "point \<Rightarrow> point \<Rightarrow> point" where
  "minus_point p q = (fst p - fst q, snd p - snd q)"

definition norm_point :: "point \<Rightarrow> real" where
  "norm_point p = sqrt (fst p * fst p + snd p * snd p)"

text \<open>
  \<open>_centroid\<close>. Without area (\<open>m00\<close> 0) the code divides by zero and raises, where the model has 0; the
  Targets found have a minimum area, and \<open>ring_centre\<close> asks first.
\<close>

definition centroid :: "'img vision \<Rightarrow> polygon \<Rightarrow> point" where
  "centroid cv t = (case moments_of cv t of (m00, m10, m01) \<Rightarrow> (m10 / m00, m01 / m00))"

text \<open>An index past the Targets raises \<open>IndexError\<close>; the callers pass what \<open>assign_target\<close> gave.\<close>

definition ring_centre :: "'img vision \<Rightarrow> 'img board_view \<Rightarrow> nat option \<Rightarrow> point" where
  "ring_centre cv v target_index =
     (let ring = template_to_board v RING_CENTRE_TPL in
      case target_index of
        None \<Rightarrow> ring
      | Some k \<Rightarrow>
          if targets v = [] then ring
          else let t0 = targets v ! 0; t1 = targets v ! k in
            if fst (moments_of cv t0) = 0 \<or> fst (moments_of cv t1) = 0 then ring
            else plus_point ring (minus_point (centroid cv t1) (centroid cv t0)))"

definition in_rect :: "rect \<Rightarrow> point \<Rightarrow> bool" where
  "in_rect b p \<longleftrightarrow> (case b of (x0, y0, x1, y1) \<Rightarrow> x0 \<le> fst p \<and> fst p \<le> x1 \<and> y0 \<le> snd p \<and> snd p \<le> y1)"

text \<open>The index of the first that holds: \<open>sheet_of\<close> writes over later sheets, \<open>None\<close> is its -1.\<close>

fun first_index :: "('a \<Rightarrow> bool) \<Rightarrow> 'a list \<Rightarrow> nat option" where
  "first_index P [] = None"
| "first_index P (x # xs) = (if P x then Some 0 else map_option Suc (first_index P xs))"

definition sheet_of :: "'img board_view \<Rightarrow> point \<Rightarrow> nat option" where
  "sheet_of v p = first_index (\<lambda>b. in_rect b p) (sheets v)"

definition assign_target :: "'img vision \<Rightarrow> 'img board_view \<Rightarrow> point \<Rightarrow> nat option" where
  "assign_target cv v p = first_index (\<lambda>t. on_polygon cv t p) (targets v)"

section \<open>Target Sheets\<close>

definition sheet_bounds :: "'img vision \<Rightarrow> polygon list \<Rightarrow> matrix3 \<Rightarrow> rect \<Rightarrow> rect list" where
  "sheet_bounds cv ts m bound =
     (case bound of (x0, y0, x1, y1) \<Rightarrow>
        let a = apply_to m (x0, y0); b = apply_to m (x1, y1); origin = centroid cv (ts ! 0) in
        map (\<lambda>t. let d = minus_point (centroid cv t) origin in
              (fst a + fst d, snd a + snd d, fst b + fst d, snd b + snd d)) ts)"

definition whole_32 :: "real \<Rightarrow> int" where
  "whole_32 v = \<lceil>v / 32\<rceil> * 32"

definition sheet_crops :: "rect list \<Rightarrow> real \<Rightarrow> crop list" where
  "sheet_crops bounds c =
     (case bounds of
        [] \<Rightarrow> []
      | (x0, y0, x1, y1) # _ \<Rightarrow>
          let nx = x1 - x0 + 2 * c; ny = y1 - y0 + 2 * c; w = whole_32 nx; h = whole_32 ny;
              sx = (of_int w - nx) / 2 + c; sy = (of_int h - ny) / 2 + c
          in map (\<lambda>b. (\<lfloor>fst b - sx\<rfloor>, \<lfloor>fst (snd b) - sy\<rfloor>, w, h)) bounds)"

section \<open>Print scales\<close>

text \<open>
  A value of the file as \<open>json.load\<close> gives it: a number keeps whether it was written as an integer, of a
  list or an object only the length counts here. An entry is \<open>None\<close> when it is no object; a key it does
  not have is \<open>None\<close>; its sheet is a list of numbers. \<open>Raised\<close> is an exception no check of the code
  words, which names no Capture Setup.
\<close>

datatype file_value =
  V_null | V_bool bool | V_int int | V_float py_float | V_text string | V_list nat | V_object nat

record print_entry =
  pe_source :: "file_value option"
  pe_scale :: "file_value option"
  pe_sheet :: "real list option"

datatype py_error = Attribute_error | Key_error string | Type_error | Value_error | Overflow_error

datatype print_error = No_source string | Bad_scale string | Different_prints nat | Raised py_error

fun truthy :: "file_value \<Rightarrow> bool" where
  "truthy V_null = False"
| "truthy (V_bool b) = b"
| "truthy (V_int i) = (i \<noteq> 0)"
| "truthy (V_float x) = (x \<noteq> Finite 0)"
| "truthy (V_text s) = (s \<noteq> [])"
| "truthy (V_list n) = (n \<noteq> 0)"
| "truthy (V_object n) = (n \<noteq> 0)"

text \<open>
  \<open>float(value)\<close>; \<open>text_float\<close> is its reading of a text, \<open>None\<close> where it raises. An integer that would
  round past the largest float is refused.
\<close>

definition FLOAT_OVERFLOW :: int where "FLOAT_OVERFLOW = 2 ^ 1024 - 2 ^ 970"

fun as_float :: "(string \<Rightarrow> py_float option) \<Rightarrow> file_value \<Rightarrow> py_error + py_float" where
  "as_float text_float (V_float x) = Inr x"
| "as_float text_float (V_int i) = (if \<bar>i\<bar> < FLOAT_OVERFLOW then Inr (Finite (of_int i)) else Inl Overflow_error)"
| "as_float text_float (V_bool b) = Inr (Finite (if b then 1 else 0))"
| "as_float text_float (V_text s) = (case text_float s of None \<Rightarrow> Inl Value_error | Some x \<Rightarrow> Inr x)"
| "as_float text_float _ = Inl Type_error"

definition checked_scale ::
    "(string \<Rightarrow> py_float option) \<Rightarrow> file_value \<Rightarrow> string \<Rightarrow> print_error + real" where
  "checked_scale text_float value where_from =
     (case as_float text_float value of
        Inl e \<Rightarrow> Inl (Raised e)
      | Inr (Finite r) \<Rightarrow> if r \<le> 0 then Inl (Bad_scale where_from) else Inr r
      | Inr _ \<Rightarrow> Inl (Bad_scale where_from))"

definition entry_scale ::
    "(string \<Rightarrow> py_float option) \<Rightarrow> string \<times> print_entry option \<Rightarrow> print_error + real" where
  "entry_scale text_float x =
     (case snd x of
        None \<Rightarrow> Inl (Raised Attribute_error)
      | Some e \<Rightarrow>
          if (case pe_source e of None \<Rightarrow> True | Some v \<Rightarrow> \<not> truthy v) then Inl (No_source (fst x))
          else (case pe_scale e of
                  None \<Rightarrow> Inl (Raised (Key_error ''mm_per_tpl_px''))
                | Some v \<Rightarrow> checked_scale text_float v (fst x)))"

fun print_scales ::
    "(string \<Rightarrow> py_float option) \<Rightarrow> (string \<times> print_entry option) list \<Rightarrow> print_error + (string \<times> real) list" where
  "print_scales text_float [] = Inr []"
| "print_scales text_float (x # xs) =
     (case entry_scale text_float x of
        Inl err \<Rightarrow> Inl err
      | Inr r \<Rightarrow> (case print_scales text_float xs of Inl err \<Rightarrow> Inl err | Inr rs \<Rightarrow> Inr ((fst x, r) # rs)))"

definition entry_print :: "(string \<Rightarrow> py_float option) \<Rightarrow> print_entry option \<Rightarrow> print_error + real list \<times> real" where
  "entry_print text_float x =
     (case x of
        None \<Rightarrow> Inl (Raised Type_error)
      | Some e \<Rightarrow>
          (case (pe_sheet e, pe_scale e) of
             (None, _) \<Rightarrow> Inl (Raised (Key_error ''sheet_tpl_px''))
           | (Some sheet, None) \<Rightarrow> Inl (Raised (Key_error ''mm_per_tpl_px''))
           | (Some sheet, Some v) \<Rightarrow> map_sum id (Pair sheet) (checked_scale text_float v ''print scale'')))"

fun prints_of :: "(string \<Rightarrow> py_float option) \<Rightarrow> print_entry option list \<Rightarrow> print_error + (real list \<times> real) list" where
  "prints_of text_float [] = Inr []"
| "prints_of text_float (x # xs) =
     (case entry_print text_float x of
        Inl err \<Rightarrow> Inl err
      | Inr p \<Rightarrow> (case prints_of text_float xs of Inl err \<Rightarrow> Inl err | Inr ps \<Rightarrow> Inr (p # ps)))"

definition sheet_bound_tpl :: "(string \<Rightarrow> py_float option) \<Rightarrow> print_entry option list \<Rightarrow> print_error + rect" where
  "sheet_bound_tpl text_float entries =
     (case prints_of text_float entries of
        Inl err \<Rightarrow> Inl err
      | Inr ps \<Rightarrow>
          (case remdups ps of
             [(sheet, scale_mm)] \<Rightarrow>
               (let g = SHEET_BOUND_MM / scale_mm in
                case sheet of
                  [x0, y0, x1, y1] \<Rightarrow> Inr (x0 - g, y0 - g, x1 + g, y1 + g)
                | _ \<Rightarrow> Inl (Raised Value_error))
           | ds \<Rightarrow> Inl (Different_prints (length ds))))"

section \<open>Scores and millimetres\<close>

definition ring_score :: "real \<Rightarrow> nat" where
  "ring_score d =
     (case find (\<lambda>rs. d \<le> fst rs) (zip RING_RADII_TPL RING_SCORES) of
        None \<Rightarrow> OUTSIDE_RINGS
      | Some rs \<Rightarrow> snd rs)"

definition score :: "'img vision \<Rightarrow> 'img board_view \<Rightarrow> nat option \<Rightarrow> point list \<Rightarrow> nat list" where
  "score cv v target_index points =
     (let centre = ring_centre cv v target_index in
      map (\<lambda>p. ring_score (norm_point (minus_point p centre) / board_scale v)) points)"

definition to_printed_axes :: "point \<Rightarrow> real \<Rightarrow> point" where
  "to_printed_axes offset mm_per_unit = (fst offset * mm_per_unit, - (snd offset * mm_per_unit))"

text \<open>\<open>None\<close> where the code raises \<open>NotCalibrated\<close>.\<close>

definition millimetres :: "'img vision \<Rightarrow> 'img board_view \<Rightarrow> real option \<Rightarrow> nat option \<Rightarrow> point \<Rightarrow> point option" where
  "millimetres cv v mm_per_tpl_px target_index p =
     (case mm_per_tpl_px of
        None \<Rightarrow> None
      | Some per_px \<Rightarrow> Some (to_printed_axes (minus_point p (ring_centre cv v target_index)) (per_px / board_scale v)))"

section \<open>Fitting a view\<close>

definition interior_fit :: "'img vision \<Rightarrow> 'img \<Rightarrow> matrix3 \<Rightarrow> matrix3 option" where
  "interior_fit cv frame H =
     (case disk cv frame H of
        None \<Rightarrow> None
      | Some c \<Rightarrow>
          let (s, correlation) = digits cv frame H c in
          if correlation < INTERIOR_MIN_CORRELATION then None
          else Some (as_matrix s (fst c - s * fst (artwork_disk cv), snd c - s * snd (artwork_disk cv))))"

definition board_scale_for :: "real \<Rightarrow> real \<Rightarrow> real" where
  "board_scale_for template_span_px frame_span_px = TARGET_NET_SCALE * frame_span_px / template_span_px"

definition net_scale :: "real \<Rightarrow> real \<Rightarrow> real \<Rightarrow> real \<Rightarrow> real \<Rightarrow> real" where
  "net_scale scale template_span_px frame_span_px imgsz canvas_long_side =
     scale * template_span_px / frame_span_px * (imgsz / canvas_long_side)"

definition lowest :: "point list \<Rightarrow> point" where
  "lowest ps = (Min (set (map fst ps)), Min (set (map snd ps)))"

definition highest :: "point list \<Rightarrow> point" where
  "highest ps = (Max (set (map fst ps)), Max (set (map snd ps)))"

definition spread :: "point list \<Rightarrow> real" where
  "spread ps = max (fst (highest ps) - fst (lowest ps)) (snd (highest ps) - snd (lowest ps))"

text \<open>
  \<open>build_view\<close>, from the contours and the homography on: the Targets placed at the Board's scale, the
  origin that leaves a margin round them, and the view in that Board space.
\<close>

definition place_targets :: "real \<Rightarrow> matrix3 \<Rightarrow> polygon list \<Rightarrow> polygon list" where
  "place_targets scale H contours = map (map (apply_to (mat_mul (as_matrix scale (0, 0)) (mat_inv H)))) contours"

definition margin_of :: "polygon list \<Rightarrow> real" where
  "margin_of placed = BOARD_MARGIN * spread (concat placed)"

definition origin_of :: "polygon list \<Rightarrow> point" where
  "origin_of placed = minus_point (lowest (concat placed)) (margin_of placed, margin_of placed)"

definition canvas_of :: "polygon list \<Rightarrow> int \<times> int" where
  "canvas_of placed =
     (let hi = highest (concat placed); lo = origin_of placed; m = margin_of placed in
      (\<lceil>fst hi - fst lo + m\<rceil>, \<lceil>snd hi - snd lo + m\<rceil>))"

definition view_on :: "'img vision \<Rightarrow> rect \<Rightarrow> 'img \<Rightarrow> matrix3 \<Rightarrow> real \<Rightarrow> polygon list \<Rightarrow> 'img board_view" where
  "view_on cv bound frame H scale contours =
     (let placed = place_targets scale H contours;
          lo = origin_of placed;
          m = as_matrix scale (- fst lo, - snd lo);
          ts = map (map (apply_to (as_matrix 1 (- fst lo, - snd lo)))) placed;
          bounds = sheet_bounds cv ts m bound
      in \<lparr>vw_H = H, tpl_to_board = m, canvas_size = canvas_of placed, targets = ts,
          anchor = \<lparr>an_gray = gray_of cv frame, an_region = region_of cv H frame (template_span cv), an_H = H\<rparr>,
          sheets = bounds, crops = sheet_crops bounds SHEET_CONTEXT_PX\<rparr>)"

text \<open>\<open>Some None\<close> is \<open>(None, None)\<close>, and \<open>None\<close> a \<open>cv2.error\<close> of \<open>register\<close>.\<close>

definition build_view :: "'img vision \<Rightarrow> rect \<Rightarrow> 'img \<Rightarrow> ('img board_view \<times> real) option option" where
  "build_view cv bound frame =
     (case find_targets cv frame of
        [] \<Rightarrow> Some None
      | c # cs \<Rightarrow>
          (case fit_affine cv frame c of
             None \<Rightarrow> None
           | Some (H, correlation) \<Rightarrow>
               let H' = (case interior_fit cv frame H of None \<Rightarrow> H | Some A \<Rightarrow> mat_mul H A);
                   scale = board_scale_for (template_span cv) (span_of cv c)
               in Some (Some (view_on cv bound frame H' scale (c # cs), correlation))))"

text \<open>\<open>track_view\<close>: \<open>None\<close> is \<open>cv2.error\<close>, no evidence from the frame.\<close>

definition track_view ::
    "'img vision \<Rightarrow> 'img \<Rightarrow> 'img board_view \<Rightarrow> matrix3 option \<Rightarrow> 'img option \<Rightarrow> ('img board_view \<times> real) option" where
  "track_view cv frame reference seed previous =
     (let a = anchor reference;
          W = mat_mul (case seed of None \<Rightarrow> vw_H reference | Some s \<Rightarrow> s) (mat_inv (an_H a));
          start = (case (seed, previous) of
                     (None, Some before) \<Rightarrow>
                       map_option (\<lambda>shift. mat_mul shift W)
                         (shift_between cv (gray_of cv before) (gray_of cv frame) W (an_region a))
                   | _ \<Rightarrow> Some W)
      in case start of
           None \<Rightarrow> None
         | Some W' \<Rightarrow>
             map_option (\<lambda>(fitted, correlation). (reference\<lparr>vw_H := mat_mul fitted (an_H a)\<rparr>, correlation))
               (ecc cv (an_gray a) (gray_of cv frame) W' (an_region a)))"

text \<open>\<open>reanchor_view\<close>: the best fit so far, \<open>None\<close> at first, over the Targets in view.\<close>

definition reanchor_one ::
    "'img vision \<Rightarrow> 'img \<Rightarrow> 'img board_view \<Rightarrow> ('img board_view \<times> real) option \<Rightarrow> polygon
      \<Rightarrow> ('img board_view \<times> real) option" where
  "reanchor_one cv frame reference best contour =
     (case fit_silhouette cv frame contour of
        None \<Rightarrow> best
      | Some seed \<Rightarrow>
          (case track_view cv frame reference (Some seed) None of
             None \<Rightarrow> best
           | Some fit \<Rightarrow>
               if max REANCHOR_MIN_CORRELATION (case best of None \<Rightarrow> 0 | Some b \<Rightarrow> snd b) \<le> snd fit
               then Some fit else best))"

definition reanchor_view ::
    "'img vision \<Rightarrow> 'img \<Rightarrow> 'img board_view \<Rightarrow> ('img board_view \<times> real) option" where
  "reanchor_view cv frame reference = foldl (reanchor_one cv frame reference) None (find_targets cv frame)"

datatype disagreement = No_verdict | No_target | Apart real

definition mean_point :: "polygon \<Rightarrow> point" where
  "mean_point t = (sum_list (map fst t) / real (length t), sum_list (map snd t) / real (length t))"

definition silhouette_disagreement :: "'img vision \<Rightarrow> 'img \<Rightarrow> 'img board_view \<Rightarrow> disagreement" where
  "silhouette_disagreement cv frame v =
     (case find_targets cv frame of
        [] \<Rightarrow> No_target
      | c # _ \<Rightarrow>
          (case fit_silhouette cv frame c of
             None \<Rightarrow> No_verdict
           | Some own_H \<Rightarrow>
               let centre = mean_point (targets v ! 0);
                   own = apply_to (mat_mul (tpl_to_board v) (mat_inv own_H)) (board_to_frame v centre)
               in Apart (norm_point (minus_point own centre))))"

text \<open>Per Target of the frame, how far its own fit is from where the view puts it.\<close>

definition board_residuals :: "'img vision \<Rightarrow> 'img \<Rightarrow> 'img board_view \<Rightarrow> real option list" where
  "board_residuals cv frame v =
     map (\<lambda>contour. map_option (\<lambda>own_H. norm_point (minus_point (frame_to_board v (mean_point contour))
            (apply_to (mat_mul (tpl_to_board v) (mat_inv own_H)) (mean_point contour))))
          (fit_silhouette cv frame contour)) (find_targets cv frame)"

text \<open>Board space moved up and left by \<open>d\<close> under fixed canvases.\<close>

definition shifted :: "'img board_view \<Rightarrow> real \<Rightarrow> 'img board_view" where
  "shifted v d =
     v\<lparr>tpl_to_board := mat_mul (as_matrix 1 (- d, - d)) (tpl_to_board v),
       targets := map (map (\<lambda>p. minus_point p (d, d))) (targets v),
       sheets := map (\<lambda>(x0, y0, x1, y1). (x0 - d, y0 - d, x1 - d, y1 - d)) (sheets v)\<rparr>"

section \<open>Positions in Board space\<close>

text \<open>Board space is the template's, scaled and moved: what \<open>build_view\<close> makes and every fit keeps.\<close>

definition scaled_view :: "'img board_view \<Rightarrow> bool" where
  "scaled_view v \<longleftrightarrow> 0 < board_scale v \<and> tpl_to_board v = as_matrix (board_scale v)
     (snd (snd (fst (tpl_to_board v))), snd (snd (fst (snd (tpl_to_board v)))))"

lemma scaled_viewE:
  assumes "scaled_view v"
  obtains x y where "0 < board_scale v" "tpl_to_board v = as_matrix (board_scale v) (x, y)"
  using assms by (auto simp: scaled_view_def)

lemma scaled_viewI: "tpl_to_board v = as_matrix s (x, y) \<Longrightarrow> 0 < s \<Longrightarrow> scaled_view v"
  by (simp add: scaled_view_def board_scale_def as_matrix_def)

lemma on_template_eq:
  assumes "scaled_view v" "tpl_to_board v = as_matrix (board_scale v) (x, y)"
  shows "on_template v p = ((fst p - x) / board_scale v, (snd p - y) / board_scale v)"
  using assms by (simp add: on_template_def inv_as_matrix apply_as_matrix scaled_view_def diff_divide_distrib)

lemma template_board_round_trip:
  assumes "scaled_view v"
  shows "on_template v (template_to_board v p) = p" "template_to_board v (on_template v p) = p"
proof -
  obtain x y where s: "0 < board_scale v" "tpl_to_board v = as_matrix (board_scale v) (x, y)"
    using assms by (rule scaled_viewE)
  then show "on_template v (template_to_board v p) = p" "template_to_board v (on_template v p) = p"
    by (simp_all add: on_template_eq [OF assms s(2)] template_to_board_def apply_as_matrix)
qed

lemma frame_board_round_trip:
  assumes "scaled_view v" "mat_det (vw_H v) \<noteq> 0" "third (mat_mul (vw_H v) (mat_inv (tpl_to_board v))) p \<noteq> 0"
  shows "frame_to_board v (board_to_frame v p) = p"
proof -
  let ?T = "tpl_to_board v" and ?H = "vw_H v"
  have det: "mat_det ?T \<noteq> 0"
  proof -
    obtain x y where s: "0 < board_scale v" "?T = as_matrix (board_scale v) (x, y)"
      using assms(1) by (rule scaled_viewE)
    have "mat_det ?T = board_scale v * board_scale v" by (subst s(2)) simp
    with s(1) show ?thesis by simp
  qed
  have "frame_to_board v (board_to_frame v p)
      = apply_to (mat_mul (mat_mul ?T (mat_inv ?H)) (mat_mul ?H (mat_inv ?T))) p"
    unfolding frame_to_board_def board_to_frame_def using assms(3) by (simp only: apply_mat_mul not_False_eq_True)
  also have "mat_mul (mat_mul ?T (mat_inv ?H)) (mat_mul ?H (mat_inv ?T))
      = mat_mul ?T (mat_mul (mat_mul (mat_inv ?H) ?H) (mat_inv ?T))"
    by (simp only: mat_mul_assoc)
  also have "\<dots> = as_matrix 1 (0, 0)"
    using assms(2) det by (simp add: mat_inv_left mat_inv_right)
  finally show ?thesis by simp
qed

text \<open>
  A point of the template and its place in Board space, and a place in Board space and the pixel
  of the frame it is seen at, are each other's: going there and back changes nothing, for every view
  whose Board space is the template's scaled and moved, whose fit can be inverted, and every place in
  front of the camera.
\<close>

theorem board_positions_round_trip:
  assumes "scaled_view v"
  shows "on_template v (template_to_board v p) = p \<and> template_to_board v (on_template v p) = p
    \<and> (mat_det (vw_H v) \<noteq> 0 \<longrightarrow> third (mat_mul (vw_H v) (mat_inv (tpl_to_board v))) p \<noteq> 0 \<longrightarrow>
         frame_to_board v (board_to_frame v p) = p)"
  using template_board_round_trip [OF assms] frame_board_round_trip [OF assms] by blast

text \<open>What is measured of a place does not depend on how Board space is scaled or moved.\<close>

lemma norm_point_scale: "0 < s \<Longrightarrow> norm_point (x / s, y / s) = norm_point (x, y) / s"
proof -
  assume s: "0 < s"
  have "x / s * (x / s) + y / s * (y / s) = (x * x + y * y) / (s * s)"
    by (simp add: add_divide_distrib)
  then have "norm_point (x / s, y / s) = sqrt (x * x + y * y) / sqrt (s * s)"
    by (simp only: norm_point_def fst_conv snd_conv real_sqrt_divide)
  then show ?thesis using s by (simp add: norm_point_def)
qed

lemma minus_on_template:
  assumes "scaled_view v"
  shows "minus_point (on_template v p) (on_template v q)
    = (fst (minus_point p q) / board_scale v, snd (minus_point p q) / board_scale v)"
proof -
  obtain x y where s: "tpl_to_board v = as_matrix (board_scale v) (x, y)"
    using assms by (rule scaled_viewE)
  show ?thesis
    by (simp add: on_template_eq [OF assms s] minus_point_def diff_divide_distrib [symmetric])
qed

lemma norm_on_template:
  assumes "scaled_view v"
  shows "norm_point (minus_point (on_template v p) (on_template v q)) = norm_point (minus_point p q) / board_scale v"
  using minus_on_template [OF assms, of p q] norm_point_scale [of "board_scale v"] assms
  by (simp add: scaled_view_def)

lemma ring_score_anti: "d \<le> d' \<Longrightarrow> ring_score d' \<le> ring_score d"
  by (simp add: ring_score_def RING_RADII_TPL_def RING_SCORES_def RING_DIAMETER_TPL_def OUTSIDE_RINGS_def)

lemma norm_printed: "norm_point (to_printed_axes p k) = norm_point p * \<bar>k\<bar>"
proof -
  have "fst p * k * (fst p * k) + snd p * k * (snd p * k) = (fst p * fst p + snd p * snd p) * (k * k)"
    by (simp add: algebra_simps)
  then show ?thesis
    by (simp add: norm_point_def to_printed_axes_def real_sqrt_mult)
qed

definition template_distance :: "'img vision \<Rightarrow> 'img board_view \<Rightarrow> nat option \<Rightarrow> point \<Rightarrow> real" where
  "template_distance cv v k p = norm_point (minus_point (on_template v p) (on_template v (ring_centre cv v k)))"

text \<open>
  C9. A score and a Shot Distance measure the same distance from the Target's centre, the one in
  template pixels, whatever scale and origin Board space has: the score is that of the ring this
  distance lies in, and never falls as it shrinks; the Shot Distance is this distance times the print
  scale, and there is none without one.
\<close>

theorem score_and_distance_measure_the_template:
  assumes "scaled_view v"
  shows "score cv v k ps = map (\<lambda>p. ring_score (template_distance cv v k p)) ps
    \<and> (template_distance cv v k p \<le> template_distance cv v k q \<longrightarrow>
         ring_score (template_distance cv v k q) \<le> ring_score (template_distance cv v k p))
    \<and> millimetres cv v None k p = None
    \<and> (0 < mm_per_px \<longrightarrow>
         (\<exists>xy. millimetres cv v (Some mm_per_px) k p = Some xy
            \<and> norm_point xy = template_distance cv v k p * mm_per_px))"
  using norm_on_template [OF assms(1)] assms(1)
  by (simp add: score_def Let_def template_distance_def millimetres_def ring_score_anti norm_printed scaled_view_def)

section \<open>Board space moved under its canvases\<close>

lemma board_to_frame_eq:
  assumes "scaled_view v"
  shows "board_to_frame v p = apply_to (vw_H v) (on_template v p)"
proof -
  obtain x y where s: "0 < board_scale v" "tpl_to_board v = as_matrix (board_scale v) (x, y)"
    using assms by (rule scaled_viewE)
  have "mat_inv (tpl_to_board v) = as_matrix (1 / board_scale v) (- x / board_scale v, - y / board_scale v)"
    using s inv_as_matrix [of "board_scale v"] by (metis less_irrefl)
  then have "third (mat_inv (tpl_to_board v)) p \<noteq> 0" by simp
  then show ?thesis by (simp add: board_to_frame_def on_template_def apply_mat_mul)
qed

lemma shifted_matrix:
  assumes "tpl_to_board v = as_matrix s (x, y)"
  shows "tpl_to_board (shifted v d) = as_matrix s (x - d, y - d)" "board_scale (shifted v d) = board_scale v"
  using assms by (simp_all add: shifted_def mul_as_matrix board_scale_def as_matrix_def [of s] mat_mul_def row_mul_def as_matrix_def [of 1])

lemma shifted_scaled: "scaled_view v \<Longrightarrow> scaled_view (shifted v d)"
  by (erule scaled_viewE) (metis scaled_viewI shifted_matrix(1))

lemma shifted_on_template:
  assumes "scaled_view v"
  shows "on_template (shifted v d) (minus_point p (d, d)) = on_template v p"
proof -
  obtain x y where s: "tpl_to_board v = as_matrix (board_scale v) (x, y)"
    using assms by (rule scaled_viewE)
  have s': "tpl_to_board (shifted v d) = as_matrix (board_scale (shifted v d)) (x - d, y - d)"
    using shifted_matrix [OF s] by simp
  show ?thesis
    by (simp add: on_template_eq [OF shifted_scaled [OF assms] s'] on_template_eq [OF assms s]
        shifted_matrix(2) [OF s] minus_point_def)
qed

lemma first_index_map: "first_index P (map f xs) = first_index (\<lambda>x. P (f x)) xs"
  by (induction xs) simp_all

lemma shifted_sheet_of: "sheet_of (shifted v d) (minus_point p (d, d)) = sheet_of v p"
proof -
  have "in_rect (case b of (x0, y0, x1, y1) \<Rightarrow> (x0 - d, y0 - d, x1 - d, y1 - d)) (minus_point p (d, d)) = in_rect b p" for b
    by (simp add: in_rect_def minus_point_def split: prod.split)
  then show ?thesis by (simp add: sheet_of_def shifted_def first_index_map)
qed

text \<open>That moments and the point in polygon test are of the shape and not of where it is.\<close>

definition moves_with :: "'img vision \<Rightarrow> bool" where
  "moves_with cv \<longleftrightarrow>
     (\<forall>t p d. on_polygon cv (map (\<lambda>q. minus_point q (d, d)) t) (minus_point p (d, d)) = on_polygon cv t p)
     \<and> (\<forall>t d. moments_of cv (map (\<lambda>q. minus_point q (d, d)) t)
          = (case moments_of cv t of (m00, m10, m01) \<Rightarrow> (m00, m10 - d * m00, m01 - d * m00)))"

lemma shifted_ring_centre:
  assumes "scaled_view v" "moves_with cv" "\<forall>j. k = Some j \<longrightarrow> j < length (targets v)"
  shows "ring_centre cv (shifted v d) k = minus_point (ring_centre cv v k) (d, d)"
proof -
  obtain x y where s: "tpl_to_board v = as_matrix (board_scale v) (x, y)"
    using assms(1) by (rule scaled_viewE)
  have ring: "template_to_board (shifted v d) p = minus_point (template_to_board v p) (d, d)" for p
    unfolding template_to_board_def shifted_matrix(1) [OF s] by (subst s) (simp add: apply_as_matrix minus_point_def)
  define t0 where "t0 = targets v ! 0"
  have moved: "moments_of cv (map (\<lambda>q. minus_point q (d, d)) t)
      = (case moments_of cv t of (m00, m10, m01) \<Rightarrow> (m00, m10 - d * m00, m01 - d * m00))" for t
    using assms(2) unfolding moves_with_def by blast
  have area: "fst (moments_of cv (map (\<lambda>q. minus_point q (d, d)) t)) = fst (moments_of cv t)" for t
    by (simp add: moved split: prod.split)
  have mid: "centroid cv (map (\<lambda>q. minus_point q (d, d)) t) = minus_point (centroid cv t) (d, d)"
    if "fst (moments_of cv t) \<noteq> 0" for t
    using that by (cases "moments_of cv t", simp add: centroid_def moved)
      (simp add: minus_point_def diff_divide_distrib)
  show ?thesis
  proof (cases "k = None \<or> targets v = []")
    case True
    moreover have "targets (shifted v d) = [] \<longleftrightarrow> targets v = []" by (simp add: shifted_def)
    ultimately show ?thesis by (cases k) (auto simp: ring_centre_def ring Let_def)
  next
    case False
    then obtain j where j: "k = Some j" "j < length (targets v)" "targets v \<noteq> []" using assms(3) by auto
    then have nth: "targets (shifted v d) ! j = map (\<lambda>q. minus_point q (d, d)) (targets v ! j)"
      "targets (shifted v d) ! 0 = map (\<lambda>q. minus_point q (d, d)) t0" "targets (shifted v d) \<noteq> []"
      by (simp_all add: shifted_def t0_def)
    show ?thesis
      using j nth area mid unfolding ring_centre_def Let_def ring
      by (simp add: t0_def [symmetric]) (simp add: plus_point_def minus_point_def)
  qed
qed

text \<open>
  Moving Board space under fixed canvases, the regression bench's control, moves no measurement:
  the same mark, found \<open>d\<close> up and left of where it was, is the same place of the template and of the
  frame, on the same sheet and Target, with the same score and millimetres. So whatever else changes
  under it comes from the pixel grid the detector sees.
\<close>

theorem shifting_moves_no_measurement:
  assumes "scaled_view v" "moves_with cv" "\<forall>j. k = Some j \<longrightarrow> j < length (targets v)"
    and q_def: "q = minus_point p (d, d)"
  shows "on_template (shifted v d) q = on_template v p \<and> board_to_frame (shifted v d) q = board_to_frame v p
    \<and> sheet_of (shifted v d) q = sheet_of v p \<and> assign_target cv (shifted v d) q = assign_target cv v p
    \<and> score cv (shifted v d) k [q] = score cv v k [p]
    \<and> millimetres cv (shifted v d) per_px k q = millimetres cv v per_px k p"
proof -
  obtain x y where s: "tpl_to_board v = as_matrix (board_scale v) (x, y)"
    using assms(1) by (rule scaled_viewE)
  have H: "vw_H (shifted v d) = vw_H v" by (simp add: shifted_def)
  have away: "minus_point q (ring_centre cv (shifted v d) k) = minus_point p (ring_centre cv v k)"
    by (simp add: shifted_ring_centre [OF assms(1-3)] q_def) (simp add: minus_point_def)
  have "on_polygon cv (map (\<lambda>q. minus_point q (d, d)) t) q = on_polygon cv t p" for t
    using assms(2) unfolding moves_with_def q_def by blast
  then have "assign_target cv (shifted v d) q = assign_target cv v p"
    by (simp add: assign_target_def shifted_def first_index_map)
  then show ?thesis
    using shifted_on_template [OF assms(1)] shifted_sheet_of [of v d p] away H
    by (simp add: board_to_frame_eq shifted_scaled assms(1) q_def score_def Let_def millimetres_def
        shifted_matrix(2) [OF s] split: option.split)
qed

section \<open>Sheets and their canvases\<close>

lemma whole_32_bounds: "v \<le> of_int (whole_32 v)" "of_int (whole_32 v) < v + 32" "32 dvd whole_32 v"
proof -
  have "v \<le> of_int \<lceil>v / 32\<rceil> * 32" "of_int \<lceil>v / 32\<rceil> * 32 < v + 32" by linarith+
  then show "v \<le> of_int (whole_32 v)" "of_int (whole_32 v) < v + 32"
    by (simp_all add: whole_32_def)
qed (simp add: whole_32_def)

text \<open>One side of a canvas: \<open>x\<close> is where it starts, \<open>w\<close> its length, for a bound from \<open>a\<close> to \<open>b\<close>.\<close>

lemma canvas_side:
  fixes a b c :: real
  defines "n \<equiv> b - a + 2 * c"
  defines "w \<equiv> whole_32 n"
  defines "x \<equiv> \<lfloor>a - ((of_int w - n) / 2 + c)\<rfloor>"
  shows "of_int x \<le> a - c" "b + c - 1 < of_int (x + w)" "of_int w < n + 32"
proof -
  have w: "n \<le> of_int w" "of_int w < n + 32" unfolding w_def by (rule whole_32_bounds)+
  have x: "of_int x \<le> a - ((of_int w - n) / 2 + c)" "a - ((of_int w - n) / 2 + c) < of_int x + 1"
    unfolding x_def by linarith+
  show "of_int x \<le> a - c" using x(1) w(1) by (simp add: field_simps)
  show "b + c - 1 < of_int (x + w)" using x(2) w(1) unfolding n_def by (simp add: field_simps)
  show "of_int w < n + 32" by (rule w(2))
qed

definition rect_size :: "rect \<Rightarrow> real \<times> real" where
  "rect_size b = (case b of (x0, y0, x1, y1) \<Rightarrow> (x1 - x0, y1 - y0))"

lemma sheet_bounds_sizes:
  "tpl_to_board v = m \<Longrightarrow> b \<in> set (sheet_bounds cv ts (as_matrix s (x, y)) (x0, y0, x1, y1)) \<Longrightarrow>
   rect_size b = (s * (x1 - x0), s * (y1 - y0))"
  by (auto simp: sheet_bounds_def rect_size_def Let_def apply_as_matrix algebra_simps)

lemma sheet_crop:
  assumes "\<forall>b\<in>set bounds. rect_size b = (wide, high)"
    and "((x, y, w, h), (x0, y0, x1, y1)) \<in> set (zip (sheet_crops bounds c) bounds)"
  shows "w = whole_32 (wide + 2 * c)" "h = whole_32 (high + 2 * c)"
    and "of_int x \<le> x0 - c" "of_int y \<le> y0 - c" "x1 + c - 1 < of_int (x + w)" "y1 + c - 1 < of_int (y + h)"
proof -
  obtain u0 v0 u1 v1 rest where bounds: "bounds = (u0, v0, u1, v1) # rest"
    using assms(2) by (cases bounds) auto
  have sizes: "u1 - u0 = wide" "v1 - v0 = high" using assms(1) by (simp_all add: bounds rect_size_def)
  obtain i where i: "i < length bounds" "sheet_crops bounds c ! i = (x, y, w, h)" "bounds ! i = (x0, y0, x1, y1)"
    using assms(2) by (auto simp: set_zip)
  have "rect_size (bounds ! i) = (wide, high)" using assms(1) i(1) by simp
  then have this_size: "x1 - x0 = wide" "y1 - y0 = high" by (simp_all add: i(3) rect_size_def)
  have crop: "sheet_crops bounds c
      = map (\<lambda>b. (\<lfloor>fst b - ((of_int (whole_32 (wide + 2 * c)) - (wide + 2 * c)) / 2 + c)\<rfloor>,
          \<lfloor>fst (snd b) - ((of_int (whole_32 (high + 2 * c)) - (high + 2 * c)) / 2 + c)\<rfloor>,
          whole_32 (wide + 2 * c), whole_32 (high + 2 * c))) bounds"
    by (subst (1) bounds, simp only: sheet_crops_def list.case prod.case Let_def sizes bounds)
  have at_i: "(x, y, w, h) = (\<lfloor>x0 - ((of_int (whole_32 (x1 - x0 + 2 * c)) - (x1 - x0 + 2 * c)) / 2 + c)\<rfloor>,
      \<lfloor>y0 - ((of_int (whole_32 (y1 - y0 + 2 * c)) - (y1 - y0 + 2 * c)) / 2 + c)\<rfloor>,
      whole_32 (x1 - x0 + 2 * c), whole_32 (y1 - y0 + 2 * c))"
    using i(2) unfolding crop nth_map [OF i(1)] i(3) this_size prod.sel by (simp only: prod.inject) (blast intro: sym)
  show "w = whole_32 (wide + 2 * c)" "h = whole_32 (high + 2 * c)"
    using at_i this_size by simp_all
  show "of_int x \<le> x0 - c" "of_int y \<le> y0 - c" "x1 + c - 1 < of_int (x + w)" "y1 + c - 1 < of_int (y + h)"
    using at_i canvas_side [where a = x0 and b = x1 and c = c] canvas_side [where a = y0 and b = y1 and c = c]
    by simp_all
qed

section \<open>The view a Run starts from\<close>

lemma build_viewE:
  assumes "build_view cv bound frame = Some (Some (v, correlation))"
  obtains c cs H where "find_targets cv frame = c # cs"
    "v = view_on cv bound frame H (board_scale_for (template_span cv) (span_of cv c)) (c # cs)"
proof (cases "find_targets cv frame")
  case Nil
  then show ?thesis using assms by (simp add: build_view_def)
next
  case (Cons c cs)
  show ?thesis
  proof (cases "fit_affine cv frame c")
    case None
    then show ?thesis using assms Cons by (simp add: build_view_def)
  next
    case (Some fit)
    obtain H0 r where fit: "fit = (H0, r)" by (rule prod.exhaust)
    define H where "H = (case interior_fit cv frame H0 of None \<Rightarrow> H0 | Some A \<Rightarrow> mat_mul H0 A)"
    have "v = view_on cv bound frame H (board_scale_for (template_span cv) (span_of cv c)) (c # cs)"
      using assms Cons Some unfolding fit by (simp add: build_view_def Let_def H_def)
    then show ?thesis by (rule that [OF Cons])
  qed
qed

lemma view_on_simps [simp]:
  "vw_H (view_on cv bound frame H scale contours) = H"
  "tpl_to_board (view_on cv bound frame H scale contours)
     = as_matrix scale (- fst (origin_of (place_targets scale H contours)), - snd (origin_of (place_targets scale H contours)))"
  "canvas_size (view_on cv bound frame H scale contours) = canvas_of (place_targets scale H contours)"
  "targets (view_on cv bound frame H scale contours)
     = map (map (\<lambda>q. minus_point q (origin_of (place_targets scale H contours)))) (place_targets scale H contours)"
  "crops (view_on cv bound frame H scale contours)
     = sheet_crops (sheets (view_on cv bound frame H scale contours)) SHEET_CONTEXT_PX"
  "board_scale (view_on cv bound frame H scale contours) = scale"
  by (simp_all add: view_on_def Let_def apply_as_matrix minus_point_def board_scale_def) (simp add: as_matrix_def)

lemma view_on_sheets:
  "sheets (view_on cv bound frame H scale contours)
     = sheet_bounds cv (targets (view_on cv bound frame H scale contours))
         (as_matrix scale (- fst (origin_of (place_targets scale H contours)), - snd (origin_of (place_targets scale H contours)))) bound"
  by (simp add: view_on_def Let_def)

lemma in_extent:
  assumes "p \<in> set ps"
  shows "fst (lowest ps) \<le> fst p" "snd (lowest ps) \<le> snd p" "fst p \<le> fst (highest ps)" "snd p \<le> snd (highest ps)"
  using assms by (simp_all add: lowest_def highest_def)

lemma spread_nonneg: "ps \<noteq> [] \<Longrightarrow> 0 \<le> spread ps"
  using in_extent [of "hd ps" ps] by (auto simp: spread_def)

lemma on_canvas:
  assumes "t \<in> set placed" "q \<in> set t"
  defines "p \<equiv> minus_point q (origin_of placed)"
  shows "0 \<le> margin_of placed" "margin_of placed \<le> fst p" "margin_of placed \<le> snd p"
    "fst p + margin_of placed \<le> of_int (fst (canvas_of placed))"
    "snd p + margin_of placed \<le> of_int (snd (canvas_of placed))"
proof -
  have q: "q \<in> set (concat placed)" using assms(1,2) by auto
  then have "concat placed \<noteq> []" by (metis empty_iff list.set(1))
  then show "0 \<le> margin_of placed" using spread_nonneg by (simp add: margin_of_def BOARD_MARGIN_def)
  show "margin_of placed \<le> fst p" "margin_of placed \<le> snd p"
    using in_extent [OF q] by (simp_all add: p_def minus_point_def origin_of_def)
  have "fst (highest (concat placed)) - fst (origin_of placed) + margin_of placed \<le> of_int (fst (canvas_of placed))"
    "snd (highest (concat placed)) - snd (origin_of placed) + margin_of placed \<le> of_int (snd (canvas_of placed))"
    by (simp_all only: canvas_of_def Let_def fst_conv snd_conv le_of_int_ceiling)
  then show "fst p + margin_of placed \<le> of_int (fst (canvas_of placed))"
    "snd p + margin_of placed \<le> of_int (snd (canvas_of placed))"
    using in_extent(3,4) [OF q] by (simp_all add: p_def minus_point_def)
qed

lemma third_mul_as_matrix: "third (mat_mul (as_matrix s t) m) p = third m p"
  by (simp add: third_def mat_mul_def as_matrix_def row_mul_def row_at_def split: prod.splits)

lemma placed_through_view:
  assumes "third (mat_inv H) q \<noteq> 0"
  shows "minus_point (apply_to (mat_mul (as_matrix s (0, 0)) (mat_inv H)) q) lo
    = apply_to (mat_mul (as_matrix s (- fst lo, - snd lo)) (mat_inv H)) q"
proof -
  have "mat_mul (as_matrix s (- fst lo, - snd lo)) (mat_inv H)
      = mat_mul (as_matrix 1 (- fst lo, - snd lo)) (mat_mul (as_matrix s (0, 0)) (mat_inv H))"
    by (simp add: mat_mul_assoc [symmetric] mul_as_matrix)
  also have "apply_to \<dots> q = apply_to (as_matrix 1 (- fst lo, - snd lo)) (apply_to (mat_mul (as_matrix s (0, 0)) (mat_inv H)) q)"
    using assms by (simp add: apply_mat_mul third_mul_as_matrix)
  finally show ?thesis by (simp add: apply_as_matrix minus_point_def)
qed

text \<open>What is asked of the artwork and of the contours OpenCV finds.\<close>

definition sees_targets :: "'img vision \<Rightarrow> 'img \<Rightarrow> bool" where
  "sees_targets cv frame \<longleftrightarrow> 0 < template_span cv \<and> (\<forall>c\<in>set (find_targets cv frame). c \<noteq> [] \<and> 0 < span_of cv c)"

lemma view_on_scaled: "0 < scale \<Longrightarrow> scaled_view (view_on cv bound frame H scale contours)"
  by (rule scaled_viewI) simp_all

lemma built_scale: "sees_targets cv frame \<Longrightarrow> find_targets cv frame = c # cs \<Longrightarrow>
  0 < board_scale_for (template_span cv) (span_of cv c)"
  by (simp add: sees_targets_def board_scale_for_def TARGET_NET_SCALE_def)

lemma sheet_bounds_length [simp]: "length (sheet_bounds cv ts m bound) = length ts"
  by (simp add: sheet_bounds_def Let_def split: prod.split)

lemma sheet_crops_length [simp]: "length (sheet_crops bounds c) = length bounds"
  by (simp add: sheet_crops_def Let_def split: list.split)

text \<open>
  The view a Run starts from: Board space is the template's, scaled and moved; each Target is where
  its contour in the frame lies in Board space, in the order of the contours; and the canvas holds
  every Target with the same margin all round, half the Targets' spread.
\<close>

theorem built_view_holds_its_targets:
  assumes "build_view cv bound frame = Some (Some (v, correlation))" "sees_targets cv frame"
    and "\<forall>c\<in>set (find_targets cv frame). \<forall>q\<in>set c. third (mat_inv (vw_H v)) q \<noteq> 0"
  shows "scaled_view v \<and> targets v = map (map (frame_to_board v)) (find_targets cv frame)
    \<and> (\<exists>m. \<forall>t\<in>set (targets v). \<forall>p\<in>set t. 0 \<le> m \<and> m \<le> fst p \<and> m \<le> snd p
         \<and> fst p + m \<le> of_int (fst (canvas_size v)) \<and> snd p + m \<le> of_int (snd (canvas_size v)))"
proof -
  obtain c cs H where ts: "find_targets cv frame = c # cs"
    and v: "v = view_on cv bound frame H (board_scale_for (template_span cv) (span_of cv c)) (c # cs)"
    using assms(1) by (rule build_viewE)
  let ?placed = "place_targets (board_scale_for (template_span cv) (span_of cv c)) H (c # cs)"
  have "targets v = map (map (frame_to_board v)) (find_targets cv frame)"
    using assms(3) unfolding ts
    by (auto simp: v place_targets_def frame_to_board_def comp_def placed_through_view)
  moreover have "\<forall>t\<in>set (targets v). \<forall>p\<in>set t. 0 \<le> margin_of ?placed \<and> margin_of ?placed \<le> fst p
      \<and> margin_of ?placed \<le> snd p \<and> fst p + margin_of ?placed \<le> of_int (fst (canvas_size v))
      \<and> snd p + margin_of ?placed \<le> of_int (snd (canvas_size v))"
    using on_canvas [of _ ?placed] unfolding v view_on_simps by (auto simp del: view_on_simps)
  ultimately show ?thesis
    using view_on_scaled [OF built_scale [OF assms(2) ts], of cv bound frame H "c # cs"] by (auto simp: v)
qed

text \<open>
  C10. The canvases the detector is shown are all one size, each side a whole multiple of 32 less than
  32 past what the sheet and its context need; each starts at least the context before its sheet's
  bound and ends more than the context less one pixel after it, so it holds the whole bound. There is
  one per Target.
\<close>

theorem sheet_canvases_hold_their_sheets:
  assumes "build_view cv (x0, y0, x1, y1) frame = Some (Some (v, correlation))" "sees_targets cv frame"
  shows "length (crops v) = length (targets v) \<and> length (sheets v) = length (targets v)
    \<and> (\<exists>w h. 32 dvd w \<and> 32 dvd h
        \<and> of_int w < board_scale v * (x1 - x0) + 2 * SHEET_CONTEXT_PX + 32
        \<and> of_int h < board_scale v * (y1 - y0) + 2 * SHEET_CONTEXT_PX + 32
        \<and> (\<forall>((cx, cy, cw, ch), (a0, b0, a1, b1))\<in>set (zip (crops v) (sheets v)). cw = w \<and> ch = h
            \<and> of_int cx \<le> a0 - SHEET_CONTEXT_PX \<and> of_int cy \<le> b0 - SHEET_CONTEXT_PX
            \<and> a1 + SHEET_CONTEXT_PX - 1 < of_int (cx + w) \<and> b1 + SHEET_CONTEXT_PX - 1 < of_int (cy + h)))"
proof -
  obtain c cs H where ts: "find_targets cv frame = c # cs"
    and v: "v = view_on cv (x0, y0, x1, y1) frame H (board_scale_for (template_span cv) (span_of cv c)) (c # cs)"
    using assms(1) by (rule build_viewE)
  let ?wide = "board_scale v * (x1 - x0)" and ?high = "board_scale v * (y1 - y0)"
  have sizes: "\<forall>b\<in>set (sheets v). rect_size b = (?wide, ?high)"
    unfolding v view_on_sheets by (auto dest!: sheet_bounds_sizes [OF refl])
  have crops: "crops v = sheet_crops (sheets v) SHEET_CONTEXT_PX" unfolding v by (rule view_on_simps)
  have lengths: "length (crops v) = length (targets v)" "length (sheets v) = length (targets v)"
    unfolding crops sheet_crops_length by (simp_all only: v view_on_sheets sheet_bounds_length)
  show ?thesis
    using sheet_crop [OF sizes, of _ _ _ _ _ _ _ _ SHEET_CONTEXT_PX] whole_32_bounds lengths unfolding crops
    by (intro conjI exI [of _ "whole_32 (?wide + 2 * SHEET_CONTEXT_PX)"]
        exI [of _ "whole_32 (?high + 2 * SHEET_CONTEXT_PX)"]) auto
qed

section \<open>Later frames keep Board space\<close>

text \<open>All of a view but its homography: what makes positions of different frames comparable.\<close>

definition same_board :: "'img board_view \<Rightarrow> 'img board_view \<Rightarrow> bool" where
  "same_board v v' \<longleftrightarrow> v'\<lparr>vw_H := vw_H v\<rparr> = v"

lemma same_board_refl [simp]: "same_board v v"
  by (simp add: same_board_def)

lemma same_board_H [simp]: "same_board v (v\<lparr>vw_H := h\<rparr>)"
  by (simp add: same_board_def)

lemma same_board_fields:
  assumes "same_board v v'"
  shows "tpl_to_board v' = tpl_to_board v" "canvas_size v' = canvas_size v" "targets v' = targets v"
    "anchor v' = anchor v" "sheets v' = sheets v" "crops v' = crops v"
  using assms by (cases v; cases v'; simp add: same_board_def)+

lemma same_board_trans: "same_board v v' \<Longrightarrow> same_board v' v'' \<Longrightarrow> same_board v v''"
  by (cases v; cases v'; cases v''; simp add: same_board_def)

lemma same_board_places:
  assumes "same_board v v'"
  shows "on_template v' = on_template v" "template_to_board v' = template_to_board v" "board_scale v' = board_scale v"
    "ring_centre cv v' = ring_centre cv v" "sheet_of v' = sheet_of v" "assign_target cv v' = assign_target cv v"
    "score cv v' = score cv v" "millimetres cv v' = millimetres cv v"
  unfolding fun_eq_iff on_template_def template_to_board_def board_scale_def ring_centre_def sheet_of_def
      assign_target_def score_def millimetres_def same_board_fields [OF assms]
  by (rule refl allI)+

lemma track_view_same:
  "track_view cv frame reference seed previous = Some (v, correlation) \<Longrightarrow> same_board reference v"
  by (auto simp: track_view_def Let_def split: option.splits)

text \<open>The fits a re-anchor chooses from, in the order of the Targets.\<close>

definition fit_from :: "'img vision \<Rightarrow> 'img \<Rightarrow> 'img board_view \<Rightarrow> polygon \<Rightarrow> ('img board_view \<times> real) option" where
  "fit_from cv frame reference c =
     (case fit_silhouette cv frame c of None \<Rightarrow> None | Some seed \<Rightarrow> track_view cv frame reference (Some seed) None)"

definition fits_of :: "'img vision \<Rightarrow> 'img \<Rightarrow> 'img board_view \<Rightarrow> polygon list \<Rightarrow> ('img board_view \<times> real) list" where
  "fits_of cv frame reference contours = List.map_filter (fit_from cv frame reference) contours"

lemma fits_of_simps:
  "fits_of cv frame reference [] = []"
  "fits_of cv frame reference (c # cs) =
     (case fit_from cv frame reference c of None \<Rightarrow> [] | Some fit \<Rightarrow> [fit]) @ fits_of cv frame reference cs"
  by (simp_all add: fits_of_def List.map_filter_simps split: option.split)

lemma fit_from_same: "fit_from cv frame reference c = Some (v, r) \<Longrightarrow> same_board reference v"
  unfolding fit_from_def by (cases "fit_silhouette cv frame c") (auto intro: track_view_same)

lemma fits_of_same: "(v, r) \<in> set (fits_of cv frame reference cs) \<Longrightarrow> same_board reference v"
  by (auto simp: fits_of_def List.map_filter_def intro: fit_from_same)

lemma reanchor_one_fit:
  "reanchor_one cv frame reference best c =
     (case fit_from cv frame reference c of
        None \<Rightarrow> best
      | Some fit \<Rightarrow> if max REANCHOR_MIN_CORRELATION (case best of None \<Rightarrow> 0 | Some b \<Rightarrow> snd b) \<le> snd fit
                    then Some fit else best)"
  by (simp add: reanchor_one_def fit_from_def split: option.split)

definition best_ok :: "('img board_view \<times> real) option \<Rightarrow> ('img board_view \<times> real) set \<Rightarrow> bool" where
  "best_ok best fits \<longleftrightarrow>
     (case best of
        None \<Rightarrow> \<forall>f\<in>fits. snd f < REANCHOR_MIN_CORRELATION
      | Some b \<Rightarrow> b \<in> fits \<and> REANCHOR_MIN_CORRELATION \<le> snd b \<and> (\<forall>f\<in>fits. snd f \<le> snd b))"

lemma best_ok_one:
  "best_ok best fits \<Longrightarrow>
   best_ok (if max REANCHOR_MIN_CORRELATION (case best of None \<Rightarrow> 0 | Some b \<Rightarrow> snd b) \<le> snd fit then Some fit else best)
     (insert fit fits)"
  by (auto simp: best_ok_def REANCHOR_MIN_CORRELATION_def max_def split: option.splits if_splits)
    (force+)?

lemma reanchor_fold:
  "best_ok best fits \<Longrightarrow>
   best_ok (foldl (reanchor_one cv frame reference) best cs) (fits \<union> set (fits_of cv frame reference cs))"
proof (induction cs arbitrary: best fits)
  case (Cons c cs)
  let ?new = "case fit_from cv frame reference c of None \<Rightarrow> [] | Some fit \<Rightarrow> [fit]"
  have "best_ok (reanchor_one cv frame reference best c) (fits \<union> set ?new)"
    using Cons.prems best_ok_one [OF Cons.prems]
    by (cases "fit_from cv frame reference c") (simp_all add: reanchor_one_fit del: max.bounded_iff)
  from Cons.IH [OF this] show ?case by (simp add: fits_of_simps Un_assoc)
qed (simp add: fits_of_simps)

lemma reanchor_best: "best_ok (reanchor_view cv frame reference) (set (fits_of cv frame reference (find_targets cv frame)))"
  using reanchor_fold [of None "{}" cv frame reference "find_targets cv frame"]
  by (simp add: reanchor_view_def best_ok_def)

text \<open>
  C8. A re-anchor takes a fit of the frame at least as well correlated as every other Target's, and
  only one at or above the floor: when no Target's fit reaches it, none is taken. The view it gives
  keeps Board space: scale, origin, Targets, sheets and canvases are the reference's.
\<close>

theorem reanchor_takes_the_best_fit:
  "case reanchor_view cv frame reference of
     None \<Rightarrow> \<forall>f\<in>set (fits_of cv frame reference (find_targets cv frame)). snd f < REANCHOR_MIN_CORRELATION
   | Some (v, correlation) \<Rightarrow>
       (v, correlation) \<in> set (fits_of cv frame reference (find_targets cv frame))
       \<and> REANCHOR_MIN_CORRELATION \<le> correlation
       \<and> (\<forall>f\<in>set (fits_of cv frame reference (find_targets cv frame)). snd f \<le> correlation)
       \<and> same_board reference v"
  using reanchor_best [of cv frame reference]
  by (auto simp: best_ok_def intro: fits_of_same split: option.splits)

section \<open>What else the code promises\<close>

text \<open>The correction puts the artwork's disk centre on the frame's.\<close>

lemma interior_fit_meets_the_disk:
  "interior_fit cv frame H = Some A \<Longrightarrow> disk cv frame H = Some (apply_to A (artwork_disk cv))"
  by (auto simp: interior_fit_def Let_def apply_as_matrix split: option.splits prod.splits if_splits)

text \<open>
  The last context pixel may be missing on the right and below: rounding the start down to a whole
  pixel moves the canvas, and nothing is added for it when the bound and its context already fill
  whole multiples of 32.
\<close>

lemma context_falls_short:
  "sheet_crops [(1 / 2, 1 / 2, 65 / 2, 65 / 2)] SHEET_CONTEXT_PX = [(-32, -32, 96, 96)]"
  "of_int (-32 + 96) < 65 / 2 + SHEET_CONTEXT_PX"
proof -
  have w: "whole_32 96 = 96" by (simp add: whole_32_def)
  have "\<lfloor>- (63 / 2) :: real\<rfloor> = -32" by (simp add: floor_eq_iff)
  then show "sheet_crops [(1 / 2, 1 / 2, 65 / 2, 65 / 2)] SHEET_CONTEXT_PX = [(-32, -32, 96, 96)]"
    by (simp add: sheet_crops_def SHEET_CONTEXT_PX_def Let_def w)
qed (simp add: SHEET_CONTEXT_PX_def)

text \<open>What the reading of the scales asks of an entry that has one, and the entries before a refused one.\<close>

definition traced :: "print_entry \<Rightarrow> bool" where
  "traced e \<longleftrightarrow> pe_source e \<notin> {None, Some V_null, Some (V_bool False), Some (V_int 0), Some (V_float (Finite 0)),
     Some (V_text []), Some (V_list 0), Some (V_object 0)}"

definition has_scale :: "(string \<Rightarrow> py_float option) \<Rightarrow> string \<times> print_entry option \<Rightarrow> real \<Rightarrow> bool" where
  "has_scale text_float x r \<longleftrightarrow>
     (\<exists>e v. snd x = Some e \<and> traced e \<and> pe_scale e = Some v \<and> as_float text_float v = Inr (Finite r) \<and> 0 < r)"

definition first_refused ::
    "(string \<Rightarrow> py_float option) \<Rightarrow> (string \<times> print_entry option) list \<Rightarrow> string \<times> print_entry option \<Rightarrow> bool" where
  "first_refused text_float xs x \<longleftrightarrow>
     (\<exists>before after. xs = before @ x # after \<and> list_all (\<lambda>y. \<exists>r. has_scale text_float y r) before)"

lemma traced_truthy: "(case pe_source e of None \<Rightarrow> True | Some v \<Rightarrow> \<not> truthy v) \<longleftrightarrow> \<not> traced e"
proof (cases "pe_source e")
  case (Some v)
  then show ?thesis by (cases v) (auto simp: traced_def)
qed (simp add: traced_def)

lemma checked_scale_Inr:
  "checked_scale text_float v s = Inr r \<longleftrightarrow> as_float text_float v = Inr (Finite r) \<and> 0 < r"
  by (auto simp: checked_scale_def split: sum.splits py_float.splits)

lemma checked_scale_Inl:
  "checked_scale text_float v s = Inl err \<longleftrightarrow>
     (case as_float text_float v of
        Inl e \<Rightarrow> err = Raised e | Inr x \<Rightarrow> err = Bad_scale s \<and> \<not> (\<exists>r>0. x = Finite r))"
  by (auto simp: checked_scale_def split: sum.splits py_float.splits)

lemma entry_scale_Inr: "entry_scale text_float x = Inr r \<longleftrightarrow> has_scale text_float x r"
  by (auto simp: entry_scale_def has_scale_def traced_truthy checked_scale_Inr split: option.splits)

lemma print_scales_Inr:
  "print_scales text_float xs = Inr rs \<longleftrightarrow> list_all2 (\<lambda>x y. fst y = fst x \<and> has_scale text_float x (snd y)) xs rs"
proof (induction xs arbitrary: rs)
  case (Cons x xs)
  have "print_scales text_float (x # xs) = Inr rs
      \<longleftrightarrow> (\<exists>r rs'. entry_scale text_float x = Inr r \<and> print_scales text_float xs = Inr rs' \<and> rs = (fst x, r) # rs')"
    by (cases "entry_scale text_float x"; cases "print_scales text_float xs") auto
  then show ?case unfolding Cons.IH entry_scale_Inr list_all2_Cons1 by auto
qed auto

lemma print_scales_Inl:
  "print_scales text_float xs = Inl err \<longleftrightarrow>
     (\<exists>x. first_refused text_float xs x \<and> entry_scale text_float x = Inl err)"
proof (induction xs)
  case (Cons x xs)
  show ?case
  proof (cases "entry_scale text_float x")
    case (Inl e)
    then have "\<not> has_scale text_float x r" for r by (simp flip: entry_scale_Inr)
    then have "first_refused text_float (x # xs) y \<longleftrightarrow> y = x" for y
      by (auto simp: first_refused_def Cons_eq_append_conv)
    then show ?thesis using Inl by simp
  next
    case (Inr r)
    then have h: "has_scale text_float x r" by (simp add: entry_scale_Inr)
    have "first_refused text_float (x # xs) y \<longleftrightarrow> y = x \<or> first_refused text_float xs y" for y
    proof
      assume "first_refused text_float (x # xs) y"
      then show "y = x \<or> first_refused text_float xs y"
        by (auto simp: first_refused_def Cons_eq_append_conv)
    next
      assume "y = x \<or> first_refused text_float xs y"
      then show "first_refused text_float (x # xs) y"
      proof
        assume "y = x"
        then show ?thesis unfolding first_refused_def by (intro exI [of _ "[]"] exI [of _ xs]) simp
      next
        assume "first_refused text_float xs y"
        then obtain before after where "xs = before @ y # after" "list_all (\<lambda>y. \<exists>r. has_scale text_float y r) before"
          by (auto simp: first_refused_def)
        with h show ?thesis unfolding first_refused_def by (intro exI [of _ "x # before"] exI [of _ after]) auto
      qed
    qed
    then show ?thesis using Inr Cons.IH by (auto split: sum.splits)
  qed
qed (simp add: first_refused_def)

lemma entry_scale_Inl:
  "entry_scale text_float (n, None) = Inl err \<longleftrightarrow> err = Raised Attribute_error"
  "entry_scale text_float (n, Some e) = Inl err \<longleftrightarrow>
     \<not> traced e \<and> err = No_source n
     \<or> traced e \<and> pe_scale e = None \<and> err = Raised (Key_error ''mm_per_tpl_px'')
     \<or> (\<exists>v x. traced e \<and> pe_scale e = Some v \<and> as_float text_float v = Inl x \<and> err = Raised x)
     \<or> (\<exists>v x. traced e \<and> pe_scale e = Some v \<and> as_float text_float v = Inr x \<and> \<not> (\<exists>r>0. x = Finite r)
           \<and> err = Bad_scale n)"
proof -
  show "entry_scale text_float (n, None) = Inl err \<longleftrightarrow> err = Raised Attribute_error"
    by (auto simp: entry_scale_def)
  have "entry_scale text_float (n, Some e) =
      (if \<not> traced e then Inl (No_source n)
       else case pe_scale e of None \<Rightarrow> Inl (Raised (Key_error ''mm_per_tpl_px'')) | Some v \<Rightarrow> checked_scale text_float v n)"
    unfolding entry_scale_def snd_conv fst_conv option.case traced_truthy by (rule refl)
  then show "entry_scale text_float (n, Some e) = Inl err \<longleftrightarrow>
     \<not> traced e \<and> err = No_source n
     \<or> traced e \<and> pe_scale e = None \<and> err = Raised (Key_error ''mm_per_tpl_px'')
     \<or> (\<exists>v x. traced e \<and> pe_scale e = Some v \<and> as_float text_float v = Inl x \<and> err = Raised x)
     \<or> (\<exists>v x. traced e \<and> pe_scale e = Some v \<and> as_float text_float v = Inr x \<and> \<not> (\<exists>r>0. x = Finite r)
           \<and> err = Bad_scale n)"
    by (cases "traced e"; cases "pe_scale e") (auto simp: checked_scale_Inl split: sum.splits)
qed

lemmas print_scales_errors = print_scales_Inl split_paired_Ex split_option_ex entry_scale_Inl

text \<open>
  C40. The print scales are read exactly when every entry is an object with a source (not empty, not
  null) and a length that \<open>float\<close> makes finite and above zero: then each entry's own scale is returned,
  in the file's order. Otherwise the first entry that is not so decides: it is refused by its Capture
  Setup's name when it has no source, or when \<open>float\<close> makes a length of it that is infinite, not a
  number, or not above zero; an entry that is no object, has no \<open>mm_per_tpl_px\<close>, or one that \<open>float\<close> does
  not take raises what Python raises, which does not name it.
\<close>

theorem print_scales_are_checked:
  "(print_scales text_float xs = Inr rs
      \<longleftrightarrow> list_all2 (\<lambda>x y. fst y = fst x \<and> has_scale text_float x (snd y)) xs rs)
   \<and> (print_scales text_float xs = Inl (No_source s)
      \<longleftrightarrow> (\<exists>e. first_refused text_float xs (s, Some e) \<and> \<not> traced e))
   \<and> (print_scales text_float xs = Inl (Bad_scale s)
      \<longleftrightarrow> (\<exists>e v x. first_refused text_float xs (s, Some e) \<and> traced e \<and> pe_scale e = Some v
            \<and> as_float text_float v = Inr x \<and> \<not> (\<exists>r>0. x = Finite r)))
   \<and> (print_scales text_float xs = Inl (Raised err)
      \<longleftrightarrow> (\<exists>n. first_refused text_float xs (n, None) \<and> err = Attribute_error)
        \<or> (\<exists>n e. first_refused text_float xs (n, Some e) \<and> traced e
              \<and> (pe_scale e = None \<and> err = Key_error ''mm_per_tpl_px''
                 \<or> (\<exists>v. pe_scale e = Some v \<and> as_float text_float v = Inl err))))"
proof (intro conjI)
  show "print_scales text_float xs = Inr rs
      \<longleftrightarrow> list_all2 (\<lambda>x y. fst y = fst x \<and> has_scale text_float x (snd y)) xs rs"
    by (rule print_scales_Inr)
  show "print_scales text_float xs = Inl (No_source s)
      \<longleftrightarrow> (\<exists>e. first_refused text_float xs (s, Some e) \<and> \<not> traced e)"
    unfolding print_scales_errors by simp
  show "print_scales text_float xs = Inl (Bad_scale s)
      \<longleftrightarrow> (\<exists>e v x. first_refused text_float xs (s, Some e) \<and> traced e \<and> pe_scale e = Some v
            \<and> as_float text_float v = Inr x \<and> \<not> (\<exists>r>0. x = Finite r))"
    unfolding print_scales_errors by auto
  show "print_scales text_float xs = Inl (Raised err)
      \<longleftrightarrow> (\<exists>n. first_refused text_float xs (n, None) \<and> err = Attribute_error)
        \<or> (\<exists>n e. first_refused text_float xs (n, Some e) \<and> traced e
              \<and> (pe_scale e = None \<and> err = Key_error ''mm_per_tpl_px''
                 \<or> (\<exists>v. pe_scale e = Some v \<and> as_float text_float v = Inl err)))"
    unfolding print_scales_errors by auto
qed

text \<open>A Capture Setup whose scale is missing, and one whose scale is a word, stop the reading unnamed.\<close>

lemma unnamed_scale_errors:
  "print_scales (\<lambda>_. None) [(''CamA'', Some \<lparr>pe_source = Some (V_text ''x''), pe_scale = None, pe_sheet = None\<rparr>)]
     = Inl (Raised (Key_error ''mm_per_tpl_px''))"
  "print_scales (\<lambda>_. None) [(''CamA'', Some \<lparr>pe_source = Some (V_text ''x''), pe_scale = Some (V_text ''abc''), pe_sheet = None\<rparr>)]
     = Inl (Raised Value_error)"
  by (simp_all add: entry_scale_def checked_scale_def)

section \<open>What is remembered of images\<close>

text \<open>
  \<open>_remembered\<close>: a function of one array, kept for the last \<open>size\<close> arrays by identity. Arrays are never
  changed in place, so an identity stands for its contents. A call reads the memo once, and writes it
  once when it had to compute; other threads may have written in between.
\<close>

definition recall :: "('a \<Rightarrow> 'b) \<Rightarrow> ('a \<times> 'b) list \<Rightarrow> 'a \<Rightarrow> 'b" where
  "recall fn got a = (case find (\<lambda>e. fst e = a) got of None \<Rightarrow> fn a | Some e \<Rightarrow> snd e)"

definition remember :: "('a \<Rightarrow> 'b) \<Rightarrow> nat \<Rightarrow> ('a \<times> 'b) list \<Rightarrow> 'a \<Rightarrow> ('a \<times> 'b) list option" where
  "remember fn n got a =
     (case find (\<lambda>e. fst e = a) got of None \<Rightarrow> Some ((a, fn a) # take (n - 1) got) | Some e \<Rightarrow> None)"

text \<open>The memo and, per call in progress, its argument and what it read.\<close>

inductive memo_step :: "('a \<Rightarrow> 'b) \<Rightarrow> nat \<Rightarrow> ('a \<times> 'b) list \<times> ('a \<times> ('a \<times> 'b) list) list
    \<Rightarrow> ('a \<times> 'b) list \<times> ('a \<times> ('a \<times> 'b) list) list \<Rightarrow> bool" for fn n where
  memo_read: "memo_step fn n (memo, calls) (memo, calls @ [(a, memo)])"
| memo_write: "(a, got) \<in> set calls \<Longrightarrow> remember fn n got a = Some memo' \<Longrightarrow>
    memo_step fn n (memo, calls) (memo', calls)"

definition memo_right :: "('a \<Rightarrow> 'b) \<Rightarrow> nat \<Rightarrow> ('a \<times> 'b) list \<Rightarrow> bool" where
  "memo_right fn n memo \<longleftrightarrow> length memo \<le> n \<and> (\<forall>k b. (k, b) \<in> set memo \<longrightarrow> b = fn k)"

definition memo_ok :: "('a \<Rightarrow> 'b) \<Rightarrow> nat \<Rightarrow> ('a \<times> 'b) list \<times> ('a \<times> ('a \<times> 'b) list) list \<Rightarrow> bool" where
  "memo_ok fn n st \<longleftrightarrow> memo_right fn n (fst st) \<and> (\<forall>c\<in>set (snd st). memo_right fn n (snd c))"

lemma recall_right: "memo_right fn n got \<Longrightarrow> recall fn got a = fn a"
  by (cases "find (\<lambda>e. fst e = a) got") (auto simp: recall_def memo_right_def dest: find_SomeD)

lemma remember_right: "0 < n \<Longrightarrow> memo_right fn n got \<Longrightarrow> remember fn n got a = Some memo' \<Longrightarrow> memo_right fn n memo'"
  using set_take_subset [of "n - 1" got]
  by (cases "find (\<lambda>e. fst e = a) got") (auto simp: remember_def memo_right_def subset_iff)

interpretation memos: invariant_system "\<lambda>st. st = ([], [])" "\<lambda>st st'. 0 < n \<and> memo_step fn n st st'" "memo_ok fn n" for fn n
proof
  fix st st' :: "('a \<times> 'b) list \<times> ('a \<times> ('a \<times> 'b) list) list"
  show "memo_ok fn n st" if "st = ([], [])"
    using that by (simp add: memo_ok_def memo_right_def)
  show "memo_ok fn n st'" if "memo_ok fn n st" "0 < n \<and> memo_step fn n st st'"
  proof -
    have "memo_step fn n st st'" "0 < n" using that(2) by simp_all
    then show ?thesis
      using that(1) remember_right [of n fn] by cases (auto simp: memo_ok_def)
  qed
qed

text \<open>So every call, whatever other threads do meanwhile, returns what the function would.\<close>

lemma remembered_is_computed:
  assumes "reach (\<lambda>st. st = ([], [])) (\<lambda>st st'. 0 < n \<and> memo_step fn n st st') (memo, calls)" "(a, got) \<in> set calls"
  shows "recall fn got a = fn a"
proof -
  have "memo_right fn n got" using memos.reach_inv [OF assms(1)] assms(2) by (auto simp: memo_ok_def)
  then show ?thesis by (rule recall_right)
qed

section \<open>A small Board\<close>

text \<open>One square Target, seen as the template is, in every frame but 99.\<close>

definition sample_vision :: "nat vision" where
  "sample_vision =
     \<lparr>find_targets = \<lambda>f. if f = 99 then [] else [[(0, 0), (100, 0), (100, 100)]],
      fit_silhouette = \<lambda>f c. Some (as_matrix 1 (0, 0)),
      fit_affine = \<lambda>f c. Some (as_matrix 1 (0, 0), 95 / 100),
      disk = \<lambda>f h. None, digits = \<lambda>f h c. (1, 1), artwork_disk = (0, 0),
      template_span = 180, span_of = \<lambda>c. 100, gray_of = \<lambda>f. f, region_of = \<lambda>h f s. f,
      shift_between = \<lambda>f g h r. Some (as_matrix 1 (0, 0)),
      ecc = \<lambda>a f W r. if f = 0 then None else Some (W, if f < 50 then 95 / 100 else 1 / 2),
      moments_of = \<lambda>t. case t of [] \<Rightarrow> (0, 0, 0) | p # _ \<Rightarrow> (1, fst p, snd p),
      on_polygon = \<lambda>t p. p \<in> set t\<rparr>"

definition sample_board :: "nat board_view" where
  "sample_board = view_on sample_vision (0, 0, 200, 100) 1 (as_matrix 1 (0, 0)) (1 / 2) [[(0, 0), (100, 0), (100, 100)]]"

lemma sample_build: "build_view sample_vision (0, 0, 200, 100) 1 = Some (Some (sample_board, 95 / 100))"
  by (simp add: build_view_def sample_vision_def interior_fit_def board_scale_for_def TARGET_NET_SCALE_def
      sample_board_def Let_def)

lemma sample_sees: "sees_targets sample_vision 1"
  by (simp add: sees_targets_def sample_vision_def)

lemma sample_scaled: "scaled_view sample_board"
  unfolding sample_board_def by (rule view_on_scaled) simp

lemma sample_H [simp]: "vw_H sample_board = as_matrix 1 (0, 0)"
  by (simp add: sample_board_def)

lemma minus_point_inj: "minus_point p d = minus_point q d \<longleftrightarrow> p = q"
  by (cases p; cases q) (simp add: minus_point_def)

lemma sample_moves: "moves_with sample_vision"
  by (auto simp: moves_with_def sample_vision_def minus_point_inj split: list.split) (simp_all add: minus_point_def)

lemma sample_targets: "length (targets sample_board) = 1"
  by (simp add: sample_board_def place_targets_def)

theorem board_positions_round_trip_witness:
  "frame_to_board sample_board (board_to_frame sample_board (3, 4)) = (3, 4)"
proof -
  have "third (mat_inv (tpl_to_board sample_board)) (3, 4) \<noteq> 0"
    by (simp add: sample_board_def inv_as_matrix)
  then show ?thesis
    using board_positions_round_trip [OF sample_scaled, of "(3, 4)"] by simp
qed

theorem score_and_distance_measure_the_template_witness:
  "score sample_vision sample_board None [template_to_board sample_board RING_CENTRE_TPL] = [10]"
  using score_and_distance_measure_the_template
    [OF sample_scaled, of sample_vision None "[template_to_board sample_board RING_CENTRE_TPL]"]
  by (simp add: template_distance_def ring_centre_def minus_point_def norm_point_def ring_score_def RING_RADII_TPL_def
      RING_SCORES_def RING_DIAMETER_TPL_def)

theorem shifting_moves_no_measurement_witness:
  "on_template (shifted sample_board 8) (-3, 7) = on_template sample_board (5, 15)
   \<and> sheet_of (shifted sample_board 8) (-3, 7) = sheet_of sample_board (5, 15)"
proof -
  have "\<forall>j. Some 0 = Some j \<longrightarrow> j < length (targets sample_board)" by (simp add: sample_targets)
  from shifting_moves_no_measurement [OF sample_scaled sample_moves this, of "(-3, 7)" "(5, 15)" 8]
  show ?thesis by (simp add: minus_point_def)
qed

theorem built_view_holds_its_targets_witness:
  "targets sample_board = map (map (frame_to_board sample_board)) [[(0, 0), (100, 0), (100, 100)]]"
proof -
  have "\<forall>c\<in>set (find_targets sample_vision 1). \<forall>q\<in>set c. third (mat_inv (vw_H sample_board)) q \<noteq> 0"
    by (simp add: inv_as_matrix)
  from built_view_holds_its_targets [OF sample_build sample_sees this]
  show ?thesis by (simp add: sample_vision_def)
qed

theorem sheet_canvases_hold_their_sheets_witness:
  "length (crops sample_board) = 1 \<and> length (sheets sample_board) = 1"
  using sheet_canvases_hold_their_sheets [OF sample_build sample_sees] by (simp add: sample_targets)

theorem reanchor_takes_the_best_fit_witness:
  "case reanchor_view sample_vision 2 sample_board of
     None \<Rightarrow> False
   | Some (v, correlation) \<Rightarrow> 95 / 100 \<le> correlation \<and> same_board sample_board v"
proof -
  obtain v where v: "fit_from sample_vision 2 sample_board [(0, 0), (100, 0), (100, 100)] = Some (v, 95 / 100)"
    by (simp add: fit_from_def track_view_def sample_vision_def Let_def)
  have "find_targets sample_vision 2 = [[(0, 0), (100, 0), (100, 100)]]" by (simp add: sample_vision_def)
  then have "fits_of sample_vision 2 sample_board (find_targets sample_vision 2) = [(v, 95 / 100)]"
    by (simp add: fits_of_simps v)
  then show ?thesis
    using reanchor_takes_the_best_fit [of sample_vision 2 sample_board]
    by (cases "reanchor_view sample_vision 2 sample_board") (auto simp: REANCHOR_MIN_CORRELATION_def)
qed

end
