(* ===== verification/Board_Registration.thy ===== *)
theory Board_Registration
  imports Run_Loop Frame_Source Board_View
begin

text \<open>
  Registration of every Look's frame (\<open>Registration\<close> of
  \<open>ImageRecognitionService/detection/new_bullet_holes.py\<close>), the iteration that reads, registers,
  rectifies and detects (\<open>RegisteredFrames\<close>), and a whole Run over a Recording: the frames of
  \<open>Footage\<close>, registered here, fed to the loop of \<open>Run_Loop\<close>.

  The fits are \<open>Board_View\<close>'s; what the detector answers, the sheet canvases and Change Evidence are
  parameters. The Look's clock and what is printed are not modelled.
\<close>

section \<open>Registration\<close>

definition REANCHOR_AFTER_LOST :: nat where "REANCHOR_AFTER_LOST = 25"
definition GROSS_DISAGREEMENT_PX :: real where "GROSS_DISAGREEMENT_PX = 66"
definition MODERATE_DISAGREEMENT_PX :: real where "MODERATE_DISAGREEMENT_PX = 31 / 10"

record 'img registration =
  rg_last :: "'img board_view"
  rg_last_frame :: 'img
  rg_lost_run :: nat
  rg_reanchors :: nat
  rg_reanchored :: nat
  rg_converged :: nat
  rg_checked :: nat
  rg_gross :: nat
  rg_moderate :: nat

definition new_registration :: "'img board_view \<Rightarrow> 'img \<Rightarrow> 'img registration" where
  "new_registration v base =
     \<lparr>rg_last = v, rg_last_frame = base, rg_lost_run = 0, rg_reanchors = 0, rg_reanchored = 0,
      rg_converged = 0, rg_checked = 0, rg_gross = 0, rg_moderate = 0\<rparr>"

definition at_least :: "real \<Rightarrow> disagreement \<Rightarrow> bool" where
  "at_least r d \<longleftrightarrow> (case d of No_verdict \<Rightarrow> False | No_target \<Rightarrow> True | Apart x \<Rightarrow> r \<le> x)"

definition more_than :: "real \<Rightarrow> disagreement \<Rightarrow> bool" where
  "more_than r d \<longleftrightarrow> (case d of No_verdict \<Rightarrow> False | No_target \<Rightarrow> True | Apart x \<Rightarrow> r < x)"

definition grossly_wrong ::
    "'img vision \<Rightarrow> 'img \<Rightarrow> 'img board_view \<Rightarrow> real \<Rightarrow> 'img registration \<Rightarrow> bool \<times> 'img registration" where
  "grossly_wrong cv frame v correlation reg =
     (let reg1 = reg\<lparr>rg_converged := rg_converged reg + 1\<rparr> in
      if REANCHOR_MIN_CORRELATION \<le> correlation then (False, reg1)
      else let d = silhouette_disagreement cv frame v in
        if d = No_verdict then (False, reg1)
        else let reg2 = reg1\<lparr>rg_checked := rg_checked reg1 + 1\<rparr> in
          if at_least GROSS_DISAGREEMENT_PX d then (True, reg2\<lparr>rg_gross := rg_gross reg2 + 1\<rparr>)
          else (False, reg2\<lparr>rg_moderate :=
                  rg_moderate reg2 + (if more_than MODERATE_DISAGREEMENT_PX d then 1 else 0)\<rparr>))"

definition report_reanchor :: "bool \<Rightarrow> 'img registration \<Rightarrow> 'img registration" where
  "report_reanchor registered reg =
     reg\<lparr>rg_reanchors := rg_reanchors reg + 1,
         rg_reanchored := rg_reanchored reg + (if registered then 1 else 0)\<rparr>"

definition reanchor_due :: "nat \<Rightarrow> bool" where
  "reanchor_due lost_run \<longleftrightarrow> 0 < lost_run \<and> lost_run mod REANCHOR_AFTER_LOST = 0"

definition register_frame ::
    "'img vision \<Rightarrow> 'img \<Rightarrow> 'img registration \<Rightarrow> 'img board_view option \<times> 'img registration" where
  "register_frame cv frame reg =
     (let due = reanchor_due (rg_lost_run reg);
          fit = (if due then reanchor_view cv frame (rg_last reg)
                 else track_view cv frame (rg_last reg) None (Some (rg_last_frame reg)));
          (v, reg1) = (case fit of
                         None \<Rightarrow> (None, reg)
                       | Some (v, correlation) \<Rightarrow>
                           let (wrong, reg1) = grossly_wrong cv frame v correlation reg
                           in (if wrong then None else Some v, reg1));
          reg2 = (if due then report_reanchor (v \<noteq> None) reg1 else reg1)
      in case v of
           None \<Rightarrow> (None, reg2\<lparr>rg_lost_run := rg_lost_run reg2 + 1\<rparr>)
         | Some v \<Rightarrow> (Some v, reg2\<lparr>rg_lost_run := 0, rg_last := v, rg_last_frame := frame\<rparr>))"

fun register_all ::
    "'img vision \<Rightarrow> 'img list \<Rightarrow> 'img registration \<Rightarrow> 'img board_view option list \<times> 'img registration" where
  "register_all cv [] reg = ([], reg)"
| "register_all cv (f # fs) reg =
     (let (v, reg') = register_frame cv f reg; (vs, reg'') = register_all cv fs reg' in (v # vs, reg''))"

section \<open>What a registration is, without its state\<close>

text \<open>
  The reference: from the outcomes so far, newest first, each a frame with its view or \<open>None\<close> for a Lost
  one, whether a re-anchor is due, the view and frame to start from, and where the next frame is.
\<close>

definition lost_streak :: "('img \<times> 'img board_view option) list \<Rightarrow> nat" where
  "lost_streak past = length (takeWhile (\<lambda>x. snd x = None) past)"

fun latest :: "'img board_view \<Rightarrow> 'img \<Rightarrow> ('img \<times> 'img board_view option) list \<Rightarrow> 'img board_view \<times> 'img" where
  "latest v f [] = (v, f)"
| "latest v f ((g, None) # past) = latest v f past"
| "latest v f ((g, Some w) # past) = (w, g)"

text \<open>Every 25th Lost Look in a row is followed by a re-anchor.\<close>

definition try_anew :: "('img \<times> 'img board_view option) list \<Rightarrow> bool" where
  "try_anew past \<longleftrightarrow> lost_streak past \<noteq> 0 \<and> 25 dvd lost_streak past"

text \<open>A fit correlated at 0.9 stands; any other stands unless it is checked and lies 66 Board px or more off.\<close>

definition is_checked :: "'img vision \<Rightarrow> 'img \<Rightarrow> 'img board_view \<times> real \<Rightarrow> bool" where
  "is_checked cv frame fit \<longleftrightarrow> snd fit < 9 / 10 \<and> silhouette_disagreement cv frame (fst fit) \<noteq> No_verdict"

definition is_gross :: "'img vision \<Rightarrow> 'img \<Rightarrow> 'img board_view \<times> real \<Rightarrow> bool" where
  "is_gross cv frame fit \<longleftrightarrow> snd fit < 9 / 10
     \<and> (case silhouette_disagreement cv frame (fst fit) of No_verdict \<Rightarrow> False | No_target \<Rightarrow> True | Apart x \<Rightarrow> 66 \<le> x)"

definition is_moderate :: "'img vision \<Rightarrow> 'img \<Rightarrow> 'img board_view \<times> real \<Rightarrow> bool" where
  "is_moderate cv frame fit \<longleftrightarrow> snd fit < 9 / 10
     \<and> (case silhouette_disagreement cv frame (fst fit) of No_verdict \<Rightarrow> False | No_target \<Rightarrow> False
        | Apart x \<Rightarrow> 31 / 10 < x \<and> x < 66)"

definition fit_next :: "'img vision \<Rightarrow> 'img board_view \<Rightarrow> 'img \<Rightarrow> ('img \<times> 'img board_view option) list \<Rightarrow> 'img
    \<Rightarrow> ('img board_view \<times> real) option" where
  "fit_next cv v f past frame =
     (if try_anew past then reanchor_view cv frame (fst (latest v f past))
      else track_view cv frame (fst (latest v f past)) None (Some (snd (latest v f past))))"

definition place_next :: "'img vision \<Rightarrow> 'img board_view \<Rightarrow> 'img \<Rightarrow> ('img \<times> 'img board_view option) list \<Rightarrow> 'img
    \<Rightarrow> 'img board_view option" where
  "place_next cv v f past frame =
     (case fit_next cv v f past frame of
        None \<Rightarrow> None
      | Some fit \<Rightarrow> if is_gross cv frame fit then None else Some (fst fit))"

text \<open>The outcomes of frames in order, newest first.\<close>

fun outcomes :: "'img vision \<Rightarrow> 'img board_view \<Rightarrow> 'img \<Rightarrow> 'img list \<Rightarrow> ('img \<times> 'img board_view option) list
    \<Rightarrow> ('img \<times> 'img board_view option) list" where
  "outcomes cv v f [] past = past"
| "outcomes cv v f (g # gs) past = outcomes cv v f gs ((g, place_next cv v f past g) # past)"

text \<open>
  How many of the outcomes were re-anchors, how many of those registered, and how many of the fits
  found satisfy a condition.
\<close>

fun reanchor_count :: "('img \<times> 'img board_view option) list \<Rightarrow> nat" where
  "reanchor_count [] = 0"
| "reanchor_count (x # past) = reanchor_count past + (if try_anew past then 1 else 0)"

fun reanchored_count :: "('img \<times> 'img board_view option) list \<Rightarrow> nat" where
  "reanchored_count [] = 0"
| "reanchored_count (x # past) =
     reanchored_count past + (if try_anew past \<and> snd x \<noteq> None then 1 else 0)"

fun fit_count :: "('img \<Rightarrow> 'img board_view \<times> real \<Rightarrow> bool) \<Rightarrow> 'img vision \<Rightarrow> 'img board_view \<Rightarrow> 'img
    \<Rightarrow> ('img \<times> 'img board_view option) list \<Rightarrow> nat" where
  "fit_count P cv v f [] = 0"
| "fit_count P cv v f (x # past) =
     fit_count P cv v f past
     + (case fit_next cv v f past (fst x) of None \<Rightarrow> 0 | Some fit \<Rightarrow> if P (fst x) fit then 1 else 0)"

definition registered_so_far ::
    "'img vision \<Rightarrow> 'img board_view \<Rightarrow> 'img \<Rightarrow> ('img \<times> 'img board_view option) list \<Rightarrow> 'img registration \<Rightarrow> bool" where
  "registered_so_far cv v f past reg \<longleftrightarrow>
     rg_lost_run reg = lost_streak past \<and> (rg_last reg, rg_last_frame reg) = latest v f past
     \<and> rg_reanchors reg = reanchor_count past \<and> rg_reanchored reg = reanchored_count past
     \<and> rg_converged reg = fit_count (\<lambda>_ _. True) cv v f past
     \<and> rg_checked reg = fit_count (is_checked cv) cv v f past
     \<and> rg_gross reg = fit_count (is_gross cv) cv v f past
     \<and> rg_moderate reg = fit_count (is_moderate cv) cv v f past"

lemma lost_streak_simps [simp]:
  "lost_streak [] = 0" "lost_streak ((g, None) # past) = Suc (lost_streak past)" "lost_streak ((g, Some v) # past) = 0"
  by (simp_all add: lost_streak_def)

lemma reanchor_due_try: "reanchor_due (lost_streak past) = try_anew past"
  by (simp add: reanchor_due_def try_anew_def REANCHOR_AFTER_LOST_def dvd_eq_mod_eq_0)

lemma grossly_wrong_eq:
  "grossly_wrong cv frame v c reg = (w, reg') \<Longrightarrow> w = is_gross cv frame (v, c)
     \<and> rg_last reg' = rg_last reg \<and> rg_last_frame reg' = rg_last_frame reg \<and> rg_lost_run reg' = rg_lost_run reg
     \<and> rg_reanchors reg' = rg_reanchors reg \<and> rg_reanchored reg' = rg_reanchored reg
     \<and> rg_converged reg' = rg_converged reg + 1
     \<and> rg_checked reg' = rg_checked reg + (if is_checked cv frame (v, c) then 1 else 0)
     \<and> rg_gross reg' = rg_gross reg + (if is_gross cv frame (v, c) then 1 else 0)
     \<and> rg_moderate reg' = rg_moderate reg + (if is_moderate cv frame (v, c) then 1 else 0)"
  by (auto simp: grossly_wrong_def Let_def is_gross_def is_checked_def is_moderate_def at_least_def more_than_def
      REANCHOR_MIN_CORRELATION_def GROSS_DISAGREEMENT_PX_def MODERATE_DISAGREEMENT_PX_def
      split: if_splits disagreement.splits)

lemma registered_so_far_step:
  assumes "registered_so_far cv v f past reg" "register_frame cv g reg = (w, reg')"
  shows "w = place_next cv v f past g \<and> registered_so_far cv v f ((g, w) # past) reg'"
proof -
  have l: "rg_lost_run reg = lost_streak past" "rg_last reg = fst (latest v f past)"
    "rg_last_frame reg = snd (latest v f past)" "rg_reanchors reg = reanchor_count past"
    "rg_reanchored reg = reanchored_count past" "rg_converged reg = fit_count (\<lambda>_ _. True) cv v f past"
    "rg_checked reg = fit_count (is_checked cv) cv v f past" "rg_gross reg = fit_count (is_gross cv) cv v f past"
    "rg_moderate reg = fit_count (is_moderate cv) cv v f past"
    using assms(1) unfolding registered_so_far_def by (cases "latest v f past"; simp)+
  have fit: "(if reanchor_due (rg_lost_run reg) then reanchor_view cv g (rg_last reg)
      else track_view cv g (rg_last reg) None (Some (rg_last_frame reg))) = fit_next cv v f past g"
    by (simp add: fit_next_def l reanchor_due_try)
  note result = assms(2) [unfolded register_frame_def fit Let_def]
  show ?thesis
  proof (cases "fit_next cv v f past g")
    case None
    then show ?thesis
      using result l by (auto simp: place_next_def registered_so_far_def report_reanchor_def reanchor_due_try)
  next
    case (Some vc)
    obtain u c where vc: "vc = (u, c)" by (rule prod.exhaust)
    obtain wrong reg1 where g: "grossly_wrong cv g u c reg = (wrong, reg1)" by (rule prod.exhaust)
    note e = grossly_wrong_eq [OF g]
    show ?thesis
    proof (cases wrong)
      case True
      then show ?thesis
        using result l e g Some unfolding vc
        by (auto simp: place_next_def registered_so_far_def report_reanchor_def reanchor_due_try)
    next
      case False
      then show ?thesis
        using result l e g Some unfolding vc
        by (auto simp: place_next_def registered_so_far_def report_reanchor_def reanchor_due_try)
    qed
  qed
qed

lemma register_all_so_far:
  "registered_so_far cv v f past reg \<Longrightarrow> register_all cv gs reg = (vs, reg') \<Longrightarrow>
   map snd (rev (outcomes cv v f gs past)) = map snd (rev past) @ vs
   \<and> registered_so_far cv v f (outcomes cv v f gs past) reg'"
proof (induction gs arbitrary: past reg vs reg')
  case (Cons g gs)
  obtain w reg1 where r: "register_frame cv g reg = (w, reg1)" by (rule prod.exhaust)
  obtain ws where ws: "register_all cv gs reg1 = (ws, reg')" "vs = w # ws"
    using Cons.prems(2) r by (auto simp: Let_def split: prod.splits)
  note next_one = registered_so_far_step [OF Cons.prems(1) r]
  show ?case
    using Cons.IH [OF conjunct2 [OF next_one] ws(1)] next_one ws(2) by simp
qed simp

lemma registered_so_far_new: "registered_so_far cv v f [] (new_registration v f)"
  by (simp add: registered_so_far_def new_registration_def)

text \<open>After \<open>n\<close> Lost Looks in a row, a re-anchor was tried at every 25th but not yet for the last.\<close>

lemma reanchors_of_a_streak:
  assumes "lost_streak past = 0"
  shows "lost_streak (map (\<lambda>g. (g, None)) gs @ past) = length gs
    \<and> reanchor_count (map (\<lambda>g. (g, None)) gs @ past) = reanchor_count past + (length gs - 1) div 25"
proof (induction gs)
  case (Cons g gs)
  have "(length gs - 1) div 25 + (if length gs \<noteq> 0 \<and> 25 dvd length gs then 1 else 0) = length gs div 25"
    by (cases "length gs") (auto simp: div_Suc dvd_eq_mod_eq_0)
  then show ?case using Cons.IH by (simp add: try_anew_def)
qed (simp add: assms)

text \<open>
  C6. Registering a Run's frames one by one, with its running counts, gives each frame exactly what the
  reference gives it from the outcomes before it: a re-anchor when 25, 50, 75, ... Looks in a row were
  Lost, a track otherwise, both from the latest registered view, and Lost when no fit is found or the
  fit, correlated below 0.9, lies 66 Board px or more off what the frame shows, or off every Target. The
  counts printed at the end are those of the outcomes: how many re-anchors there were and how many
  registered, how many fits converged, were checked, and were grossly or moderately (past 3.1 px) off.
\<close>

theorem registration_is_the_reference:
  "case register_all cv gs (new_registration v f) of (vs, reg) \<Rightarrow>
     vs = map snd (rev (outcomes cv v f gs []))
     \<and> rg_lost_run reg = lost_streak (outcomes cv v f gs [])
     \<and> (rg_last reg, rg_last_frame reg) = latest v f (outcomes cv v f gs [])
     \<and> rg_reanchors reg = reanchor_count (outcomes cv v f gs [])
     \<and> rg_reanchored reg = reanchored_count (outcomes cv v f gs [])
     \<and> rg_converged reg = fit_count (\<lambda>_ _. True) cv v f (outcomes cv v f gs [])
     \<and> rg_checked reg = fit_count (is_checked cv) cv v f (outcomes cv v f gs [])
     \<and> rg_gross reg = fit_count (is_gross cv) cv v f (outcomes cv v f gs [])
     \<and> rg_moderate reg = fit_count (is_moderate cv) cv v f (outcomes cv v f gs [])"
proof -
  obtain vs reg where r: "register_all cv gs (new_registration v f) = (vs, reg)" by (rule prod.exhaust)
  show ?thesis using register_all_so_far [OF registered_so_far_new r] by (simp add: r registered_so_far_def)
qed

section \<open>One Board space\<close>

lemma reanchor_view_same: "reanchor_view cv frame reference = Some (v, c) \<Longrightarrow> same_board reference v"
  using reanchor_best [of cv frame reference] by (auto simp: best_ok_def intro: fits_of_same)

lemma register_frame_same:
  assumes "register_frame cv g reg = (w, reg')"
  shows "(w = None \<longrightarrow> rg_last reg' = rg_last reg) \<and> (\<forall>u. w = Some u \<longrightarrow> same_board (rg_last reg) u \<and> rg_last reg' = u)"
proof -
  define fit where "fit = (if reanchor_due (rg_lost_run reg) then reanchor_view cv g (rg_last reg)
      else track_view cv g (rg_last reg) None (Some (rg_last_frame reg)))"
  have same: "same_board (rg_last reg) u" if "fit = Some (u, c)" for u c
    using that by (auto simp: fit_def intro: reanchor_view_same track_view_same split: if_splits)
  note result = assms [unfolded register_frame_def fit_def [symmetric] Let_def]
  show ?thesis
  proof (cases fit)
    case None
    then show ?thesis using result by (auto simp: report_reanchor_def)
  next
    case (Some vc)
    obtain u c where vc: "vc = (u, c)" by (rule prod.exhaust)
    obtain wrong reg1 where g: "grossly_wrong cv g u c reg = (wrong, reg1)" by (rule prod.exhaust)
    show ?thesis
      using result g Some same [of u c] grossly_wrong_eq [OF g] unfolding vc
      by (cases wrong) (auto simp: report_reanchor_def)
  qed
qed

section \<open>RegisteredFrames\<close>

type_synonym mark = "Tracks.detection"

text \<open>What the detector, the warps and Change Evidence answer.\<close>

record 'img eyes =
  canvases_of :: "'img board_view \<Rightarrow> 'img \<Rightarrow> 'img list"
  detector :: "'img list \<Rightarrow> mark list list"
  evidence :: "'img list option \<Rightarrow> 'img board_view \<Rightarrow> 'img list \<Rightarrow> mark \<Rightarrow> bool"

definition point_of :: "mark \<Rightarrow> point" where
  "point_of d = (d ! 0, d ! 1)"

definition into_board :: "crop \<Rightarrow> mark \<Rightarrow> mark" where
  "into_board c d = (case c of (x, y, _, _) \<Rightarrow> d[0 := d ! 0 + of_int x, 1 := d ! 1 + of_int y])"

text \<open>\<open>_detect_sheets\<close> after the detector's call: \<open>found\<close> is its answer per canvas.\<close>

definition detect_sheets :: "'img board_view \<Rightarrow> mark list list \<Rightarrow> mark list" where
  "detect_sheets v found =
     concat (map (\<lambda>(k, f, c). filter (\<lambda>d. sheet_of v (point_of d) = Some k) (map (into_board c) f))
       (enumerate 0 (zip found (crops v))))"

record 'img board_look =
  bl_index :: nat
  bl_seen :: "('img board_view \<times> 'img list \<times> mark list) option"

record 'img looking =
  lk_registration :: "'img registration"
  lk_lost :: nat
  lk_looked :: "nat option"
  lk_registered :: "(nat \<times> 'img board_view) option"

definition new_looking :: "'img board_view \<Rightarrow> 'img \<Rightarrow> 'img looking" where
  "new_looking v base =
     \<lparr>lk_registration = new_registration v base, lk_lost = 0, lk_looked = None, lk_registered = None\<rparr>"

definition look_at :: "'img vision \<Rightarrow> 'img eyes \<Rightarrow> 'img board_view \<Rightarrow> 'img looking \<Rightarrow> nat \<times> 'img
    \<Rightarrow> 'img board_look \<times> 'img looking" where
  "look_at cv ey board_space st frame =
     (let (i, img) = frame;
          (current, reg) = (if i = 0 then (Some board_space, lk_registration st)
                            else register_frame cv img (lk_registration st));
          st1 = st\<lparr>lk_registration := reg, lk_looked := Some i\<rparr>
      in case current of
           None \<Rightarrow> (\<lparr>bl_index = i, bl_seen = None\<rparr>, st1\<lparr>lk_lost := lk_lost st1 + 1\<rparr>)
         | Some v \<Rightarrow>
             let canvases = canvases_of ey v img
             in (\<lparr>bl_index = i, bl_seen = Some (v, canvases, detect_sheets v (detector ey canvases))\<rparr>,
                 st1\<lparr>lk_registered := Some (i, v)\<rparr>))"

fun looks_over :: "'img vision \<Rightarrow> 'img eyes \<Rightarrow> 'img board_view \<Rightarrow> (nat \<times> 'img) list \<Rightarrow> 'img looking
    \<Rightarrow> 'img board_look list \<times> 'img looking" where
  "looks_over cv ey board_space [] st = ([], st)"
| "looks_over cv ey board_space (f # fs) st =
     (let (l, st') = look_at cv ey board_space st f; (ls, st'') = looks_over cv ey board_space fs st' in (l # ls, st''))"

subsection \<open>Each mark counts once\<close>

lemma count_filter_if: "count_list (filter P xs) d = (if P d then count_list xs d else 0)"
  by (induction xs) auto

lemma count_list_concat: "count_list (concat xss) d = sum_list (map (\<lambda>xs. count_list xs d) xss)"
  by (induction xss) simp_all

lemma sum_one_index:
  fixes h :: "'a \<Rightarrow> nat"
  shows "sum_list (map (\<lambda>(i, x). if Some i = m then h x else 0) (enumerate n xs))
    = (case m of None \<Rightarrow> 0 | Some k \<Rightarrow> if n \<le> k \<and> k < n + length xs then h (xs ! (k - n)) else 0)"
proof (induction xs arbitrary: n)
  case (Cons x xs)
  show ?case
    using Cons.IH [of "Suc n"] by (auto simp: nth_Cons' Suc_diff_Suc split: option.split)
qed (simp split: option.split)

text \<open>
  C7. Of what the detector finds on the sheet canvases, a mark is kept exactly as often as the canvas of
  its own sheet shows it, whatever the overlapping canvases of other sheets show; and a mark beyond
  every sheet's bound is dropped. Its own sheet is the first whose bound holds it.
\<close>

theorem each_mark_counts_on_its_own_sheet:
  "count_list (detect_sheets v found) d =
     (case sheet_of v (point_of d) of
        None \<Rightarrow> 0
      | Some k \<Rightarrow> if k < length found \<and> k < length (crops v)
                  then count_list (map (into_board (crops v ! k)) (found ! k)) d else 0)"
proof -
  have "count_list (detect_sheets v found) d
      = sum_list (map (\<lambda>(k, fc). if Some k = sheet_of v (point_of d)
          then count_list (map (into_board (snd fc)) (fst fc)) d else 0) (enumerate 0 (zip found (crops v))))"
    unfolding detect_sheets_def count_list_concat map_map
    by (intro arg_cong [where f = sum_list] map_cong refl) (auto simp: count_filter_if)
  also have "\<dots> = (case sheet_of v (point_of d) of None \<Rightarrow> 0
      | Some k \<Rightarrow> if k < length (zip found (crops v))
          then count_list (map (into_board (snd (zip found (crops v) ! k))) (fst (zip found (crops v) ! k))) d else 0)"
    by (subst sum_one_index) (simp split: option.split)
  finally show ?thesis by (simp split: option.split)
qed

subsection \<open>Every Look in one Board space\<close>

lemma look_at_same:
  assumes "same_board v0 (rg_last (lk_registration st))" "look_at cv ey v0 st f = (l, st')"
  shows "same_board v0 (rg_last (lk_registration st')) \<and> (\<forall>x. bl_seen l = Some x \<longrightarrow> same_board v0 (fst x))
    \<and> bl_index l = fst f"
proof -
  obtain i img where f: "f = (i, img)" by (rule prod.exhaust)
  obtain w reg where r: "(if i = 0 then (Some v0, lk_registration st) else register_frame cv img (lk_registration st)) = (w, reg)"
    by (rule prod.exhaust)
  have "same_board v0 (rg_last reg) \<and> (\<forall>u. w = Some u \<longrightarrow> same_board v0 u)"
  proof (cases "i = 0")
    case True
    then show ?thesis using r assms(1) by auto
  next
    case False
    then have "register_frame cv img (lk_registration st) = (w, reg)" using r by simp
    note reg = register_frame_same [OF this]
    show ?thesis
    proof (cases w)
      case None
      then show ?thesis using reg assms(1) by simp
    next
      case (Some u)
      then have "same_board (rg_last (lk_registration st)) u" "rg_last reg = u" using reg by simp_all
      then show ?thesis using same_board_trans [OF assms(1)] Some by simp
    qed
  qed
  moreover have "rg_last (lk_registration st') = rg_last reg \<and> map_option fst (bl_seen l) = w \<and> bl_index l = i"
    using assms(2) unfolding look_at_def f prod.case r Let_def by (cases w) auto
  ultimately show ?thesis by (auto simp: f)
qed

lemma looks_over_same:
  "same_board v0 (rg_last (lk_registration st)) \<Longrightarrow> looks_over cv ey v0 fs st = (ls, st') \<Longrightarrow>
   (\<forall>l\<in>set ls. \<forall>x. bl_seen l = Some x \<longrightarrow> same_board v0 (fst x)) \<and> map bl_index ls = map fst fs"
proof (induction fs arbitrary: st ls st')
  case (Cons f fs)
  obtain l st1 where l: "look_at cv ey v0 st f = (l, st1)" by (rule prod.exhaust)
  obtain ks where ks: "looks_over cv ey v0 fs st1 = (ks, st')" "ls = l # ks"
    using Cons.prems(2) l by (auto simp: Let_def split: prod.splits)
  show ?case
    using look_at_same [OF Cons.prems(1) l] Cons.IH [OF _ ks(1)] ks(2) by simp
qed simp

text \<open>Of a Run: \<open>looked\<close> is the latest Look, \<open>lost\<close> how many were Lost, \<open>registered\<close> the latest that was not.\<close>

definition tally_ok :: "'img board_look list \<Rightarrow> 'img looking \<Rightarrow> bool" where
  "tally_ok ls st \<longleftrightarrow>
     lk_lost st = length (filter (\<lambda>l. bl_seen l = None) ls)
     \<and> lk_looked st = (if ls = [] then None else Some (bl_index (last ls)))
     \<and> lk_registered st = (case filter (\<lambda>l. bl_seen l \<noteq> None) (rev ls) of [] \<Rightarrow> None
          | l # _ \<Rightarrow> Some (bl_index l, fst (the (bl_seen l))))"

lemma tally_ok_step:
  assumes "tally_ok past st" "look_at cv ey v0 st f = (l, st')"
  shows "tally_ok (past @ [l]) st'"
proof -
  obtain i img where f: "f = (i, img)" by (rule prod.exhaust)
  obtain w reg where r: "(if i = 0 then (Some v0, lk_registration st) else register_frame cv img (lk_registration st)) = (w, reg)"
    by (rule prod.exhaust)
  show ?thesis
  proof (cases w)
    case None
    then have "l = \<lparr>bl_index = i, bl_seen = None\<rparr>" "lk_lost st' = lk_lost st + 1" "lk_looked st' = Some i"
      "lk_registered st' = lk_registered st"
      using assms(2) unfolding look_at_def f prod.case r Let_def by auto
    then show ?thesis using assms(1) by (simp add: tally_ok_def)
  next
    case (Some v)
    then have "bl_index l = i" "bl_seen l \<noteq> None" "fst (the (bl_seen l)) = v" "lk_lost st' = lk_lost st"
      "lk_looked st' = Some i" "lk_registered st' = Some (i, v)"
      using assms(2) unfolding look_at_def f prod.case r Let_def by auto
    then show ?thesis using assms(1) by (simp add: tally_ok_def)
  qed
qed

lemma looks_over_tally:
  "tally_ok past st \<Longrightarrow> looks_over cv ey v0 fs st = (ls, st') \<Longrightarrow> tally_ok (past @ ls) st'"
proof (induction fs arbitrary: past st ls)
  case (Cons f fs)
  obtain l st1 where l: "look_at cv ey v0 st f = (l, st1)" by (rule prod.exhaust)
  obtain ks where ks: "looks_over cv ey v0 fs st1 = (ks, st')" "ls = l # ks"
    using Cons.prems(2) l by (auto simp: Let_def split: prod.splits)
  show ?case
    using Cons.IH [OF tally_ok_step [OF Cons.prems(1) l] ks(1)] ks(2) by simp
qed simp

lemma tally_ok_new: "tally_ok [] (new_looking v base)"
  by (simp add: tally_ok_def new_looking_def)

section \<open>A Run over a Recording\<close>

text \<open>
  What the loop of \<open>Run_Loop\<close> asks of a view (\<open>_measure\<close>, \<open>_confirmed\<close>, the merge), from a view of the
  Board; \<open>mm_per_px\<close> is the Capture Setup's print scale, if it has one.
\<close>

definition view_ops_of :: "'img vision \<Rightarrow> real option \<Rightarrow> 'img board_view \<Rightarrow> view_ops" where
  "view_ops_of cv mm_per_px v =
     \<lparr>assign = \<lambda>d. assign_target cv v (point_of d),
      to_millimetres = \<lambda>d k. millimetres cv v mm_per_px k (point_of d),
      board_to_template = \<lambda>d. on_template v (point_of d),
      outlines = targets v\<rparr>"

lemma view_ops_same: "same_board v0 v \<Longrightarrow> view_ops_of cv mm_per_px v = view_ops_of cv mm_per_px v0"
  by (simp add: view_ops_of_def same_board_places same_board_fields)

definition loop_look :: "'img vision \<Rightarrow> 'img eyes \<Rightarrow> real option \<Rightarrow> 'img list option \<Rightarrow> 'img board_look \<Rightarrow> look" where
  "loop_look cv ey mm_per_px baseline_canvases l =
     \<lparr>index = bl_index l,
      view = map_option (\<lambda>(v, _, _). view_ops_of cv mm_per_px v) (bl_seen l),
      detections = (case bl_seen l of None \<Rightarrow> [] | Some (_, _, ds) \<Rightarrow> ds),
      changed = (case bl_seen l of None \<Rightarrow> \<lambda>_. False
                 | Some (v, canvases, _) \<Rightarrow> evidence ey baseline_canvases v canvases)\<rparr>"

definition first_canvases :: "'img board_look list \<Rightarrow> 'img list option" where
  "first_canvases ls =
     (case filter (\<lambda>l. bl_seen l \<noteq> None) ls of [] \<Rightarrow> None | l # _ \<Rightarrow> Some (fst (snd (the (bl_seen l)))))"

definition quiet_turn :: "look \<Rightarrow> turn" where
  "quiet_turn l = \<lparr>gap_before = [], gap_during = [], finishing = False, the_look = l\<rparr>"

text \<open>The Run: its frames, the Looks at them, the first of them for the baseline, the rest the loop's turns.\<close>

definition recorded_looks ::
    "'img vision \<Rightarrow> 'img eyes \<Rightarrow> run_env \<Rightarrow> 'img recording \<Rightarrow> 'img \<Rightarrow> 'img board_view \<Rightarrow> nat
      \<Rightarrow> 'img board_look list" where
  "recorded_looks cv ey env r base v0 n =
     fst (looks_over cv ey v0 (fst (recording_frames r base n (stride (config env)) (baseline_frames (config env))))
            (new_looking v0 base))"

definition recorded_run ::
    "'img vision \<Rightarrow> 'img eyes \<Rightarrow> run_env \<Rightarrow> real option \<Rightarrow> 'img recording \<Rightarrow> 'img \<Rightarrow> 'img board_view \<Rightarrow> nat
      \<Rightarrow> assertion_error + run_result" where
  "recorded_run cv ey env mm_per_px r base v0 n =
     (let looks = recorded_looks cv ey env r base v0 n;
          first = take (baseline_frames (config env)) looks;
          later = drop (baseline_frames (config env)) looks;
          to_look = loop_look cv ey mm_per_px (first_canvases first)
      in process_run env [] (view_ops_of cv mm_per_px v0) (map to_look first)
           (map (\<lambda>l. quiet_turn (to_look l)) later)
           (passed (snd (recording_frames r base n (stride (config env)) (baseline_frames (config env))))))"

lemma turns_ok_quiet:
  "sorted_wrt (<) (map index ls) \<Longrightarrow> \<forall>l\<in>set ls. p \<le> index l \<and> due cfg (index l) \<Longrightarrow>
   turns_ok cfg p [] (map quiet_turn ls)"
  by (induction ls arbitrary: p) (auto simp: quiet_turn_def Let_def Suc_le_eq)

lemma run_turns_view:
  "last_view st = w \<Longrightarrow> \<forall>t\<in>set ts. \<forall>u. view (the_look t) = Some u \<longrightarrow> u = w \<Longrightarrow>
   last_view (run_turns env marks st ts) = w"
proof (induction ts arbitrary: st)
  case (Cons t ts)
  have "last_view (fst (one_turn env marks st t)) = w"
    using Cons.prems by (auto simp: one_turn_def Let_def split: prod.split option.split)
  then show ?case using Cons by (simp add: Let_def)
qed simp

lemma start_run_view:
  assumes "\<forall>l\<in>set bl. \<forall>u. view l = Some u \<longrightarrow> u = w"
  shows "last_view (start_run us w bl) = w"
proof -
  have "foldl (\<lambda>v l. case view l of None \<Rightarrow> v | Some v' \<Rightarrow> v') w bl = w"
    using assms by (induction bl) (auto split: option.split)
  then show ?thesis by (simp add: start_run_def)
qed

lemma add_with_gap_lost:
  assumes "add_with_gap cfg s i pts opns gap = (t, new)"
  shows "lost t = lost s @ (if pts = None then [i] else [])"
proof -
  obtain s1 n1 where j1: "judge_due cfg s i (Some i) = (s1, n1)" by fastforce
  obtain s3 n2 where j2: "judge_due cfg (take_look cfg (s1\<lparr>unseen := unseen s1 @ gap\<rparr>) i pts opns)
      (Suc i) None = (s3, n2)" by fastforce
  have "t = s3" using assms j1 j2 by (simp add: add_with_gap_def)
  moreover have "lost (take_look cfg (s1\<lparr>unseen := unseen s1 @ gap\<rparr>) i pts opns)
      = lost s1 @ (if pts = None then [i] else [])"
    by (simp add: take_look_def Let_def split: option.split)
  ultimately show ?thesis
    by (simp add: judge_due_fields(3) [OF j2] judge_due_fields(3) [OF j1])
qed

lemma one_turn_lost:
  "lost (pstate (fst (one_turn env marks st t)))
   = lost (pstate st) @ (if view (the_look t) = None then [index (the_look t)] else [])"
  using add_with_gap_lost
  by (auto simp: one_turn_def Let_def split: prod.split option.split)

lemma run_turns_lost:
  "\<forall>t\<in>set ts. \<not> finishing t \<Longrightarrow> lost (pstate (run_turns env marks st ts))
   = lost (pstate st) @ map (\<lambda>t. index (the_look t)) (filter (\<lambda>t. view (the_look t) = None) ts)"
proof (induction ts arbitrary: st)
  case (Cons t ts)
  then have "\<not> stops env (fst (one_turn env marks st t)) t" by (simp add: stops_def)
  with Cons show ?case by (simp add: Let_def one_turn_lost)
qed simp

lemma take_look_view: "view (loop_look cv ey mm_per_px bc l) = None \<longleftrightarrow> bl_seen l = None"
  by (simp add: loop_look_def)

lemma in_taken: "(i, x) \<in> set (take n (enumerate 0 xs)) \<Longrightarrow> i < n \<and> i < length xs"
  by (auto simp: in_set_conv_nth nth_enumerate_eq)

text \<open>The Looks over a Recording: due frames in order, all within what was passed, each in one Board space.\<close>

lemma recorded_looks_due:
  assumes "0 < n" and ls_def: "ls = recorded_looks cv ey env r base v0 n"
    and read_def: "read = recording_frames r base n (stride (config env)) (baseline_frames (config env))"
  shows "sorted_wrt (<) (map bl_index ls)"
    "\<forall>l\<in>set ls. bl_index l < passed (snd read) \<and> due (config env) (bl_index l)"
    "\<forall>l\<in>set ls. \<forall>x. bl_seen l = Some x \<longrightarrow> same_board v0 (fst x)"
proof -
  obtain st where run: "looks_over cv ey v0 (fst read) (new_looking v0 base) = (ls, st)"
    by (cases "looks_over cv ey v0 (fst read) (new_looking v0 base)") (simp add: ls_def recorded_looks_def read_def)
  show "\<forall>l\<in>set ls. \<forall>x. bl_seen l = Some x \<longrightarrow> same_board v0 (fst x)"
    using looks_over_same [OF _ run] by (simp add: new_looking_def new_registration_def)
  have idx: "map bl_index ls = map fst (fst read)"
    using looks_over_same [OF _ run] by (simp add: new_looking_def new_registration_def)
  have frames: "fst read = filter (\<lambda>f. fst f = 0 \<or> looked_at_frame (fst f) (stride (config env)) (baseline_frames (config env)))
      (take n (enumerate 0 (base # left r)))" "passed (snd read) = min n (length (base # left r))"
    unfolding read_def by (rule conjunct1 [OF recording_frames_due [OF assms(1)]], rule conjunct2 [OF recording_frames_due [OF assms(1)]])
  show "sorted_wrt (<) (map bl_index ls)" unfolding idx frames(1) by (rule sorted_wrt_enumerate_filter)
  show "\<forall>l\<in>set ls. bl_index l < passed (snd read) \<and> due (config env) (bl_index l)"
  proof
    fix l assume "l \<in> set ls"
    then have "bl_index l \<in> set (map fst (fst read))" unfolding idx [symmetric] by simp
    then obtain x where x: "(bl_index l, x) \<in> set (fst read)" by auto
    have "(bl_index l, x) \<in> set (take n (enumerate 0 (base # left r)))"
      using x unfolding frames(1) set_filter by blast
    from in_taken [OF this] show "bl_index l < passed (snd read) \<and> due (config env) (bl_index l)"
      using x unfolding frames set_filter by (auto simp: due_def looked_at_frame_def)
  qed
qed

text \<open>
  C5. A Run over any Recording, whatever the camera shows and however often the Board is lost, and
  whether or not displaced sightings are merged, returns its report. The holes it reports are in
  first-frame order, each once; each has its Target and its millimetres from the baseline frame's
  view, though each Look had its own: that view's Target at the hole's position, its millimetres
  there for that Target, none for a Miss; every one is published so, with its place on that view's
  template; and the Lost Looks it counts are those past the baseline.
\<close>

theorem recorded_run_measures_in_one_board_space:
  assumes "0 < n" "0 \<le> persist (config env)" "\<not> live env"
  shows "\<exists>res. recorded_run cv ey env mm_per_px r base v0 n = Inr res
    \<and> sorted (map first_frame (holes res)) \<and> distinct (map hid (holes res))
    \<and> (\<forall>h\<in>set (holes res). target h = assign_target cv v0 (pos h ! 0, pos h ! 1)
        \<and> mm h = (case target h of None \<Rightarrow> None
            | Some k \<Rightarrow> millimetres cv v0 mm_per_px (Some k) (pos h ! 0, pos h ! 1)))
    \<and> published_holes res = map (\<lambda>h. \<lparr>first_frame_of = first_frame h,
          first_seen_at = wall_clock env (first_frame h),
          template_xy = on_template v0 (pos h ! 0, pos h ! 1), target_of = target h, mm_of = mm h\<rparr>) (holes res)
    \<and> lost_looks res = length (filter (\<lambda>l. bl_seen l = None)
        (drop (baseline_frames (config env)) (recorded_looks cv ey env r base v0 n)))"
proof -
  define frames where "frames = recording_frames r base n (stride (config env)) (baseline_frames (config env))"
  define ls where "ls = recorded_looks cv ey env r base v0 n"
  define bl where "bl = take (baseline_frames (config env)) ls"
  define later where "later = drop (baseline_frames (config env)) ls"
  define look where "look = loop_look cv ey mm_per_px (first_canvases bl)"
  note looks = recorded_looks_due [OF assms(1) ls_def frames_def]
  have one_view: "\<forall>u. view (look l) = Some u \<longrightarrow> u = view_ops_of cv mm_per_px v0" if "l \<in> set ls" for l
    using looks(3) that by (auto simp: look_def loop_look_def intro: view_ops_same)
  have sorted: "sorted_wrt (<) (map index (map look later))"
    using looks(1)
    by (simp add: later_def look_def loop_look_def comp_def drop_map [symmetric] sorted_wrt_drop del: drop_map)
  define w where "w = view_ops_of cv mm_per_px v0"
  define turns where "turns = map quiet_turn (map look later)"
  define fin where "fin = run_turns env (baseline_of env (map look bl)) (start_run [] w (map look bl)) turns"
  have parts: "set bl \<subseteq> set ls" "set later \<subseteq> set ls" by (simp_all add: bl_def later_def set_take_subset set_drop_subset)
  have index: "index (look l) = bl_index l" for l by (simp add: look_def loop_look_def)
  have ok: "turns_ok (config env) 0 [] turns"
    unfolding turns_def using looks(2) parts(2) by (intro turns_ok_quiet [OF sorted]) (auto simp: index)
  have before_end: "\<forall>t\<in>set turns. index (the_look t) < passed (snd frames)"
    using looks(2) parts(2) by (auto simp: turns_def quiet_turn_def index)
  have none: "sorted_wrt (<) ([] :: nat list)" "\<forall>i\<in>set []. due (config env) i" by simp_all
  obtain res where res: "process_run env [] w (map look bl) turns (passed (snd frames)) = Inr res"
      "published_holes res = map (confirmed (last_view fin) (wall_clock env)) (holes res)"
      "lost_looks res = length (lost (pstate fin))"
      "sorted (map first_frame (holes res))" "distinct (map hid (holes res))"
      "\<forall>h\<in>set (holes res). target h = assign (last_view fin) (pos h)
         \<and> mm h = (if target h = None then None else to_millimetres (last_view fin) (pos h) (target h))"
    using recording_run_measures [OF assms(2,3) none ok before_end fin_def] by (elim exE conjE) (rule that)
  have "last_view fin = w"
    unfolding fin_def using one_view parts
    by (intro run_turns_view start_run_view) (auto simp: turns_def quiet_turn_def w_def)
  moreover have "lost (pstate fin) = map bl_index (filter (\<lambda>l. bl_seen l = None) later)"
    unfolding fin_def
    by (subst run_turns_lost)
      (auto simp: turns_def quiet_turn_def start_run_def new_persistence_def filter_map comp_def take_look_view look_def
        loop_look_def)
  moreover have "recorded_run cv ey env mm_per_px r base v0 n = process_run env [] w (map look bl) turns (passed (snd frames))"
    by (simp add: recorded_run_def Let_def ls_def [symmetric] bl_def [symmetric] later_def [symmetric] look_def w_def
        turns_def frames_def comp_def)
  moreover have "confirmed w (wall_clock env) h = \<lparr>first_frame_of = first_frame h,
      first_seen_at = wall_clock env (first_frame h), template_xy = on_template v0 (pos h ! 0, pos h ! 1),
      target_of = target h, mm_of = mm h\<rparr>" for h
    by (simp add: confirmed_def w_def view_ops_of_def point_of_def)
  moreover have "assign w d = assign_target cv v0 (d ! 0, d ! 1)"
    "to_millimetres w d k = millimetres cv v0 mm_per_px k (d ! 0, d ! 1)" for d k
    by (simp_all add: w_def view_ops_of_def point_of_def)
  ultimately show ?thesis
    using res by (intro exI [of _ res] conjI) (auto simp: later_def ls_def split: option.splits)
qed

section \<open>How far it has watched, read from another thread\<close>

text \<open>
  The loop sets \<open>looked\<close> and then, when the Look registered, \<open>registered\<close>; the control API reads
  \<open>registered\<close> and then \<open>looked\<close> (\<open>_Run.watched\<close>), with any of the loop's steps in between. \<open>pg_first\<close>
  is what a read has of \<open>registered\<close> so far, \<open>pg_answers\<close> what reads have returned.
\<close>

record progress =
  pg_looked :: "nat option"
  pg_registered :: "nat option"
  pg_first :: "nat option option"
  pg_answers :: "(nat option \<times> nat option) list"

inductive progress_step :: "progress \<Rightarrow> progress \<Rightarrow> bool" where
  p_look: "(\<And>j. pg_looked s = Some j \<Longrightarrow> j < i) \<Longrightarrow> progress_step s (s\<lparr>pg_looked := Some i\<rparr>)"
| p_register: "pg_looked s = Some i \<Longrightarrow> progress_step s (s\<lparr>pg_registered := Some i\<rparr>)"
| p_read: "progress_step s (s\<lparr>pg_first := Some (pg_registered s)\<rparr>)"
| p_answer: "pg_first s = Some r \<Longrightarrow>
    progress_step s (s\<lparr>pg_first := None, pg_answers := pg_answers s @ [(r, pg_looked s)]\<rparr>)"

definition not_past :: "nat option \<Rightarrow> nat option \<Rightarrow> bool" where
  "not_past r l \<longleftrightarrow> (\<forall>i. r = Some i \<longrightarrow> (\<exists>j. l = Some j \<and> i \<le> j))"

definition progress_ok :: "progress \<Rightarrow> bool" where
  "progress_ok s \<longleftrightarrow> not_past (pg_registered s) (pg_looked s)
     \<and> (\<forall>r. pg_first s = Some r \<longrightarrow> not_past r (pg_looked s))
     \<and> (\<forall>(r, l)\<in>set (pg_answers s). not_past r l)"

lemma not_past_later: "not_past r l \<Longrightarrow> (\<And>j. l = Some j \<Longrightarrow> j < i) \<Longrightarrow> not_past r (Some i)"
  by (force simp: not_past_def)

interpretation progresses: invariant_system
  "\<lambda>s. s = \<lparr>pg_looked = None, pg_registered = None, pg_first = None, pg_answers = []\<rparr>" progress_step progress_ok
proof
  fix s t :: progress
  assume ok: "progress_ok s" and "progress_step s t"
  from this(2) show "progress_ok t"
  proof cases
    case (p_look i)
    have "not_past r (pg_looked s) \<Longrightarrow> not_past r (Some i)" for r
      using not_past_later p_look(2) by blast
    then show ?thesis using ok by (auto simp: progress_ok_def p_look(1))
  next
    case (p_register i)
    then show ?thesis using ok by (auto simp: progress_ok_def not_past_def [of "Some i"])
  next
    case p_read
    then show ?thesis using ok by (auto simp: progress_ok_def)
  next
    case (p_answer r)
    then show ?thesis using ok by (auto simp: progress_ok_def)
  qed
qed (simp add: progress_ok_def not_past_def)

text \<open>So no read reports a registered Look past the latest Look it reports.\<close>

lemma watched_reads_in_order:
  assumes "reach (\<lambda>s. s = \<lparr>pg_looked = None, pg_registered = None, pg_first = None, pg_answers = []\<rparr>) progress_step s"
    "(Some i, l) \<in> set (pg_answers s)"
  shows "\<exists>j. l = Some j \<and> i \<le> j"
  using progresses.reach_inv [OF assms(1)] assms(2) by (force simp: progress_ok_def not_past_def)

section \<open>A small Run\<close>

text \<open>Frame 0 cannot be tracked in the sample, so a Look at it is Lost.\<close>

definition sample_eyes :: "nat eyes" where
  "sample_eyes = \<lparr>canvases_of = \<lambda>v f. [f], detector = \<lambda>cs. map (\<lambda>c. [[40, 40, 4, 4]]) cs, evidence = \<lambda>_ _ _ _. True\<rparr>"

definition sample_recording :: "nat recording" where
  "sample_recording = \<lparr>left = [2, 0, 3], fps = 25, start_s = 0, passed = 0, wanted = 0, r_stride = 1, r_baseline = 0\<rparr>"

theorem recorded_run_measures_in_one_board_space_witness:
  "\<exists>res. recorded_run sample_vision sample_eyes (sample_env False) None sample_recording 1 sample_board 4 = Inr res
     \<and> distinct (map hid (holes res))"
  using recorded_run_measures_in_one_board_space
    [of 4 "sample_env False" sample_vision sample_eyes None sample_recording 1 sample_board]
  by (auto simp: sample_env_def sample_cfg_def)

end
