(* ===== verification/Scoring.thy ===== *)
theory Scoring
  imports Board_Registration
begin

text \<open>
  Scoring a Run against labelled ground truth (\<open>ImageRecognitionService/tools/evaluate.py\<close>): the label
  files, the matching of detections with labels, the score and what each false positive is put down
  to, truth derived from a pair of photographs, and the synthetic Board move.

  \<open>networkx.max_weight_matching\<close> is a parameter with its documented behaviour (\<open>maximum_matching\<close>). Words
  of a line are read by \<open>to_float\<close>, Python's \<open>float\<close>, \<open>None\<close> where it raises. Positions are template
  coordinates, as the code compares them.
\<close>

section \<open>Matching\<close>

definition apart :: "point \<Rightarrow> point \<Rightarrow> real" where
  "apart p q = norm_point (minus_point p q)"

type_synonym edge = "(nat \<times> nat) \<times> real"
type_synonym pairing = "nat \<times> nat \<times> real"

definition one_to_one :: "(nat \<times> nat) list \<Rightarrow> bool" where
  "one_to_one m \<longleftrightarrow> distinct (map fst m) \<and> distinct (map snd m)"

definition matching_in :: "edge list \<Rightarrow> (nat \<times> nat) list \<Rightarrow> bool" where
  "matching_in es m \<longleftrightarrow> set m \<subseteq> fst ` set es \<and> one_to_one m"

definition weight_in :: "edge list \<Rightarrow> (nat \<times> nat) list \<Rightarrow> real" where
  "weight_in es m = sum_list (map (\<lambda>e. the (map_of es e)) m)"

text \<open>What networkx documents: of the matchings with the most edges, one of the largest weight.\<close>

definition maximum_matching :: "(edge list \<Rightarrow> (nat \<times> nat) list) \<Rightarrow> bool" where
  "maximum_matching mwm \<longleftrightarrow>
     (\<forall>es. distinct (map fst es) \<longrightarrow> matching_in es (mwm es)
        \<and> (\<forall>m. matching_in es m \<longrightarrow> length m \<le> length (mwm es)
             \<and> (length m = length (mwm es) \<longrightarrow> weight_in es m \<le> weight_in es (mwm es))))"

definition edges_of :: "point list \<Rightarrow> point list \<Rightarrow> real \<Rightarrow> edge list" where
  "edges_of truth found tolerance =
     concat (map (\<lambda>i. List.map_filter (\<lambda>j.
         let d = apart (truth ! j) (found ! i) in
         if d \<le> tolerance then Some ((i, j), tolerance + 1 - d) else None) [0..<length truth]) [0..<length found])"

definition match_marks ::
    "(edge list \<Rightarrow> (nat \<times> nat) list) \<Rightarrow> point list \<Rightarrow> point list \<Rightarrow> real \<Rightarrow> pairing list \<times> nat list" where
  "match_marks mwm truth found tolerance =
     (let owner = mwm (edges_of truth found tolerance) in
      (sort_key fst (map (\<lambda>(i, j). (i, j, apart (truth ! j) (found ! i))) owner),
       filter (\<lambda>j. j \<notin> snd ` set owner) [0..<length truth]))"

lemma edges_of_iff:
  "e \<in> set (edges_of truth found tolerance) \<longleftrightarrow>
     (\<exists>i j. e = ((i, j), tolerance + 1 - apart (truth ! j) (found ! i)) \<and> i < length found \<and> j < length truth
        \<and> apart (truth ! j) (found ! i) \<le> tolerance)"
  by (auto simp: edges_of_def List.map_filter_def Let_def)

lemma edges_of_distinct: "distinct (map fst (edges_of truth found tolerance))"
proof -
  have row: "map fst (List.map_filter (\<lambda>j. let d = apart (truth ! j) (found ! i) in
         if d \<le> tolerance then Some ((i, j), tolerance + 1 - d) else None) js)
      = map (Pair i) (filter (\<lambda>j. apart (truth ! j) (found ! i) \<le> tolerance) js)" for i js
    by (induction js) (auto simp: List.map_filter_simps Let_def)
  have "distinct (map fst (concat (map (\<lambda>i. List.map_filter (\<lambda>j. let d = apart (truth ! j) (found ! i) in
         if d \<le> tolerance then Some ((i, j), tolerance + 1 - d) else None) [0..<length truth]) is)))"
    if "distinct is" for "is"
    using that by (induction "is") (auto simp: row distinct_map inj_on_def List.map_filter_def Let_def)
  then show ?thesis unfolding edges_of_def by simp
qed

lemma edge_weight:
  assumes "(i, j) \<in> fst ` set (edges_of truth found tolerance)"
  shows "map_of (edges_of truth found tolerance) (i, j) = Some (tolerance + 1 - apart (truth ! j) (found ! i))"
  using assms edges_of_distinct by (intro map_of_is_SomeI) (auto simp: edges_of_iff)

lemma weight_of_pairs:
  "set m \<subseteq> fst ` set (edges_of truth found tolerance) \<Longrightarrow>
   weight_in (edges_of truth found tolerance) m
   = real (length m) * (tolerance + 1) - sum_list (map (\<lambda>(i, j). apart (truth ! j) (found ! i)) m)"
proof (induction m)
  case (Cons e m)
  obtain i j where e: "e = (i, j)" by (rule prod.exhaust)
  show ?case
    using Cons edge_weight [of i j truth found tolerance] by (simp add: weight_in_def e algebra_simps)
qed (simp add: weight_in_def)

text \<open>A pairing of detections with labels the tolerance allows.\<close>

definition allowed :: "point list \<Rightarrow> point list \<Rightarrow> real \<Rightarrow> (nat \<times> nat) list \<Rightarrow> bool" where
  "allowed truth found tolerance m \<longleftrightarrow> one_to_one m
     \<and> (\<forall>(i, j)\<in>set m. i < length found \<and> j < length truth \<and> apart (truth ! j) (found ! i) \<le> tolerance)"

lemma edge_keys:
  "(i, j) \<in> fst ` set (edges_of truth found tolerance) \<longleftrightarrow>
     i < length found \<and> j < length truth \<and> apart (truth ! j) (found ! i) \<le> tolerance"
proof
  assume "i < length found \<and> j < length truth \<and> apart (truth ! j) (found ! i) \<le> tolerance"
  then have "((i, j), tolerance + 1 - apart (truth ! j) (found ! i)) \<in> set (edges_of truth found tolerance)"
    by (simp add: edges_of_iff)
  then show "(i, j) \<in> fst ` set (edges_of truth found tolerance)" by (rule rev_image_eqI) simp
qed (auto simp: edges_of_iff)

lemma allowed_iff: "allowed truth found tolerance m \<longleftrightarrow> matching_in (edges_of truth found tolerance) m"
  by (auto simp: allowed_def matching_in_def edge_keys subset_iff)

definition matched :: "pairing list \<Rightarrow> (nat \<times> nat) list" where
  "matched ps = map (\<lambda>(i, j, d). (i, j)) ps"

lemma matched_sort: "set (matched (sort_key k ps)) = set (matched ps)" "length (matched ps) = length ps"
  by (simp_all add: matched_def)

lemma one_to_one_permuted: "mset m = mset m' \<Longrightarrow> one_to_one m = one_to_one m'"
  unfolding one_to_one_def by (metis mset_eq_imp_distinct_iff mset_map)

lemma match_marks_parts:
  assumes "match_marks mwm truth found tolerance = (pairs, missed)"
  defines "m \<equiv> mwm (edges_of truth found tolerance)"
  shows "mset (matched pairs) = mset m" "length pairs = length m"
    "pairs = sort_key fst (map (\<lambda>(i, j). (i, j, apart (truth ! j) (found ! i))) m)"
    "missed = filter (\<lambda>j. j \<notin> snd ` set m) [0..<length truth]"
    "sum_list (map (\<lambda>(i, j, d). d) pairs) = sum_list (map (\<lambda>(i, j). apart (truth ! j) (found ! i)) m)"
proof -
  have pairs: "pairs = sort_key fst (map (\<lambda>(i, j). (i, j, apart (truth ! j) (found ! i))) m)"
    and missed: "missed = filter (\<lambda>j. j \<notin> snd ` set m) [0..<length truth]"
    using assms(1) by (simp_all add: match_marks_def Let_def m_def)
  have same: "(\<lambda>(i, j, d). (i, j)) \<circ> (\<lambda>(i, j). (i, j, apart (truth ! j) (found ! i))) = id"
    by (rule ext) auto
  have "mset (matched pairs) = image_mset (\<lambda>(i, j, d). (i, j)) (mset pairs)" by (simp add: matched_def)
  also have "\<dots> = mset (map ((\<lambda>(i, j, d). (i, j)) \<circ> (\<lambda>(i, j). (i, j, apart (truth ! j) (found ! i)))) m)"
    by (simp only: pairs mset_sort mset_map multiset.map_comp)
  finally show "mset (matched pairs) = mset m" by (simp only: same list.map_id)
  show "length pairs = length m" by (simp add: pairs)
  have "sum_list (map (\<lambda>(i, j, d). d) pairs) = sum_mset (image_mset (\<lambda>(i, j, d). d) (mset pairs))"
    by (metis sum_mset_sum_list mset_map)
  also have "\<dots> = sum_mset (mset (map (\<lambda>(i, j). apart (truth ! j) (found ! i)) m))"
    by (simp only: pairs mset_sort mset_map multiset.map_comp) (simp add: comp_def case_prod_unfold)
  finally show "sum_list (map (\<lambda>(i, j, d). d) pairs) = sum_list (map (\<lambda>(i, j). apart (truth ! j) (found ! i)) m)"
    by (simp only: sum_mset_sum_list)
qed (use assms(1) in \<open>simp_all add: match_marks_def Let_def m_def\<close>)

lemma match_marks_best:
  assumes "maximum_matching mwm" "match_marks mwm truth found tolerance = (pairs, missed)"
  shows "allowed truth found tolerance (matched pairs)"
    "\<forall>(i, j, d)\<in>set pairs. d = apart (truth ! j) (found ! i)"
    "missed = filter (\<lambda>j. j \<notin> snd ` set (matched pairs)) [0..<length truth]"
    "allowed truth found tolerance m' \<Longrightarrow> length m' \<le> length pairs"
    "allowed truth found tolerance m' \<Longrightarrow> length m' = length pairs \<Longrightarrow>
       sum_list (map (\<lambda>(i, j, d). d) pairs) \<le> sum_list (map (\<lambda>(i, j). apart (truth ! j) (found ! i)) m')"
proof -
  let ?es = "edges_of truth found tolerance"
  define m where "m = mwm ?es"
  note parts = match_marks_parts [OF assms(2), folded m_def]
  have best: "matching_in ?es m" "\<And>m'. matching_in ?es m' \<Longrightarrow> length m' \<le> length m
      \<and> (length m' = length m \<longrightarrow> weight_in ?es m' \<le> weight_in ?es m)"
    using assms(1) edges_of_distinct unfolding maximum_matching_def m_def by blast+
  have set_eq: "set (matched pairs) = set m" using parts(1) by (metis set_mset_mset)
  show "allowed truth found tolerance (matched pairs)"
    using best(1) one_to_one_permuted [OF parts(1)] set_eq by (simp add: allowed_iff matching_in_def)
  show "\<forall>(i, j, d)\<in>set pairs. d = apart (truth ! j) (found ! i)"
    by (auto simp: parts(3))
  show "missed = filter (\<lambda>j. j \<notin> snd ` set (matched pairs)) [0..<length truth]"
    by (simp add: parts(4) set_eq)
  show "length m' \<le> length pairs" if "allowed truth found tolerance m'"
    using that best(2) parts(2) by (simp add: allowed_iff)
  show "sum_list (map (\<lambda>(i, j, d). d) pairs) \<le> sum_list (map (\<lambda>(i, j). apart (truth ! j) (found ! i)) m')"
    if "allowed truth found tolerance m'" "length m' = length pairs"
  proof -
    have m': "matching_in ?es m'" using that(1) by (simp add: allowed_iff)
    then have "weight_in ?es m' \<le> weight_in ?es m" using best(2) that(2) parts(2) by simp
    moreover have "set m' \<subseteq> fst ` set ?es" "set m \<subseteq> fst ` set ?es"
      using m' best(1) by (simp_all add: matching_in_def)
    ultimately show ?thesis
      using that(2) parts(2) by (simp add: weight_of_pairs parts(5))
  qed
qed

text \<open>
  C38. The matching of detections with labels pairs each with at most one of the other, all within the
  tolerance; no other way of doing so credits more labels, and none that credits as many is nearer in
  total. The missed labels are exactly those left without a detection, in order.
\<close>

theorem matching_is_the_nearest_fullest:
  assumes "maximum_matching mwm"
  shows "case match_marks mwm truth found tolerance of (pairs, missed) \<Rightarrow>
      allowed truth found tolerance (matched pairs)
      \<and> (\<forall>(i, j, d)\<in>set pairs. d = apart (truth ! j) (found ! i))
      \<and> missed = filter (\<lambda>j. j \<notin> snd ` set (matched pairs)) [0..<length truth]
      \<and> (\<forall>m. allowed truth found tolerance m \<longrightarrow> length m \<le> length pairs
           \<and> (length m = length pairs \<longrightarrow>
                sum_list (map (\<lambda>(i, j, d). d) pairs) \<le> sum_list (map (\<lambda>(i, j). apart (truth ! j) (found ! i)) m)))"
proof -
  obtain pairs missed where m: "match_marks mwm truth found tolerance = (pairs, missed)" by (rule prod.exhaust)
  show ?thesis using match_marks_best [OF assms m] unfolding m prod.case by blast
qed

text \<open>A matching found by trying them all: that the documented behaviour can hold.\<close>

definition better :: "edge list \<Rightarrow> (nat \<times> nat) list \<Rightarrow> (nat \<times> nat) list \<Rightarrow> bool" where
  "better es m m' \<longleftrightarrow> length m < length m' \<or> (length m = length m' \<and> weight_in es m < weight_in es m')"

definition try_all :: "edge list \<Rightarrow> (nat \<times> nat) list" where
  "try_all es = foldl (\<lambda>b m. if better es b m then m else b) [] (filter one_to_one (subseqs (map fst es)))"

lemma fold_better:
  fixes es :: "edge list"
  assumes "\<And>m. m \<in> set ms \<Longrightarrow> P m" "P b"
  defines "r \<equiv> foldl (\<lambda>b m. if better es b m then m else b) b ms"
  shows "P r \<and> \<not> better es r b \<and> (\<forall>m\<in>set ms. \<not> better es r m)"
  using assms(1,2) unfolding r_def
proof (induction ms arbitrary: b)
  case (Cons m ms)
  let ?b = "if better es b m then m else b"
  have "P (foldl (\<lambda>b m. if better es b m then m else b) ?b ms)
      \<and> \<not> better es (foldl (\<lambda>b m. if better es b m then m else b) ?b ms) ?b
      \<and> (\<forall>m\<in>set ms. \<not> better es (foldl (\<lambda>b m. if better es b m then m else b) ?b ms) m)"
    using Cons.prems by (intro Cons.IH) auto
  then show ?case by (auto simp: better_def)
qed (simp add: better_def)

lemma try_all_maximum: "maximum_matching try_all"
  unfolding maximum_matching_def
proof (intro allI impI conjI)
  fix es :: "edge list" assume dist: "distinct (map fst es)"
  let ?ms = "filter one_to_one (subseqs (map fst es))"
  have "set m \<subseteq> fst ` set es \<and> one_to_one m" if "m \<in> set ?ms" for m
  proof -
    have "set m \<in> set ` set (subseqs (map fst es))" using that by auto
    then show ?thesis using that by (simp add: subseqs_powset)
  qed
  then have best: "matching_in es (try_all es) \<and> (\<forall>m\<in>set ?ms. \<not> better es (try_all es) m)"
    using fold_better [of ?ms "matching_in es" "[]" es]
    by (simp add: try_all_def matching_in_def one_to_one_def)
  then show "matching_in es (try_all es)" by simp
  fix m assume m: "matching_in es m"
  define m' where "m' = filter (\<lambda>e. e \<in> set m) (map fst es)"
  have "distinct m" using m unfolding matching_in_def one_to_one_def by (metis distinct_map)
  moreover have "set m' = set m" using m by (auto simp: m'_def matching_in_def)
  moreover have "distinct m'" by (simp add: m'_def dist)
  ultimately have perm: "mset m' = mset m" using set_eq_iff_mset_eq_distinct by blast
  have "subseq m' (map fst es)" by (simp add: m'_def)
  then have "m' \<in> set ?ms" using m one_to_one_permuted [OF perm] by (simp add: matching_in_def)
  then have "\<not> better es (try_all es) m'" using best by blast
  moreover have "length m' = length m" using perm by (rule mset_eq_length)
  moreover have "weight_in es m' = weight_in es m"
    by (simp add: weight_in_def perm sum_mset_sum_list [symmetric])
  ultimately have nb: "\<not> better es (try_all es) m" by (simp add: better_def)
  then show "length m \<le> length (try_all es)" by (auto simp: better_def)
  show "weight_in es m \<le> weight_in es (try_all es)" if "length m = length (try_all es)"
    using nb that by (auto simp: better_def)
qed

text \<open>The code's own example, where taking the nearest free label each time credits one.\<close>

lemma apart_on_axis: "apart (a, 0) (b, 0) = \<bar>a - b\<bar>"
  by (simp add: apart_def norm_point_def minus_point_def)

theorem matching_is_the_nearest_fullest_witness:
  "case match_marks try_all [(0, 0), (10, 0)] [(4, 0), (-5, 0)] 7 of (pairs, missed) \<Rightarrow> 2 \<le> length pairs"
proof -
  have "allowed [(0, 0), (10, 0)] [(4, 0), (-5, 0)] 7 [(1, 0), (0, 1)]"
    by (simp add: allowed_def one_to_one_def apart_on_axis)
  then show ?thesis
    using matching_is_the_nearest_fullest
      [OF try_all_maximum, of "[(0, 0), (10, 0)]" "[(4, 0), (-5, 0)]" 7] by fastforce
qed

section \<open>The score\<close>

definition MATCH_TOLERANCE_TPL :: real where "MATCH_TOLERANCE_TPL = 40"

record scored =
  sc_tp :: int
  sc_fp :: int
  sc_fn :: int
  sc_precision :: real
  sc_recall :: real
  sc_f1 :: real
  sc_pairs :: "pairing list"
  sc_missed :: "nat list"
  sc_out_of_scope_pairs :: "pairing list"

definition match_subset ::
    "(edge list \<Rightarrow> (nat \<times> nat) list) \<Rightarrow> point list \<Rightarrow> point list \<Rightarrow> real \<Rightarrow> nat list \<Rightarrow> nat list
      \<Rightarrow> pairing list \<times> nat list" where
  "match_subset mwm truth found tolerance labels dets =
     (let (got, gone) = match_marks mwm (map ((!) truth) labels) (map ((!) found) dets) tolerance in
      (map (\<lambda>(i, j, d). (dets ! i, labels ! j, d)) got, map ((!) labels) gone))"

definition score_run ::
    "(edge list \<Rightarrow> (nat \<times> nat) list) \<Rightarrow> point list \<Rightarrow> point list \<Rightarrow> real \<Rightarrow> nat list \<Rightarrow> scored" where
  "score_run mwm truth found tolerance out_of_scope =
     (let labels = filter (\<lambda>j. j \<notin> set out_of_scope) [0..<length truth];
          (pairs, missed) = match_subset mwm truth found tolerance labels [0..<length found];
          claimed = fst ` set pairs;
          (oos_pairs, _) = match_subset mwm truth found tolerance
             (filter (\<lambda>j. j \<in> set out_of_scope) [0..<length truth]) (filter (\<lambda>i. i \<notin> claimed) [0..<length found]);
          tp = int (length pairs);
          fp = int (length found) - tp - int (length oos_pairs);
          fn = int (length missed)
      in \<lparr>sc_tp = tp, sc_fp = fp, sc_fn = fn,
          sc_precision = (if tp + fp \<noteq> 0 then of_int tp / of_int (tp + fp) else 0),
          sc_recall = (if tp + fn \<noteq> 0 then of_int tp / of_int (tp + fn) else 0),
          sc_f1 = (if tp \<noteq> 0 then 2 * of_int tp / of_int (2 * tp + fp + fn) else 0),
          sc_pairs = pairs, sc_missed = missed,
          sc_out_of_scope_pairs = sort_key (\<lambda>(i, j, d). i) oos_pairs\<rparr>)"

lemma distinct_map_nth: "distinct xs \<Longrightarrow> distinct ks \<Longrightarrow> set ks \<subseteq> {..<length xs} \<Longrightarrow> distinct (map ((!) xs) ks)"
  unfolding distinct_map by (auto intro: inj_on_subset [OF inj_on_nth])

lemma length_filter_not_in:
  assumes "distinct js" "set js \<subseteq> {..<n}"
  shows "length (filter (\<lambda>j. j \<notin> set js) [0..<n]) + length js = n"
proof -
  have "length (filter (\<lambda>j. j \<in> set js) [0..<n]) = card (set js)"
    using assms(2) by (subst distinct_length_filter) (auto intro!: arg_cong [where f = card])
  then show ?thesis
    using sum_length_filter_compl [of "\<lambda>j. j \<in> set js" "[0..<n]"] distinct_card [OF assms(1)] by simp
qed

lemma matched_map: "map fst (matched ps) = map fst ps" "map snd (matched ps) = map (\<lambda>(i, j, d). j) ps"
  by (simp_all add: matched_def comp_def case_prod_unfold)

lemma match_subset_allowed:
  assumes "maximum_matching mwm" "match_subset mwm truth found tolerance labels dets = (ps, gone)"
    and "distinct labels" "distinct dets"
  shows "distinct (map fst ps)" "distinct (map (\<lambda>(i, j, d). j) ps)"
    "fst ` set ps \<subseteq> set dets" "(\<lambda>(i, j, d). j) ` set ps \<subseteq> set labels"
    "length gone + length ps = length labels"
    "set gone \<union> (\<lambda>(i, j, d). j) ` set ps = set labels"
    "\<forall>(i, j, d)\<in>set ps. d = apart (truth ! j) (found ! i) \<and> d \<le> tolerance"
proof -
  define tr fo where "tr = map ((!) truth) labels" and "fo = map ((!) found) dets"
  obtain got missed where m: "match_marks mwm tr fo tolerance = (got, missed)" by (rule prod.exhaust)
  have ps: "ps = map (\<lambda>(i, j, d). (dets ! i, labels ! j, d)) got" and gone: "gone = map ((!) labels) missed"
    using assms(2) m by (simp_all add: match_subset_def tr_def fo_def)
  note best = match_marks_best [OF assms(1) m]
  define ks js where "ks = map fst got" and "js = map (\<lambda>(i, j, d). j) got"
  have dist: "distinct ks" "distinct js"
    using best(1) by (simp_all only: ks_def js_def allowed_def one_to_one_def matched_map)
  have idx: "set ks \<subseteq> {..<length dets}" "set js \<subseteq> {..<length labels}"
    using best(1) by (auto simp: ks_def js_def allowed_def matched_def tr_def fo_def)
  have missed: "missed = filter (\<lambda>j. j \<notin> set js) [0..<length labels]"
    using best(3) by (simp add: js_def tr_def matched_map(2) [symmetric])
  have fsts: "map fst ps = map ((!) dets) ks" and snds: "map (\<lambda>(i, j, d). j) ps = map ((!) labels) js"
    by (simp_all add: ps ks_def js_def comp_def case_prod_unfold)
  show "distinct (map fst ps)" "distinct (map (\<lambda>(i, j, d). j) ps)"
    unfolding fsts snds using assms(3,4) idx dist by (auto intro: distinct_map_nth)
  show "fst ` set ps \<subseteq> set dets"
    unfolding set_map [symmetric] fsts using idx(1) by auto
  have labels: "(\<lambda>(i, j, d). j) ` set ps = (!) labels ` set js"
    unfolding set_map [symmetric] snds by simp
  then show "(\<lambda>(i, j, d). j) ` set ps \<subseteq> set labels" using idx(2) by auto
  show "length gone + length ps = length labels"
    using length_filter_not_in [OF dist(2) idx(2)] by (simp add: gone missed ps js_def)
  have "set missed \<union> set js = {..<length labels}" using idx(2) by (auto simp: missed)
  then have "(!) labels ` set missed \<union> (!) labels ` set js = (!) labels ` {..<length labels}"
    by (simp add: image_Un [symmetric])
  then show "set gone \<union> (\<lambda>(i, j, d). j) ` set ps = set labels"
    by (simp add: gone labels) (auto simp: in_set_conv_nth)
  show "\<forall>(i, j, d)\<in>set ps. d = apart (truth ! j) (found ! i) \<and> d \<le> tolerance"
    using best(1,2) by (fastforce simp: ps allowed_def matched_def tr_def fo_def)
qed

lemma score_run_parts:
  assumes "maximum_matching mwm" "score_run mwm truth found tolerance oos = s"
  shows "sc_tp s = int (length (sc_pairs s))" "sc_fn s = int (length (sc_missed s))"
    "sc_tp s + sc_fn s = int (length (filter (\<lambda>j. j \<notin> set oos) [0..<length truth]))"
    "sc_tp s + sc_fp s + int (length (sc_out_of_scope_pairs s)) = int (length found)"
    "distinct (map fst (sc_pairs s @ sc_out_of_scope_pairs s))"
    "fst ` set (sc_pairs s @ sc_out_of_scope_pairs s) \<subseteq> {..<length found}"
    "sc_precision s = (if sc_tp s + sc_fp s \<noteq> 0 then of_int (sc_tp s) / of_int (sc_tp s + sc_fp s) else 0)"
    "sc_recall s = (if sc_tp s + sc_fn s \<noteq> 0 then of_int (sc_tp s) / of_int (sc_tp s + sc_fn s) else 0)"
    "sc_f1 s = (if sc_tp s \<noteq> 0 then 2 * of_int (sc_tp s) / of_int (2 * sc_tp s + sc_fp s + sc_fn s) else 0)"
    "0 \<le> sc_fp s"
proof -
  let ?labels = "filter (\<lambda>j. j \<notin> set oos) [0..<length truth]"
  obtain ps gone where m: "match_subset mwm truth found tolerance ?labels [0..<length found] = (ps, gone)"
    by (rule prod.exhaust)
  obtain qs rest where q: "match_subset mwm truth found tolerance (filter (\<lambda>j. j \<in> set oos) [0..<length truth])
      (filter (\<lambda>i. i \<notin> fst ` set ps) [0..<length found]) = (qs, rest)"
    by (rule prod.exhaust)
  note in_scope = match_subset_allowed [OF assms(1) m] and others = match_subset_allowed [OF assms(1) q]
  have s: "s = \<lparr>sc_tp = int (length ps), sc_fp = int (length found) - int (length ps) - int (length qs),
      sc_fn = int (length gone),
      sc_precision = sc_precision s, sc_recall = sc_recall s, sc_f1 = sc_f1 s, sc_pairs = ps, sc_missed = gone,
      sc_out_of_scope_pairs = sort_key (\<lambda>(i, j, d). i) qs\<rparr>"
    using assms(2) unfolding score_run_def m q Let_def prod.case by (auto simp only: scored.simps)
  show "sc_tp s = int (length (sc_pairs s))" "sc_fn s = int (length (sc_missed s))"
    "sc_tp s + sc_fp s + int (length (sc_out_of_scope_pairs s)) = int (length found)"
    by (subst s, simp)+
  show "sc_tp s + sc_fn s = int (length ?labels)"
    using in_scope(5) by (subst (1 2) s) simp
  have "distinct (map fst qs)" "fst ` set qs \<subseteq> {..<length found} - fst ` set ps"
    using others(1,3) by auto
  then have dist: "distinct (map fst (ps @ qs))" "fst ` set (ps @ qs) \<subseteq> {..<length found}"
    using in_scope(1,3) by auto
  then have "length (ps @ qs) \<le> length found"
    using card_mono [OF finite_lessThan dist(2)] distinct_card [OF dist(1)] by (simp add: image_Un)
  then show "0 \<le> sc_fp s" by (subst s) simp
  have "mset (map fst (ps @ sort_key (\<lambda>(i, j, d). i) qs)) = mset (map fst (ps @ qs))" by simp
  then have "distinct (map fst (ps @ sort_key (\<lambda>(i, j, d). i) qs))" using dist(1) mset_eq_imp_distinct_iff by blast
  then show "distinct (map fst (sc_pairs s @ sc_out_of_scope_pairs s))"
    "fst ` set (sc_pairs s @ sc_out_of_scope_pairs s) \<subseteq> {..<length found}"
    using dist(2) by (subst (1 2) s, simp)+
  show "sc_precision s = (if sc_tp s + sc_fp s \<noteq> 0 then of_int (sc_tp s) / of_int (sc_tp s + sc_fp s) else 0)"
    "sc_recall s = (if sc_tp s + sc_fn s \<noteq> 0 then of_int (sc_tp s) / of_int (sc_tp s + sc_fn s) else 0)"
    "sc_f1 s = (if sc_tp s \<noteq> 0 then 2 * of_int (sc_tp s) / of_int (2 * sc_tp s + sc_fp s + sc_fn s) else 0)"
    using assms(2) unfolding score_run_def m q Let_def prod.case by (auto simp only: scored.simps)
qed

lemma fraction_bounds: "0 \<le> a \<Longrightarrow> 0 \<le> b \<Longrightarrow> 0 \<le> of_int a / (of_int (a + b) :: real) \<and> of_int a / (of_int (a + b) :: real) \<le> 1"
  by (auto simp: divide_le_eq_1)

lemma harmonic_mean:
  fixes t a b :: real
  assumes "0 < t" "0 < a" "0 < b"
  shows "2 * t / (a + b) = 2 * (t / a) * (t / b) / (t / a + t / b)"
proof -
  have "t / a + t / b = t * (a + b) / (a * b)" using assms by (simp add: field_simps)
  then have "2 * (t / a) * (t / b) / (t / a + t / b) = (2 * t * t / (a * b)) / (t * (a + b) / (a * b))" by simp
  also have "\<dots> = (2 * t * t) / (t * (a + b))" using assms by simp
  also have "\<dots> = 2 * t / (a + b)" using assms by simp
  finally show ?thesis by simp
qed

text \<open>
  A score accounts for everything once: every label in scope is found or missed; every detection is
  credited, false, or claimed by a label out of scope, never two of these; precision, recall and F1 lie
  between 0 and 1, and F1 is the harmonic mean of the other two.
\<close>

theorem score_accounts_for_everything:
  assumes "maximum_matching mwm" "score_run mwm truth found tolerance oos = s"
  shows "sc_tp s + sc_fn s = int (length (filter (\<lambda>j. j \<notin> set oos) [0..<length truth]))
    \<and> sc_tp s + sc_fp s + int (length (sc_out_of_scope_pairs s)) = int (length found) \<and> 0 \<le> sc_fp s
    \<and> distinct (map fst (sc_pairs s @ sc_out_of_scope_pairs s))
    \<and> 0 \<le> sc_precision s \<and> sc_precision s \<le> 1 \<and> 0 \<le> sc_recall s \<and> sc_recall s \<le> 1 \<and> 0 \<le> sc_f1 s \<and> sc_f1 s \<le> 1
    \<and> (0 < sc_tp s \<longrightarrow> sc_f1 s = 2 * sc_precision s * sc_recall s / (sc_precision s + sc_recall s))"
proof -
  note parts = score_run_parts [OF assms]
  have nonneg: "0 \<le> sc_tp s" "0 \<le> sc_fn s" "0 \<le> sc_fp s" using parts(1,2,10) by simp_all
  have "0 \<le> sc_precision s \<and> sc_precision s \<le> 1" "0 \<le> sc_recall s \<and> sc_recall s \<le> 1"
    using parts(7,8) fraction_bounds [OF nonneg(1,3)] fraction_bounds [OF nonneg(1,2)] by auto
  moreover have "0 \<le> sc_f1 s \<and> sc_f1 s \<le> 1"
    using parts(9) fraction_bounds [of "2 * sc_tp s" "sc_fp s + sc_fn s"] nonneg by (auto simp: add.assoc)
  moreover have "sc_f1 s = 2 * sc_precision s * sc_recall s / (sc_precision s + sc_recall s)" if "0 < sc_tp s"
  proof -
    have "sc_precision s = of_int (sc_tp s) / of_int (sc_tp s + sc_fp s)"
      "sc_recall s = of_int (sc_tp s) / of_int (sc_tp s + sc_fn s)"
      "sc_f1 s = 2 * of_int (sc_tp s) / (of_int (sc_tp s + sc_fp s) + of_int (sc_tp s + sc_fn s))"
      using that nonneg parts(7-9) by simp_all
    moreover have "0 < (of_int (sc_tp s) :: real)" "0 < (of_int (sc_tp s + sc_fp s) :: real)"
      "0 < (of_int (sc_tp s + sc_fn s) :: real)"
      using that nonneg by simp_all
    ultimately show ?thesis using harmonic_mean by metis
  qed
  ultimately show ?thesis using parts(3-5,10) by blast
qed

theorem score_accounts_for_everything_witness:
  "let s = score_run try_all [(0, 0), (10, 0)] [(4, 0), (-5, 0)] 7 [1]
   in sc_tp s + sc_fn s = 1 \<and> sc_tp s + sc_fp s + int (length (sc_out_of_scope_pairs s)) = 2"
  using score_accounts_for_everything
    [OF try_all_maximum refl, of "[(0, 0), (10, 0)]" "[(4, 0), (-5, 0)]" 7 "[1]"]
  by (simp add: Let_def upt_rec)

text \<open>Each pair's Position Error along the printed axes, and its length.\<close>

definition position_errors :: "point list \<Rightarrow> point list \<Rightarrow> pairing list \<Rightarrow> real \<Rightarrow> (real \<times> real \<times> real) list" where
  "position_errors truth found pairs mm_per_px =
     map (\<lambda>(i, j, _). let d = to_printed_axes (minus_point (found ! i) (truth ! j)) mm_per_px
                      in (fst d, snd d, hypot (fst d) (snd d))) pairs"

definition off_sheet :: "'img board_view \<Rightarrow> point list \<Rightarrow> nat list" where
  "off_sheet v truth = filter (\<lambda>i. sheet_of v (template_to_board v (truth ! i)) = None) [0..<length truth]"

section \<open>What a false positive is put down to\<close>

definition UNKNOWN_FACTOR :: real where "UNKNOWN_FACTOR = 2"

datatype cause = Displacement | Detector | Unknown

text \<open>The nearest of the marks, with its index; \<open>None\<close> is the infinite distance to no mark.\<close>

fun nearest_mark :: "nat \<Rightarrow> point list \<Rightarrow> point \<Rightarrow> (nat \<times> real) option" where
  "nearest_mark k [] p = None"
| "nearest_mark k (m # ms) p =
     (case nearest_mark (Suc k) ms p of
        None \<Rightarrow> Some (k, apart m p)
      | Some (l, d) \<Rightarrow> if apart m p \<le> d then Some (k, apart m p) else Some (l, d))"

definition cause_of :: "real \<Rightarrow> (nat \<times> real) option \<Rightarrow> cause" where
  "cause_of tolerance near =
     (case near of
        None \<Rightarrow> Detector
      | Some (_, d) \<Rightarrow> if d \<le> tolerance then Displacement
                       else if UNKNOWN_FACTOR * tolerance < d then Detector else Unknown)"

definition attribute_found :: "point list \<Rightarrow> pairing list \<Rightarrow> point list \<Rightarrow> real \<Rightarrow> (nat \<times> cause \<times> real option) list" where
  "attribute_found found pairs marks tolerance =
     map (\<lambda>i. let near = nearest_mark 0 marks (found ! i) in (i, cause_of tolerance near, map_option snd near))
       (filter (\<lambda>i. i \<notin> fst ` set pairs) [0..<length found])"

definition in_the_baseline :: "point list \<Rightarrow> nat list \<Rightarrow> point list \<Rightarrow> real \<Rightarrow> pairing list" where
  "in_the_baseline truth missed marks tolerance =
     List.map_filter (\<lambda>j. case nearest_mark 0 marks (truth ! j) of
         None \<Rightarrow> None
       | Some (k, d) \<Rightarrow> if d \<le> tolerance then Some (j, k, d) else None) missed"

lemma nearest_mark_None: "nearest_mark k ms p = None \<longleftrightarrow> ms = []"
  by (cases ms) (auto split: option.splits)

lemma nearest_mark_Some:
  "nearest_mark k ms p = Some (l, d) \<Longrightarrow>
     k \<le> l \<and> l < k + length ms \<and> d = apart (ms ! (l - k)) p \<and> (\<forall>m\<in>set ms. d \<le> apart m p)"
proof (induction ms arbitrary: k l d)
  case (Cons m ms)
  show ?case
  proof (cases "nearest_mark (Suc k) ms p")
    case None
    then show ?thesis using Cons.prems by (auto simp: nearest_mark_None)
  next
    case (Some near)
    then obtain l' d' where n: "nearest_mark (Suc k) ms p = Some (l', d')" by (cases near) auto
    note IH = Cons.IH [OF n]
    have "ms ! (l' - Suc k) = (m # ms) ! (l' - k)" using IH by (simp add: nth_Cons' Suc_diff_le)
    then show ?thesis using Cons.prems n IH by (fastforce split: if_splits)
  qed
qed simp

lemma cause_of_nearest:
  assumes "0 \<le> tolerance"
  shows "(cause_of tolerance (nearest_mark 0 marks p) = Displacement \<longleftrightarrow> (\<exists>m\<in>set marks. apart m p \<le> tolerance))
    \<and> (cause_of tolerance (nearest_mark 0 marks p) = Detector \<longleftrightarrow> (\<forall>m\<in>set marks. UNKNOWN_FACTOR * tolerance < apart m p))"
proof (cases "nearest_mark 0 marks p")
  case None
  then show ?thesis by (simp add: cause_of_def nearest_mark_None)
next
  case (Some near)
  obtain l d where n: "nearest_mark 0 marks p = Some (l, d)" using Some by (cases near) simp
  have least: "marks ! l \<in> set marks" "d = apart (marks ! l) p" "\<forall>m\<in>set marks. d \<le> apart m p"
    using nearest_mark_Some [OF n] by auto
  have "(\<exists>m\<in>set marks. apart m p \<le> tolerance) \<longleftrightarrow> d \<le> tolerance"
    using least by (auto intro: order_trans)
  moreover have "(\<forall>m\<in>set marks. UNKNOWN_FACTOR * tolerance < apart m p) \<longleftrightarrow> UNKNOWN_FACTOR * tolerance < d"
    using least by (auto intro: less_le_trans)
  ultimately show ?thesis
    using assms by (simp add: n cause_of_def UNKNOWN_FACTOR_def)
qed

text \<open>
  Every false positive of a score is put down to one cause, once, in order, and nothing else is: to
  displacement exactly when a Baseline Mark lies within the tolerance, to the detector exactly when all
  lie more than twice as far, and otherwise to neither. So the attribution is a breakdown of the
  headline count.
\<close>

theorem attribution_breaks_down_the_false_positives:
  assumes "maximum_matching mwm" "score_run mwm truth found tolerance oos = s" "0 \<le> tolerance"
    and a: "a = attribute_found found (sc_pairs s @ sc_out_of_scope_pairs s) marks tolerance"
  shows "int (length a) = sc_fp s \<and> sorted_wrt (<) (map fst a)
    \<and> (\<forall>(i, c, d)\<in>set a. i < length found \<and> i \<notin> fst ` set (sc_pairs s @ sc_out_of_scope_pairs s)
        \<and> (c = Displacement \<longleftrightarrow> (\<exists>m\<in>set marks. apart m (found ! i) \<le> tolerance))
        \<and> (c = Detector \<longleftrightarrow> (\<forall>m\<in>set marks. UNKNOWN_FACTOR * tolerance < apart m (found ! i))))"
proof (intro conjI)
  note parts = score_run_parts [OF assms(1,2)]
  let ?ps = "sc_pairs s @ sc_out_of_scope_pairs s"
  have fsts: "map fst a = filter (\<lambda>i. i \<notin> fst ` set ?ps) [0..<length found]"
    by (simp add: a attribute_found_def Let_def comp_def)
  have "length (filter (\<lambda>i. i \<notin> set (map fst ?ps)) [0..<length found]) + length (map fst ?ps) = length found"
    using parts(5,6) by (intro length_filter_not_in) (simp_all add: image_Un)
  then have "length a + length ?ps = length found"
    using arg_cong [OF fsts, of length] by (simp add: image_Un)
  then show "int (length a) = sc_fp s" using parts(1,4) by simp
  show "sorted_wrt (<) (map fst a)" unfolding fsts by (intro sorted_wrt_filter) simp
  show "\<forall>(i, c, d)\<in>set a. i < length found \<and> i \<notin> fst ` set ?ps
        \<and> (c = Displacement \<longleftrightarrow> (\<exists>m\<in>set marks. apart m (found ! i) \<le> tolerance))
        \<and> (c = Detector \<longleftrightarrow> (\<forall>m\<in>set marks. UNKNOWN_FACTOR * tolerance < apart m (found ! i)))"
    using cause_of_nearest [OF assms(3)] by (auto simp: a attribute_found_def Let_def)
qed

theorem attribution_breaks_down_the_false_positives_witness:
  "let s = score_run try_all [(0, 0)] [(0, 0), (500, 0)] MATCH_TOLERANCE_TPL []
   in int (length (attribute_found [(0, 0), (500, 0)] (sc_pairs s @ sc_out_of_scope_pairs s) [(490, 0)]
        MATCH_TOLERANCE_TPL)) = sc_fp s"
  unfolding Let_def
  by (rule attribution_breaks_down_the_false_positives [OF try_all_maximum refl _ refl, THEN conjunct1])
    (simp add: MATCH_TOLERANCE_TPL_def)

end
