(* ===== verification/Ground_Truth.thy ===== *)
theory Ground_Truth
  imports Scoring
begin

text \<open>
  Ground truth derived from a pair of photographs (\<open>ImageRecognitionService/tools/evaluate.py\<close>): reading
  the labelled exports, subtracting the marks of the before photograph, writing the truth directory, and
  reading it back months later to score a Run.

  Texts are what \<open>open(path).read()\<close> gives, so no carriage return pairs are left in them. A directory is
  the list of its files, name and text. \<open>to_float\<close> is Python's \<open>float\<close>, \<open>None\<close> where it raises. OpenCV's
  fit of a similarity is a parameter, and the photographs' registration is the homography it returned.
  How a number is formatted in the notes of the source file is a text the caller gives.
\<close>

section \<open>Lines and words\<close>

text \<open>A text cut at every character \<open>P\<close> holds of.\<close>

fun split_where :: "(char \<Rightarrow> bool) \<Rightarrow> string \<Rightarrow> string list" where
  "split_where P [] = [[]]"
| "split_where P (c # s) =
     (if P c then [] # split_where P s
      else case split_where P s of [] \<Rightarrow> [[c]] | w # ws \<Rightarrow> (c # w) # ws)"

definition line_break :: "char \<Rightarrow> bool" where
  "line_break c \<longleftrightarrow> (let n = of_char c :: nat in (10 \<le> n \<and> n \<le> 13) \<or> (28 \<le> n \<and> n \<le> 30) \<or> n = 133)"

text \<open>\<open>str.split()\<close> and \<open>str.splitlines()\<close>: the latter has no last empty line.\<close>

definition words_of :: "string \<Rightarrow> string list" where
  "words_of s = filter (\<lambda>w. w \<noteq> []) (split_where py_space s)"

definition splitlines :: "string \<Rightarrow> string list" where
  "splitlines s = (let ls = split_where line_break s in if List.last ls = [] then butlast ls else ls)"

definition label_lines :: "string \<Rightarrow> string list" where
  "label_lines text = filter (\<lambda>l. strip l \<noteq> []) (splitlines (strip text))"

lemma split_where_nonempty [simp]: "split_where P s \<noteq> []"
  by (induction s) (auto split: list.split)

lemma split_where_none: "\<forall>c\<in>set s. \<not> P c \<Longrightarrow> split_where P s = [s]"
  by (induction s) auto

lemma split_where_append:
  "P c \<Longrightarrow> split_where P (s @ c # t) = split_where P s @ split_where P t"
proof (induction s)
  case (Cons d s)
  then show ?case by (cases "split_where P s") auto
qed simp

lemma split_where_snoc:
  "\<not> P c \<Longrightarrow> split_where P (s @ [c]) = butlast (split_where P s) @ [List.last (split_where P s) @ [c]]"
proof (induction s)
  case (Cons d s)
  then show ?case by (cases "split_where P s") auto
qed simp

lemma split_where_parts: "l \<in> set (split_where P s) \<Longrightarrow> c \<in> set l \<Longrightarrow> c \<in> set s \<and> \<not> P c"
proof (induction s arbitrary: l)
  case (Cons d s)
  obtain w ws where s: "split_where P s = w # ws" by (meson split_where_nonempty list.exhaust)
  show ?case using Cons.IH [unfolded s] Cons.prems by (fastforce simp: s split: if_splits)
qed simp

lemma line_break_space: "line_break c \<Longrightarrow> py_space c"
  by (auto simp: line_break_def py_space_def Let_def)

text \<open>White space at either end of a line makes no word.\<close>

lemma words_of_Nil [simp]: "words_of [] = []"
  by (simp add: words_of_def)

lemma words_of_space [simp]: "py_space c \<Longrightarrow> words_of (c # l) = words_of l"
  by (simp add: words_of_def)

lemma words_of_snoc [simp]: "py_space c \<Longrightarrow> words_of (l @ [c]) = words_of l"
  by (simp add: words_of_def split_where_append)

lemma words_of_nonspace: "\<not> py_space c \<Longrightarrow> words_of (c # l) \<noteq> []"
  by (cases "split_where py_space l") (auto simp: words_of_def)

lemma dropWhile_words [simp]: "words_of (dropWhile py_space s) = words_of s"
  by (induction s) auto

lemma dropWhile_end_words [simp]: "words_of (rev (dropWhile py_space (rev s))) = words_of s"
  by (induction s rule: rev_induct) auto

lemma words_of_strip [simp]: "words_of (strip s) = words_of s"
  by (simp add: strip_def)

lemma strip_blank: "strip s = [] \<longleftrightarrow> words_of s = []"
proof
  show "words_of s = []" if "strip s = []" using words_of_strip [of s] that by simp
  show "strip s = []" if "words_of s = []"
  proof (rule ccontr)
    assume "strip s \<noteq> []"
    then obtain c t where s: "dropWhile py_space s = c # t"
      by (cases "dropWhile py_space s") (auto simp: strip_def)
    then have "\<not> py_space c" by (metis hd_dropWhile list.discI list.sel(1))
    then show False using dropWhile_words [of s] words_of_nonspace that by (simp add: s)
  qed
qed

text \<open>A text's lines as words, blank lines left out: what the labels are read from.\<close>

definition word_lines :: "string \<Rightarrow> string list list" where
  "word_lines s = filter (\<lambda>ws. ws \<noteq> []) (map words_of (split_where line_break s))"

lemma word_lines_Nil [simp]: "word_lines [] = []"
  by (simp add: word_lines_def)

lemma word_lines_space [simp]: "py_space c \<Longrightarrow> word_lines (c # s) = word_lines s"
  by (cases "split_where line_break s") (auto simp: word_lines_def)

lemma word_lines_snoc [simp]: "py_space c \<Longrightarrow> word_lines (s @ [c]) = word_lines s"
proof (cases "line_break c")
  case False
  assume "py_space c"
  have "split_where line_break s = butlast (split_where line_break s) @ [List.last (split_where line_break s)]"
    by simp
  then have "map words_of (split_where line_break s)
      = map words_of (butlast (split_where line_break s)) @ [words_of (List.last (split_where line_break s))]"
    by (metis map_append list.map(1,2))
  then show ?thesis
    using \<open>py_space c\<close> False by (simp add: word_lines_def split_where_snoc del: append_butlast_last_id)
qed (simp add: word_lines_def split_where_append)

lemma word_lines_strip [simp]: "word_lines (strip s) = word_lines s"
proof -
  have "word_lines (dropWhile py_space t) = word_lines t" for t by (induction t) auto
  moreover have "word_lines (rev (dropWhile py_space (rev t))) = word_lines t" for t
    by (induction t rule: rev_induct) auto
  ultimately show ?thesis by (simp add: strip_def)
qed

lemma label_lines_words: "map words_of (label_lines text) = word_lines text"
proof -
  have "filter (\<lambda>l. strip l \<noteq> []) (splitlines s) = filter (\<lambda>l. words_of l \<noteq> []) (split_where line_break s)" for s
  proof -
    let ?ls = "split_where line_break s"
    have "?ls = butlast ?ls @ [List.last ?ls]" by simp
    then have "filter (\<lambda>l. words_of l \<noteq> []) ?ls
        = filter (\<lambda>l. words_of l \<noteq> []) (butlast ?ls) @ filter (\<lambda>l. words_of l \<noteq> []) [List.last ?ls]"
      by (metis filter_append)
    then show ?thesis by (simp add: splitlines_def Let_def strip_blank)
  qed
  then have "map words_of (label_lines text) = word_lines (strip text)"
    by (simp add: label_lines_def word_lines_def filter_map comp_def)
  then show ?thesis by simp
qed

text \<open>A line of an export holds no line break, and is not blank.\<close>

definition whole_line :: "string \<Rightarrow> bool" where
  "whole_line l \<longleftrightarrow> words_of l \<noteq> [] \<and> (\<forall>c\<in>set l. \<not> line_break c)"

lemma label_lines_whole: "l \<in> set (label_lines text) \<Longrightarrow> whole_line l"
  by (auto simp: label_lines_def whole_line_def strip_blank splitlines_def Let_def
      dest: split_where_parts in_set_butlastD split: if_splits)

definition newline_char :: char where "newline_char = CHR 0x0A"

lemma word_lines_written:
  "\<forall>l\<in>set ls. whole_line l \<Longrightarrow> word_lines (concat (map (\<lambda>l. l @ [newline_char]) ls)) = map words_of ls"
proof (induction ls)
  case (Cons l ls)
  have br: "line_break newline_char" by (simp add: line_break_def newline_char_def Let_def)
  have "split_where line_break (l @ newline_char # concat (map (\<lambda>l. l @ [newline_char]) ls))
      = l # split_where line_break (concat (map (\<lambda>l. l @ [newline_char]) ls))"
    using Cons.prems by (simp add: split_where_append [of line_break, OF br] split_where_none whole_line_def)
  then show ?case using Cons by (simp add: word_lines_def whole_line_def)
qed simp

section \<open>Labels\<close>

text \<open>The values of a line are its words after the class.\<close>

definition values_of :: "string \<Rightarrow> string list" where
  "values_of l = tl (words_of l)"

definition damaged_lines :: "string list \<Rightarrow> nat list" where
  "damaged_lines ls =
     map fst (filter (\<lambda>(n, l). length (values_of l) < 4 \<or> odd (length (values_of l))) (enumerate 1 ls))"

definition box_lines :: "string list \<Rightarrow> nat list" where
  "box_lines ls = map fst (filter (\<lambda>(n, l). length (words_of l) - 1 = 4) (enumerate 1 ls))"

fun in_pairs :: "real list \<Rightarrow> point list" where
  "in_pairs (x # y # vs) = (x, y) # in_pairs vs"
| "in_pairs vs = []"

definition label_centroid :: "real list \<Rightarrow> point" where
  "label_centroid vs = (if length vs = 4 then (vs ! 0, vs ! 1) else mean_point (in_pairs vs))"

definition centroids :: "(string \<Rightarrow> real option) \<Rightarrow> string list \<Rightarrow> point list option" where
  "centroids to_float ls =
     map_option (\<lambda>rows. map label_centroid (filter (\<lambda>vs. 4 \<le> length vs) rows))
       (those (map (\<lambda>l. those (map to_float (values_of l))) ls))"

definition load_labels :: "(string \<Rightarrow> real option) \<Rightarrow> string \<Rightarrow> (point list \<times> nat) option" where
  "load_labels to_float text =
     map_option (\<lambda>cs. (cs, length (damaged_lines (label_lines text)))) (centroids to_float (label_lines text))"

text \<open>What stops a derivation or a scoring: \<open>SystemExit\<close>, or an exception of \<open>float\<close>, \<open>int\<close> or an index.\<close>

datatype truth_error = Damaged "nat list" | Raised | Unreadable | Without_target | No_match | Several_match nat
  | Photograph_unnamed | Photograph_gone string

definition read_export :: "(string \<Rightarrow> real option) \<Rightarrow> string \<Rightarrow> truth_error + string list \<times> point list" where
  "read_export to_float text =
     (let ls = label_lines text; bad = damaged_lines ls in
      if bad \<noteq> [] then Inl (Damaged bad)
      else case load_labels to_float text of None \<Rightarrow> Inl Raised | Some (cs, _) \<Rightarrow> Inr (ls, cs))"

text \<open>Each line's values as numbers, when all are.\<close>

definition numbers_of :: "(string \<Rightarrow> real option) \<Rightarrow> string \<Rightarrow> real list" where
  "numbers_of to_float l = map (the \<circ> to_float) (values_of l)"

lemma those_Some: "those xs = Some ys \<longleftrightarrow> xs = map Some ys"
proof (induction xs arbitrary: ys)
  case (Cons x xs)
  then show ?case by (cases x; cases ys) auto
qed auto

lemma those_map_the: "those (map f xs) = Some ys \<Longrightarrow> ys = map (the \<circ> f) xs \<and> (\<forall>x\<in>set xs. f x \<noteq> None)"
  by (induction xs arbitrary: ys) (auto split: option.splits)

lemma those_map_defined: "\<forall>x\<in>set xs. f x \<noteq> None \<Longrightarrow> those (map f xs) = Some (map (the \<circ> f) xs)"
  by (induction xs) auto

lemma no_damage: "damaged_lines ls = [] \<longleftrightarrow> (\<forall>l\<in>set ls. 4 \<le> length (values_of l) \<and> even (length (values_of l)))"
proof -
  have "damaged_lines ls = [] \<longleftrightarrow>
      (\<forall>l\<in>set (map snd (enumerate 1 ls)). 4 \<le> length (values_of l) \<and> even (length (values_of l)))"
    unfolding set_map by (fastforce simp: damaged_lines_def filter_empty_conv not_less)
  then show ?thesis by (simp only: map_snd_enumerate)
qed

lemma centroids_undamaged:
  assumes "\<forall>l\<in>set ls. 4 \<le> length (values_of l)" "\<forall>l\<in>set ls. \<forall>w\<in>set (values_of l). to_float w \<noteq> None"
  shows "centroids to_float ls = Some (map (label_centroid \<circ> numbers_of to_float) ls)"
proof -
  have "those (map (\<lambda>l. those (map to_float (values_of l))) ls) = Some (map (numbers_of to_float) ls)"
    using assms(2) by (subst those_map_defined) (auto simp: those_map_defined numbers_of_def)
  moreover have "filter (\<lambda>vs. 4 \<le> length vs) (map (numbers_of to_float) ls) = map (numbers_of to_float) ls"
    using assms(1) by (auto simp: filter_id_conv numbers_of_def)
  ultimately show ?thesis by (simp add: centroids_def)
qed

lemma read_export_Inr:
  assumes "read_export to_float text = Inr (ls, cs)"
  shows "ls = label_lines text" "cs = map (label_centroid \<circ> numbers_of to_float) ls"
    "\<forall>l\<in>set ls. whole_line l \<and> 4 \<le> length (values_of l) \<and> even (length (values_of l))
       \<and> (\<forall>w\<in>set (values_of l). to_float w \<noteq> None)"
proof -
  have r: "ls = label_lines text" "damaged_lines ls = []" "centroids to_float ls = Some cs"
    using assms by (auto simp: read_export_def load_labels_def Let_def split: if_splits option.splits)
  then obtain rows where "those (map (\<lambda>l. those (map to_float (values_of l))) ls) = Some rows"
    by (auto simp: centroids_def)
  then have "\<forall>l\<in>set ls. those (map to_float (values_of l)) \<noteq> None" by (auto dest: those_map_the)
  then have floats: "\<forall>l\<in>set ls. \<forall>w\<in>set (values_of l). to_float w \<noteq> None"
    by (fastforce dest: those_map_the)
  then show "\<forall>l\<in>set ls. whole_line l \<and> 4 \<le> length (values_of l) \<and> even (length (values_of l))
       \<and> (\<forall>w\<in>set (values_of l). to_float w \<noteq> None)"
    using r(2) label_lines_whole by (auto simp: no_damage r(1))
  show "cs = map (label_centroid \<circ> numbers_of to_float) ls"
    using centroids_undamaged [OF _ floats] r(2,3) by (simp add: no_damage)
qed (use assms in \<open>auto simp: read_export_def Let_def split: if_splits option.splits\<close>)

text \<open>What is read of a file depends on the words of its lines alone.\<close>

lemma load_labels_undamaged:
  assumes "word_lines text = map words_of ls" and ok: "\<forall>l\<in>set ls. 4 \<le> length (values_of l) \<and> even (length (values_of l))
      \<and> (\<forall>w\<in>set (values_of l). to_float w \<noteq> None)"
  shows "load_labels to_float text = Some (map (label_centroid \<circ> numbers_of to_float) ls, 0)"
proof -
  have same: "map words_of (label_lines text) = map words_of ls" using assms(1) by (simp add: label_lines_words)
  have "\<forall>vs\<in>set (map (tl \<circ> words_of) ls). 4 \<le> length vs \<and> even (length vs) \<and> (\<forall>w\<in>set vs. to_float w \<noteq> None)"
    using ok by (simp add: values_of_def)
  then have "\<forall>vs\<in>set (map (tl \<circ> words_of) (label_lines text)). 4 \<le> length vs \<and> even (length vs)
      \<and> (\<forall>w\<in>set vs. to_float w \<noteq> None)"
    by (simp only: map_map [symmetric] same)
  then have ok': "\<forall>l\<in>set (label_lines text). 4 \<le> length (values_of l) \<and> even (length (values_of l))
      \<and> (\<forall>w\<in>set (values_of l). to_float w \<noteq> None)"
    by (simp add: values_of_def)
  have "map (label_centroid \<circ> numbers_of to_float) ks
      = map (\<lambda>ws. label_centroid (map (the \<circ> to_float) (tl ws))) (map words_of ks)" for ks
    by (simp add: numbers_of_def values_of_def)
  then have "map (label_centroid \<circ> numbers_of to_float) (label_lines text) = map (label_centroid \<circ> numbers_of to_float) ls"
    by (simp only: same)
  then show ?thesis
    using ok' centroids_undamaged [of "label_lines text" to_float] no_damage [of "label_lines text"]
    by (simp add: load_labels_def)
qed

section \<open>The after photograph's marks less the before's\<close>

definition MIN_REFIT_PAIRS :: nat where "MIN_REFIT_PAIRS = 4"

record derived_truth =
  dt_lines :: "string list"
  dt_before_lines :: "string list"
  dt_new :: "nat list"
  dt_pre_existing :: "nat list"
  dt_only_before :: "nat list"
  dt_tolerance_px :: real
  dt_refitted :: bool
  dt_distances :: "real list"

definition unmatched :: "pairing list \<Rightarrow> nat \<Rightarrow> nat list" where
  "unmatched pairs n = filter (\<lambda>i. i \<notin> fst ` set pairs) [0..<n]"

definition new_label_indices ::
    "(edge list \<Rightarrow> (nat \<times> nat) list) \<Rightarrow> point list \<Rightarrow> point list \<Rightarrow> real \<Rightarrow> nat list" where
  "new_label_indices mwm before after tolerance =
     unmatched (fst (match_marks mwm before after tolerance)) (length after)"

text \<open>\<open>estimateAffinePartial2D\<close>: the similarity it fits, as a map of points, and how many inliers carry it.\<close>

type_synonym similarity_fit = "(point \<times> point) list \<Rightarrow> ((point \<Rightarrow> point) \<times> nat) option"

definition refit_on_matched_marks ::
    "similarity_fit \<Rightarrow> point list \<Rightarrow> point list \<Rightarrow> pairing list \<Rightarrow> point list option" where
  "refit_on_matched_marks fit before_photo_px after pairs =
     (if length pairs < MIN_REFIT_PAIRS then None
      else case fit (map (\<lambda>(i, j, _). (before_photo_px ! j, after ! i)) pairs) of
             None \<Rightarrow> None
           | Some (M, inliers) \<Rightarrow> if inliers < MIN_REFIT_PAIRS then None else Some (map M before_photo_px))"

definition keep_refit :: "pairing list \<Rightarrow> pairing list \<Rightarrow> bool" where
  "keep_refit pairs refit_pairs \<longleftrightarrow>
     length pairs < length refit_pairs \<or> set (matched refit_pairs) = set (matched pairs)"

definition photo_tolerance :: "real \<Rightarrow> real \<Rightarrow> real \<Rightarrow> real" where
  "photo_tolerance tolerance target_span_px template_span_px = tolerance * target_span_px / template_span_px"

text \<open>The pairs the derivation keeps, the before marks left over, and whether the refit was adopted.\<close>

definition paired_marks ::
    "(edge list \<Rightarrow> (nat \<times> nat) list) \<Rightarrow> similarity_fit \<Rightarrow> point list \<Rightarrow> point list \<Rightarrow> point list \<Rightarrow> real
      \<Rightarrow> pairing list \<times> nat list \<times> bool" where
  "paired_marks mwm fit before_px before after slack =
     (let (pairs, only_before) = match_marks mwm before after slack in
      case refit_on_matched_marks fit before_px after pairs of
        None \<Rightarrow> (pairs, only_before, False)
      | Some refit \<Rightarrow>
          let (refit_pairs, refit_only_before) = match_marks mwm refit after slack in
          if keep_refit pairs refit_pairs then (refit_pairs, refit_only_before, True)
          else (pairs, only_before, False))"

text \<open>
  The outside world of a derivation: photographs by path, their sizes, the homography \<open>register\<close> finds
  between two of them, and OpenCV's view of each (\<open>cv\<close>). The template itself is \<open>template_span\<close>.
\<close>

record 'img photographs =
  photo_at :: "string \<Rightarrow> 'img option"
  size_of :: "'img \<Rightarrow> real \<times> real"
  registered :: "'img \<Rightarrow> 'img \<Rightarrow> polygon \<Rightarrow> matrix3"
  similarity :: similarity_fit

definition photograph :: "'img photographs \<Rightarrow> 'img vision \<Rightarrow> string \<Rightarrow> truth_error + 'img \<times> polygon" where
  "photograph ph cv path =
     (case photo_at ph path of
        None \<Rightarrow> Inl Unreadable
      | Some img \<Rightarrow> (case find_targets cv img of [] \<Rightarrow> Inl Without_target | c # _ \<Rightarrow> Inr (img, c)))"

definition in_pixels :: "real \<times> real \<Rightarrow> point \<Rightarrow> point" where
  "in_pixels sz p = (fst p * fst sz, snd p * snd sz)"

definition derive_new_holes ::
    "(edge list \<Rightarrow> (nat \<times> nat) list) \<Rightarrow> (string \<Rightarrow> real option) \<Rightarrow> 'img photographs \<Rightarrow> 'img vision \<Rightarrow> real
      \<Rightarrow> string \<Rightarrow> string \<Rightarrow> string \<Rightarrow> string \<Rightarrow> truth_error + derived_truth" where
  "derive_new_holes mwm to_float ph cv tolerance before_image before_text after_image after_text =
     (case read_export to_float after_text of Inl e \<Rightarrow> Inl e | Inr (lines, after_normalised) \<Rightarrow>
      case read_export to_float before_text of Inl e \<Rightarrow> Inl e | Inr (before_lines, before_normalised) \<Rightarrow>
      case photograph ph cv before_image of Inl e \<Rightarrow> Inl e | Inr (before_photo, _) \<Rightarrow>
      case photograph ph cv after_image of Inl e \<Rightarrow> Inl e | Inr (after_photo, after_target) \<Rightarrow>
        let H = registered ph before_photo after_photo after_target;
            slack = photo_tolerance tolerance (span_of cv after_target) (template_span cv);
            after = map (in_pixels (size_of ph after_photo)) after_normalised;
            before_px = map (in_pixels (size_of ph before_photo)) before_normalised;
            before = map (apply_to H) before_px;
            (pairs, only_before, refitted) = paired_marks mwm (similarity ph) before_px before after slack
        in Inr \<lparr>dt_lines = lines, dt_before_lines = before_lines, dt_new = unmatched pairs (length after),
                dt_pre_existing = sort (map fst pairs), dt_only_before = only_before, dt_tolerance_px = slack,
                dt_refitted = refitted, dt_distances = sort (map (\<lambda>(_, _, d). d) pairs)\<rparr>)"

text \<open>A pairing that the tolerance allows accounts for every mark of both photographs.\<close>

lemma allowed_counts:
  assumes "allowed before after slack (matched pairs)"
    and "only_before = filter (\<lambda>j. j \<notin> snd ` set (matched pairs)) [0..<length before]"
  shows "set (unmatched pairs (length after)) \<inter> fst ` set pairs = {}"
    "set (unmatched pairs (length after)) \<union> fst ` set pairs = {..<length after}"
    "distinct (map fst pairs)" "length pairs + length only_before = length before"
    "length (unmatched pairs (length after)) + length pairs = length after"
proof -
  have dist: "distinct (map fst pairs)" "distinct (map snd (matched pairs))"
    using assms(1) by (simp_all add: allowed_def one_to_one_def matched_map)
  then show "distinct (map fst pairs)" by simp
  have within: "set (map fst pairs) \<subseteq> {..<length after}" "set (map snd (matched pairs)) \<subseteq> {..<length before}"
    using assms(1) by (auto simp: allowed_def matched_def)
  show "set (unmatched pairs (length after)) \<inter> fst ` set pairs = {}" by (auto simp: unmatched_def)
  show "set (unmatched pairs (length after)) \<union> fst ` set pairs = {..<length after}"
    using within(1) by (auto simp: unmatched_def)
  show "length pairs + length only_before = length before"
    using length_filter_not_in [OF dist(2) within(2)] by (simp add: assms(2) matched_sort(2) add.commute)
  show "length (unmatched pairs (length after)) + length pairs = length after"
    using length_filter_not_in [OF dist(1) within(1)] by (simp add: unmatched_def)
qed

text \<open>
  What is kept is a matching in one frame or the other: the registered photograph's, or the refitted
  marks'. It has no fewer pairs than the first.
\<close>

lemma paired_marks_best:
  assumes "maximum_matching mwm" "paired_marks mwm fit before_px before after slack = (pairs, only_before, refitted)"
    "length before = length before_px"
  shows "\<exists>marks. length marks = length before_px \<and> match_marks mwm marks after slack = (pairs, only_before)
      \<and> (if refitted then (\<exists>M. marks = map M before_px) else marks = before)"
    "length (fst (match_marks mwm before after slack)) \<le> length pairs"
proof -
  obtain ps ob where first: "match_marks mwm before after slack = (ps, ob)" by (rule prod.exhaust)
  have "(\<exists>marks. length marks = length before_px \<and> match_marks mwm marks after slack = (pairs, only_before)
      \<and> (if refitted then (\<exists>M. marks = map M before_px) else marks = before)) \<and> length ps \<le> length pairs"
  proof (cases "refit_on_matched_marks fit before_px after ps")
    case None
    then show ?thesis using assms(2,3) first by (simp add: paired_marks_def)
  next
    case (Some refit)
    obtain rps rob where second: "match_marks mwm refit after slack = (rps, rob)" by (rule prod.exhaust)
    obtain M where refit: "refit = map M before_px"
      using Some by (auto simp: refit_on_matched_marks_def simp del: map_eq_conv split: if_splits option.splits)
    show ?thesis
    proof (cases "keep_refit ps rps")
      case False
      then show ?thesis using assms(2,3) first Some second by (simp add: paired_marks_def)
    next
      case True
      have "length ps \<le> length rps"
      proof (cases "length ps < length rps")
        case False
        then have same: "set (matched rps) = set (matched ps)" using True by (simp add: keep_refit_def)
        have "distinct (matched ps)" "distinct (matched rps)"
          using match_marks_best(1) [OF assms(1) first] match_marks_best(1) [OF assms(1) second]
          by (simp_all add: allowed_def one_to_one_def distinct_map)
        then have "length (matched ps) = length (matched rps)" by (metis same distinct_card)
        then show ?thesis by (simp add: matched_def)
      qed simp
      moreover have "pairs = rps" "only_before = rob" "refitted"
        using assms(2) first Some second True by (simp_all add: paired_marks_def)
      moreover have "\<exists>M. refit = map M before_px" "length refit = length before_px" using refit by (blast, simp)
      ultimately show ?thesis using second by (intro conjI exI [of _ refit]) simp_all
    qed
  qed
  then show "\<exists>marks. length marks = length before_px \<and> match_marks mwm marks after slack = (pairs, only_before)
      \<and> (if refitted then (\<exists>M. marks = map M before_px) else marks = before)"
    "length (fst (match_marks mwm before after slack)) \<le> length pairs"
    by (simp_all add: first)
qed

definition truth_of ::
    "string list \<Rightarrow> string list \<Rightarrow> nat \<Rightarrow> real \<Rightarrow> pairing list \<times> nat list \<times> bool \<Rightarrow> derived_truth" where
  "truth_of lines before_lines n slack kept =
     (case kept of (pairs, only_before, refitted) \<Rightarrow>
        \<lparr>dt_lines = lines, dt_before_lines = before_lines, dt_new = unmatched pairs n,
         dt_pre_existing = sort (map fst pairs), dt_only_before = only_before, dt_tolerance_px = slack,
         dt_refitted = refitted, dt_distances = sort (map (\<lambda>(_, _, d). d) pairs)\<rparr>)"

text \<open>The marks a derivation compares do not depend on how the refit turns out.\<close>

lemma derive_new_holes_Inr:
  assumes "derive_new_holes mwm to_float ph cv tolerance before_image before_text after_image after_text = Inr d"
  obtains lines before_lines before_px before after afn bfn slack where
    "read_export to_float after_text = Inr (lines, afn)" "length after = length afn"
    "read_export to_float before_text = Inr (before_lines, bfn)" "length before_px = length bfn"
    "length before = length before_px"
    "\<And>fit. derive_new_holes mwm to_float (ph\<lparr>similarity := fit\<rparr>) cv tolerance before_image before_text
        after_image after_text
      = Inr (truth_of lines before_lines (length after) slack (paired_marks mwm fit before_px before after slack))"
proof -
  obtain lines afn where a: "read_export to_float after_text = Inr (lines, afn)"
    using assms by (cases "read_export to_float after_text") (auto simp: derive_new_holes_def)
  obtain before_lines bfn where b: "read_export to_float before_text = Inr (before_lines, bfn)"
    using assms a by (cases "read_export to_float before_text") (auto simp: derive_new_holes_def)
  obtain bp bt where bph: "photograph ph cv before_image = Inr (bp, bt)"
    using assms a b by (cases "photograph ph cv before_image") (auto simp: derive_new_holes_def)
  obtain ap target where aph: "photograph ph cv after_image = Inr (ap, target)"
    using assms a b bph by (cases "photograph ph cv after_image") (auto simp: derive_new_holes_def)
  have any: "photograph (ph\<lparr>similarity := fit\<rparr>) cv path = photograph ph cv path" for fit path
    by (simp add: photograph_def)
  define before_px where "before_px = map (in_pixels (size_of ph bp)) bfn"
  define before where "before = map (apply_to (registered ph bp ap target)) before_px"
  define after where "after = map (in_pixels (size_of ph ap)) afn"
  define slack where "slack = photo_tolerance tolerance (span_of cv target) (template_span cv)"
  have "derive_new_holes mwm to_float (ph\<lparr>similarity := fit\<rparr>) cv tolerance before_image before_text
        after_image after_text
      = Inr (truth_of lines before_lines (length after) slack (paired_marks mwm fit before_px before after slack))" for fit
    by (simp add: derive_new_holes_def a b any bph aph Let_def before_px_def before_def after_def slack_def truth_of_def
        split: prod.split)
  then show thesis
    by (intro that [of lines afn after before_lines bfn before_px before slack] a b)
      (simp_all add: after_def before_px_def before_def)
qed

lemma read_export_length: "read_export to_float text = Inr (ls, cs) \<Longrightarrow> length cs = length ls"
  using read_export_Inr(2) by fastforce

lemma derived_lines:
  assumes "derive_new_holes mwm to_float ph cv tolerance before_image before_text after_image after_text = Inr d"
  shows "\<exists>cs. read_export to_float after_text = Inr (dt_lines d, cs)"
proof -
  from assms obtain lines before_lines before_px before after afn slack where
    "read_export to_float after_text = Inr (lines, afn)"
    and derive: "\<And>fit. derive_new_holes mwm to_float (ph\<lparr>similarity := fit\<rparr>) cv tolerance before_image before_text
        after_image after_text
      = Inr (truth_of lines before_lines (length after) slack (paired_marks mwm fit before_px before after slack))"
    by (rule derive_new_holes_Inr) (rule that; assumption)
  moreover have "dt_lines d = lines"
    using derive [of "similarity ph"] assms by (auto simp: truth_of_def split: prod.split)
  ultimately show ?thesis by blast
qed

lemma derivation_accounts:
  assumes "maximum_matching mwm"
    "derive_new_holes mwm to_float ph cv tolerance before_image before_text after_image after_text = Inr d"
  shows "sorted_wrt (<) (dt_new d)" "sorted_wrt (<) (dt_pre_existing d)"
    "set (dt_new d) \<inter> set (dt_pre_existing d) = {}"
    "set (dt_new d) \<union> set (dt_pre_existing d) = {..<length (dt_lines d)}"
    "length (dt_pre_existing d) + length (dt_only_before d) = length (dt_before_lines d)"
    "case derive_new_holes mwm to_float (ph\<lparr>similarity := \<lambda>_. None\<rparr>) cv tolerance before_image before_text
          after_image after_text of
         Inl e \<Rightarrow> False | Inr plain \<Rightarrow> length (dt_new d) \<le> length (dt_new plain)"
proof -
  from assms(2) obtain lines before_lines before_px before after afn bfn slack where
    reads: "read_export to_float after_text = Inr (lines, afn)" "length after = length afn"
      "read_export to_float before_text = Inr (before_lines, bfn)" "length before_px = length bfn"
      "length before = length before_px"
    and derive: "\<And>fit. derive_new_holes mwm to_float (ph\<lparr>similarity := fit\<rparr>) cv tolerance before_image before_text
        after_image after_text
      = Inr (truth_of lines before_lines (length after) slack (paired_marks mwm fit before_px before after slack))"
    by (rule derive_new_holes_Inr) (rule that; assumption)
  have lengths: "length after = length lines" "length before_px = length before_lines"
    using reads read_export_length by auto
  obtain pairs only_before refitted where
    p: "paired_marks mwm (similarity ph) before_px before after slack = (pairs, only_before, refitted)"
    by (metis prod.exhaust)
  have d: "d = truth_of lines before_lines (length after) slack (pairs, only_before, refitted)"
    using derive [of "similarity ph"] assms(2) p by simp
  from paired_marks_best(1) [OF assms(1) p reads(5)]
  obtain marks where marks: "length marks = length before_px" "match_marks mwm marks after slack = (pairs, only_before)"
    by auto
  note kept = match_marks_best [OF assms(1) marks(2)]
  note counts = allowed_counts [OF kept(1) kept(3)]
  obtain ps ob where first: "match_marks mwm before after slack = (ps, ob)" by (rule prod.exhaust)
  have "length ps \<le> length pairs" using paired_marks_best(2) [OF assms(1) p reads(5)] first by simp
  moreover note allowed_counts(5) [OF match_marks_best(1) [OF assms(1) first] match_marks_best(3) [OF assms(1) first]]
  moreover have "paired_marks mwm (\<lambda>_. None) before_px before after slack = (ps, ob, False)"
    using first by (simp add: paired_marks_def refit_on_matched_marks_def)
  ultimately show "sorted_wrt (<) (dt_new d)" "sorted_wrt (<) (dt_pre_existing d)"
    "set (dt_new d) \<inter> set (dt_pre_existing d) = {}"
    "set (dt_new d) \<union> set (dt_pre_existing d) = {..<length (dt_lines d)}"
    "length (dt_pre_existing d) + length (dt_only_before d) = length (dt_before_lines d)"
    "case derive_new_holes mwm to_float (ph\<lparr>similarity := \<lambda>_. None\<rparr>) cv tolerance before_image before_text
          after_image after_text of
         Inl e \<Rightarrow> False | Inr plain \<Rightarrow> length (dt_new d) \<le> length (dt_new plain)"
    using counts marks(1) lengths unfolding d derive
    by (simp_all add: truth_of_def strict_sorted_iff unmatched_def sorted_wrt_filter)
qed

text \<open>
  A derivation puts every label of the after photograph on one of two lists, new or pre-existing,
  each in order, and every label of the before photograph is the counterpart of one pre-existing mark
  or reported as without one. Adopting the refit never makes a mark that the artwork's registration
  paired into one more new Bullet Hole: without the refit there would be no fewer new ones.
\<close>

theorem derivation_accounts_for_every_label:
  assumes "maximum_matching mwm"
    "derive_new_holes mwm to_float ph cv tolerance before_image before_text after_image after_text = Inr d"
  shows "sorted_wrt (<) (dt_new d) \<and> sorted_wrt (<) (dt_pre_existing d)
    \<and> set (dt_new d) \<inter> set (dt_pre_existing d) = {}
    \<and> set (dt_new d) \<union> set (dt_pre_existing d) = {..<length (dt_lines d)}
    \<and> length (dt_pre_existing d) + length (dt_only_before d) = length (dt_before_lines d)
    \<and> (case derive_new_holes mwm to_float (ph\<lparr>similarity := \<lambda>_. None\<rparr>) cv tolerance before_image before_text
          after_image after_text of
         Inl e \<Rightarrow> False | Inr plain \<Rightarrow> length (dt_new d) \<le> length (dt_new plain))"
  using derivation_accounts [OF assms] by (intro conjI)

section \<open>The truth directory\<close>

definition DERIVED_NAME :: string where "DERIVED_NAME = ''board.new.txt''"
definition BEFORE_NAME :: string where "BEFORE_NAME = ''board.before.export.txt''"
definition AFTER_NAME :: string where "AFTER_NAME = ''board.after.export.txt''"
definition SOURCE_NAME :: string where "SOURCE_NAME = ''board.source.txt''"
definition UNPAIRED_FIELD :: string where "UNPAIRED_FIELD = ''before-marks-without-a-counterpart''"
definition PRE_EXISTING_FIELD :: string where "PRE_EXISTING_FIELD = ''pre-existing-export-lines''"

type_synonym directory = "(string \<times> string) list"

definition put_file :: "string \<Rightarrow> string \<Rightarrow> directory \<Rightarrow> directory" where
  "put_file name text dir = (name, text) # filter (\<lambda>f. fst f \<noteq> name) dir"

lemma map_of_filter_other: "k \<noteq> name \<Longrightarrow> map_of (filter (\<lambda>f. fst f \<noteq> name) dir) k = map_of dir k"
  by (induction dir) auto

lemma map_of_put_file [simp]: "map_of (put_file name text dir) = (map_of dir)(name \<mapsto> text)"
  by (rule ext) (simp add: put_file_def map_of_filter_other)

text \<open>The paths and formatted numbers the source file notes.\<close>

record source_notes =
  sn_before_image :: string
  sn_before_labels :: string
  sn_after_image :: string
  sn_after_labels :: string
  sn_correlation :: string
  sn_tolerance :: string

fun comma_separated :: "string list \<Rightarrow> string" where
  "comma_separated [] = []"
| "comma_separated [w] = w"
| "comma_separated (w # v # ws) = w @ CHR '','' # comma_separated (v # ws)"

definition source_fields :: "derived_truth \<Rightarrow> source_notes \<Rightarrow> (string \<times> string) list" where
  "source_fields d notes =
     [(''before-image'', sn_before_image notes), (''before-labels'', sn_before_labels notes),
      (''after-image'', sn_after_image notes), (''after-labels'', sn_after_labels notes),
      (''photograph-registration-correlation'', sn_correlation notes),
      (''refitted-on-matched-marks'', if dt_refitted d then ''yes'' else ''no''),
      (''match-tolerance-photo-px'', sn_tolerance notes),
      (''labelled-after'', show_nat (length (dt_lines d))),
      (''pre-existing'', show_nat (length (dt_pre_existing d))),
      (PRE_EXISTING_FIELD, comma_separated (map (\<lambda>i. show_nat (i + 1)) (dt_pre_existing d))),
      (''new-bullet-holes'', show_nat (length (dt_new d))),
      (UNPAIRED_FIELD, show_nat (length (dt_only_before d)))]"

definition field_line :: "string \<times> string \<Rightarrow> string" where
  "field_line f = fst f @ '': '' @ snd f @ [newline_char]"

definition source_text :: "derived_truth \<Rightarrow> source_notes \<Rightarrow> string" where
  "source_text d notes =
     (''# '' @ DERIVED_NAME @ '' is the after photograph'' @ [CHR 0x27] @ ''s labels minus the before photograph''
        @ [CHR 0x27] @ ''s.'') @ newline_char
     # ''# Its coordinates are normalised against the after photograph.'' @ newline_char
     # concat (map field_line (source_fields d notes))"

text \<open>
  An export is a file outside the directory, with its text, or a file of the directory itself. It is
  copied as it is when its turn comes: after the derived file has been written, the before export first.
  A file that is already the copy is left alone. \<open>None\<close> where the export is gone. Two paths are one
  file exactly when \<open>os.path.abspath\<close> makes them equal: links are left out.
\<close>

datatype export_file = Elsewhere string | Of_directory string

fun export_text :: "export_file \<Rightarrow> directory \<Rightarrow> string option" where
  "export_text (Elsewhere text) dir = Some text"
| "export_text (Of_directory name) dir = map_of dir name"

definition keep_export :: "string \<Rightarrow> export_file \<Rightarrow> directory \<Rightarrow> directory option" where
  "keep_export raw export dir =
     (if export = Of_directory raw then Some dir
      else map_option (\<lambda>text. put_file raw text dir) (export_text export dir))"

definition write_derived ::
    "derived_truth \<Rightarrow> source_notes \<Rightarrow> export_file \<Rightarrow> export_file \<Rightarrow> directory \<Rightarrow> directory option" where
  "write_derived d notes before_labels after_labels dir =
     map_option (put_file SOURCE_NAME (source_text d notes))
       (Option.bind
         (keep_export BEFORE_NAME before_labels
           (put_file DERIVED_NAME (concat (map (\<lambda>i. (dt_lines d ! i) @ [newline_char]) (dt_new d))) dir))
         (keep_export AFTER_NAME after_labels))"

text \<open>\<open>for line in open(source)\<close>: the lines with their ends.\<close>

fun raw_lines :: "string \<Rightarrow> string list" where
  "raw_lines [] = []"
| "raw_lines (c # s) =
     (if c = newline_char then [c] # raw_lines s
      else case raw_lines s of [] \<Rightarrow> [[c]] | l # ls \<Rightarrow> (c # l) # ls)"

fun find_field :: "string \<Rightarrow> string list \<Rightarrow> string option" where
  "find_field field [] = None"
| "find_field field (l # ls) =
     (if takeWhile (\<lambda>c. c \<noteq> CHR '':'') l = field then Some (strip (tl (dropWhile (\<lambda>c. c \<noteq> CHR '':'') l)))
      else find_field field ls)"

definition source_field :: "directory \<Rightarrow> string \<Rightarrow> string option" where
  "source_field dir field =
     (case map_of dir SOURCE_NAME of None \<Rightarrow> None | Some text \<Rightarrow> find_field field (raw_lines text))"

text \<open>\<open>int(s)\<close>, \<open>None\<close> where it raises (its limit of 4300 digits is left out); and \<open>xs[i]\<close>, counted from the end when negative.\<close>

definition int_of_text :: "string \<Rightarrow> int option" where
  "int_of_text s =
     (let t = strip s;
          neg = (take 1 t = ''-'');
          u = (if neg \<or> take 1 t = ''+'' then tl t else t);
          parts = split_on (CHR ''_'') u
      in if list_all (\<lambda>g. g \<noteq> [] \<and> list_all is_digit g) parts
         then let n = int (digits_value (concat parts)) in Some (if neg then - n else n)
         else None)"

definition py_index :: "'a list \<Rightarrow> int \<Rightarrow> 'a option" where
  "py_index xs i =
     (let k = if i < 0 then i + int (length xs) else i
      in if 0 \<le> k \<and> k < int (length xs) then Some (xs ! nat k) else None)"

definition unpaired_before_marks :: "directory \<Rightarrow> int option" where
  "unpaired_before_marks dir =
     (case source_field dir UNPAIRED_FIELD of None \<Rightarrow> Some 0 | Some v \<Rightarrow> if v = [] then Some 0 else int_of_text v)"

definition pre_existing_labels ::
    "(string \<Rightarrow> real option) \<Rightarrow> directory \<Rightarrow> string \<Rightarrow> truth_error + point list option" where
  "pre_existing_labels to_float dir name =
     (case (source_field dir PRE_EXISTING_FIELD, map_of dir AFTER_NAME) of
        (Some recorded, Some text) \<Rightarrow>
          if name \<noteq> DERIVED_NAME then Inr None
          else let ls = label_lines text;
                   numbered = those (map (\<lambda>n. Option.bind (int_of_text n) (\<lambda>k. py_index ls (k - 1)))
                     (filter (\<lambda>n. n \<noteq> []) (split_on (CHR '','') recorded)))
               in (case Option.bind numbered (centroids to_float) of None \<Rightarrow> Inl Raised | Some cs \<Rightarrow> Inr (Some cs))
      | _ \<Rightarrow> Inr None)"

text \<open>The one file of a directory that the pattern \<open>*\<close> and a suffix matches.\<close>

definition only_file :: "string \<Rightarrow> directory \<Rightarrow> truth_error + string" where
  "only_file suff dir =
     (case filter (\<lambda>n. suffix suff n \<and> take 1 n \<noteq> ''.'') (map fst dir) of
        [] \<Rightarrow> Inl No_match
      | [n] \<Rightarrow> Inr n
      | ns \<Rightarrow> Inl (Several_match (length ns)))"

definition truth_labels :: "directory \<Rightarrow> truth_error + string" where
  "truth_labels dir = (if map_of dir DERIVED_NAME \<noteq> None then Inr DERIVED_NAME else only_file ''.txt'' dir)"

text \<open>The photograph, and whether the operator is warned; an explicit one is the file \<open>_one\<close> gave.\<close>

definition truth_photograph ::
    "(string \<Rightarrow> string) \<Rightarrow> (string \<Rightarrow> bool) \<Rightarrow> directory \<Rightarrow> string \<Rightarrow> string option
      \<Rightarrow> truth_error + string \<times> bool" where
  "truth_photograph realpath is_file dir name explicit =
     (let recorded = source_field dir ((if name = BEFORE_NAME then ''before'' else ''after'') @ ''-image'') in
      case explicit of
        None \<Rightarrow> (case recorded of
                   None \<Rightarrow> Inl Photograph_unnamed
                 | Some r \<Rightarrow> if is_file r then Inr (r, False) else Inl (Photograph_gone r))
      | Some p \<Rightarrow> Inr (p, case recorded of None \<Rightarrow> False | Some r \<Rightarrow> realpath p \<noteq> realpath r))"

subsection \<open>What is written is read back\<close>

lemma strip_space [simp]: "py_space c \<Longrightarrow> strip (c # s) = strip s"
  by (simp add: strip_def)

lemma strip_snoc [simp]:
  assumes "py_space c"
  shows "strip (s @ [c]) = strip s"
proof (cases "\<forall>d\<in>set s. py_space d")
  case True
  then have "dropWhile py_space (s @ [c]) = []" "dropWhile py_space s = []"
    using assms by (simp_all add: dropWhile_append dropWhile_eq_Nil_conv)
  then show ?thesis by (simp only: strip_def)
next
  case False
  then obtain d where "d \<in> set s" "\<not> py_space d" by blast
  then have "dropWhile py_space (s @ [c]) = dropWhile py_space s @ [c]" by (rule dropWhile_append1)
  then show ?thesis using assms by (simp add: strip_def)
qed

lemma strip_no_space:
  assumes "\<forall>c\<in>set s. \<not> py_space c"
  shows "strip s = s"
proof -
  have kept: "dropWhile py_space t = t" if "\<forall>c\<in>set t. \<not> py_space c" for t
    using that by (cases t) simp_all
  show ?thesis using kept [of s] kept [of "rev s"] assms by (simp add: strip_def)
qed

lemma raw_lines_line: "newline_char \<notin> set l \<Longrightarrow> raw_lines (l @ newline_char # s) = (l @ [newline_char]) # raw_lines s"
  by (induction l) auto

lemma cut_at_first:
  "c \<notin> set s \<Longrightarrow> takeWhile (\<lambda>d. d \<noteq> c) (s @ c # t) = s"
  "c \<notin> set s \<Longrightarrow> dropWhile (\<lambda>d. d \<noteq> c) (s @ c # t) = c # t"
  by (induction s) auto

definition one_line :: "string \<Rightarrow> bool" where
  "one_line s \<longleftrightarrow> newline_char \<notin> set s \<and> CHR 0x0D \<notin> set s"

lemma find_field_fields:
  assumes "\<forall>f\<in>set fs. newline_char \<notin> set (fst f) \<and> newline_char \<notin> set (snd f) \<and> CHR '':'' \<notin> set (fst f)"
  shows "find_field field (raw_lines (concat (map field_line fs))) = map_option strip (map_of fs field)"
  using assms
proof (induction fs)
  case (Cons f fs)
  have space: "py_space newline_char" "py_space (CHR '' '')"
    by (simp_all add: py_space_def newline_char_def)
  have "newline_char \<notin> set (fst f @ '': '' @ snd f)" using Cons.prems by (auto simp: newline_char_def)
  then have "raw_lines (concat (map field_line (f # fs)))
      = (fst f @ '': '' @ snd f @ [newline_char]) # raw_lines (concat (map field_line fs))"
    using raw_lines_line [of "fst f @ '': '' @ snd f"] by (simp add: field_line_def)
  moreover have "takeWhile (\<lambda>c. c \<noteq> CHR '':'') (fst f @ '': '' @ snd f @ [newline_char]) = fst f"
    "dropWhile (\<lambda>c. c \<noteq> CHR '':'') (fst f @ '': '' @ snd f @ [newline_char]) = '': '' @ snd f @ [newline_char]"
    using Cons.prems cut_at_first [of "CHR '':''" "fst f"] by simp_all
  moreover have "strip (tl ('': '' @ snd f @ [newline_char])) = strip (snd f)" using space by simp
  ultimately have "find_field field (raw_lines (concat (map field_line (f # fs))))
      = (if fst f = field then Some (strip (snd f)) else find_field field (raw_lines (concat (map field_line fs))))"
    by (simp only: find_field.simps)
  then show ?case using Cons by (cases f) simp
qed simp

text \<open>The source file as it reads back: the notes are one line each.\<close>

definition notes_ok :: "source_notes \<Rightarrow> bool" where
  "notes_ok notes \<longleftrightarrow> list_all one_line [sn_before_image notes, sn_before_labels notes, sn_after_image notes,
     sn_after_labels notes, sn_correlation notes, sn_tolerance notes]"

lemma digits_not: "\<not> is_digit c \<Longrightarrow> c \<notin> set (show_nat n)"
  using show_nat_digits by blast

lemma digit_no_space: "is_digit c \<Longrightarrow> \<not> py_space c"
  by (auto simp: is_digit_def py_space_def Let_def)

lemma strip_show_nat [simp]: "strip (show_nat n) = show_nat n"
  by (rule strip_no_space) (auto dest: show_nat_digits digit_no_space)

lemma set_comma_separated: "c \<in> set (comma_separated ws) \<Longrightarrow> c = CHR '','' \<or> (\<exists>w\<in>set ws. c \<in> set w)"
  by (induction ws rule: comma_separated.induct) auto

lemma split_comma_separated:
  "\<forall>w\<in>set ws. w \<noteq> [] \<and> CHR '','' \<notin> set w \<Longrightarrow>
   filter (\<lambda>n. n \<noteq> []) (split_on (CHR '','') (comma_separated ws)) = ws"
  by (induction ws rule: comma_separated.induct) (simp_all add: split_on_none split_on_append)

lemma int_of_shown [simp]: "int_of_text (show_nat n) = Some (int n)"
proof -
  have digits: "list_all is_digit (show_nat n)" using show_nat_digits by (auto simp: list_all_iff)
  obtain c s where s: "show_nat n = c # s" by (cases "show_nat n") simp_all
  then have "is_digit c" using digits by simp
  then have "c \<noteq> CHR ''-''" "c \<noteq> CHR ''+''" by (auto simp: is_digit_def)
  then have "take 1 (show_nat n) \<noteq> ''-''" "take 1 (show_nat n) \<noteq> ''+''" using s by simp_all
  moreover have "split_on (CHR ''_'') (show_nat n) = [show_nat n]"
    by (intro split_on_none digits_not) (simp add: is_digit_def)
  ultimately show ?thesis using digits by (simp add: int_of_text_def Let_def)
qed

lemma source_fields_plain:
  assumes "notes_ok notes" "f \<in> set (source_fields d notes)"
  shows "newline_char \<notin> set (fst f) \<and> newline_char \<notin> set (snd f) \<and> CHR '':'' \<notin> set (fst f)"
proof -
  have "newline_char \<notin> set (show_nat n)" for n by (rule digits_not) (simp add: is_digit_def newline_char_def)
  moreover from this have "newline_char \<notin> set (comma_separated (map (\<lambda>i. show_nat (i + 1)) is))" for "is"
    by (auto dest!: set_comma_separated) (simp add: newline_char_def)
  ultimately show ?thesis
    using assms
    by (auto simp: source_fields_def notes_ok_def one_line_def newline_char_def PRE_EXISTING_FIELD_def UNPAIRED_FIELD_def
        split: if_splits)
qed

lemma source_field_written:
  assumes "notes_ok notes" "field \<in> fst ` set (source_fields d notes)"
    and w: "write_derived d notes before_labels after_labels dir = Some written"
  shows "source_field written field
    = map_option strip (map_of (source_fields d notes) field)"
proof -
  let ?one = "''# '' @ DERIVED_NAME @ '' is the after photograph'' @ [CHR 0x27] @ ''s labels minus the before photograph''
        @ [CHR 0x27] @ ''s.''"
  let ?two = "''# Its coordinates are normalised against the after photograph.''"
  have "newline_char \<notin> set ?one" "newline_char \<notin> set ?two"
    by (simp_all add: newline_char_def DERIVED_NAME_def)
  note cuts = this
  have lines: "raw_lines (source_text d notes) = (?one @ [newline_char]) # (?two @ [newline_char])
      # raw_lines (concat (map field_line (source_fields d notes)))"
    unfolding source_text_def by (simp only: raw_lines_line [OF cuts(1)] raw_lines_line [OF cuts(2)])
  have "takeWhile (\<lambda>c. c \<noteq> CHR '':'') (?one @ [newline_char]) \<noteq> field"
    "takeWhile (\<lambda>c. c \<noteq> CHR '':'') (?two @ [newline_char]) \<noteq> field"
    using assms(2) by (auto simp: source_fields_def PRE_EXISTING_FIELD_def UNPAIRED_FIELD_def newline_char_def DERIVED_NAME_def)
  then have "find_field field (raw_lines (source_text d notes)) = map_option strip (map_of (source_fields d notes) field)"
    unfolding lines using source_fields_plain [OF assms(1)] by (simp add: find_field_fields)
  then show ?thesis using w by (auto simp: source_field_def write_derived_def)
qed

lemma py_index_nth: "i < length xs \<Longrightarrow> py_index xs (int (Suc i) - 1) = Some (xs ! i)"
  by (simp add: py_index_def)

text \<open>The derived file holds the new labels; the numbers noted are those of the pre-existing ones.\<close>

lemma centres_of_lines:
  assumes "read_export to_float text = Inr (ls, cs)" "set is \<subseteq> {..<length ls}"
  shows "map (label_centroid \<circ> numbers_of to_float) (map ((!) ls) is) = map ((!) cs) is"
    "\<forall>l\<in>set (map ((!) ls) is). whole_line l \<and> 4 \<le> length (values_of l) \<and> even (length (values_of l))
       \<and> (\<forall>w\<in>set (values_of l). to_float w \<noteq> None)"
proof -
  show "map (label_centroid \<circ> numbers_of to_float) (map ((!) ls) is) = map ((!) cs) is"
    using assms(2) by (auto simp: read_export_Inr(2) [OF assms(1)])
  have "set (map ((!) ls) is) \<subseteq> set ls" using assms(2) by auto
  then show "\<forall>l\<in>set (map ((!) ls) is). whole_line l \<and> 4 \<le> length (values_of l) \<and> even (length (values_of l))
       \<and> (\<forall>w\<in>set (values_of l). to_float w \<noteq> None)"
    using read_export_Inr(3) [OF assms(1)] by blast
qed

lemma derived_file_reads_back:
  assumes "read_export to_float text = Inr (ls, cs)" "set is \<subseteq> {..<length ls}"
  shows "load_labels to_float (concat (map (\<lambda>i. (ls ! i) @ [newline_char]) is)) = Some (map ((!) cs) is, 0)"
proof -
  note lines = centres_of_lines [OF assms]
  have "word_lines (concat (map (\<lambda>i. (ls ! i) @ [newline_char]) is)) = map words_of (map ((!) ls) is)"
    using word_lines_written [of "map ((!) ls) is"] lines(2) by (simp add: comp_def)
  then show ?thesis using lines(2) unfolding lines(1) [symmetric] by (intro load_labels_undamaged) blast+
qed

lemma numbered_lines_read_back:
  assumes "read_export to_float text = Inr (ls, cs)" "set is \<subseteq> {..<length ls}"
  defines "noted \<equiv> comma_separated (map (\<lambda>i. show_nat (i + 1)) is)"
  shows "those (map (\<lambda>n. Option.bind (int_of_text n) (\<lambda>k. py_index (label_lines text) (k - 1)))
      (filter (\<lambda>n. n \<noteq> []) (split_on (CHR '','') noted))) = Some (map ((!) ls) is)"
    "centroids to_float (map ((!) ls) is) = Some (map ((!) cs) is)" "strip noted = noted"
proof -
  note lines = centres_of_lines [OF assms(1,2)]
  have "filter (\<lambda>n. n \<noteq> []) (split_on (CHR '','') noted) = map (\<lambda>i. show_nat (i + 1)) is"
    unfolding noted_def by (rule split_comma_separated) (auto dest!: show_nat_digits simp: is_digit_def)
  then show "those (map (\<lambda>n. Option.bind (int_of_text n) (\<lambda>k. py_index (label_lines text) (k - 1)))
      (filter (\<lambda>n. n \<noteq> []) (split_on (CHR '','') noted))) = Some (map ((!) ls) is)"
    unfolding those_Some read_export_Inr(1) [OF assms(1), symmetric] using assms(2)
    by (auto simp: py_index_nth simp del: of_nat_Suc)
  show "centroids to_float (map ((!) ls) is) = Some (map ((!) cs) is)"
    unfolding lines(1) [symmetric] using lines(2) by (intro centroids_undamaged) blast+
  have "\<forall>c\<in>set noted. \<not> py_space c"
    by (auto simp: noted_def dest!: set_comma_separated show_nat_digits digit_no_space) (simp add: py_space_def)
  then show "strip noted = noted" by (rule strip_no_space)
qed

lemma keep_export_elsewhere:
  assumes "keep_export raw export dir = Some kept" "name \<noteq> raw"
  shows "map_of kept name = map_of dir name"
  using assms by (auto simp: keep_export_def split: if_splits)

text \<open>The after export is still what was read when its turn comes to be copied.\<close>

definition outlives_copies :: "export_file \<Rightarrow> export_file \<Rightarrow> bool" where
  "outlives_copies before_labels after_labels \<longleftrightarrow>
     after_labels \<noteq> Of_directory DERIVED_NAME
     \<and> (after_labels = Of_directory BEFORE_NAME \<longrightarrow> before_labels = Of_directory BEFORE_NAME)"

text \<open>An export that is the directory's derived file is lost: what is kept in its place is the new derived file.\<close>

lemma overwritten_export_is_lost:
  assumes "write_derived d notes before_labels (Of_directory DERIVED_NAME) dir = Some written"
  shows "map_of written AFTER_NAME = map_of written DERIVED_NAME
    \<and> map_of written DERIVED_NAME = Some (concat (map (\<lambda>i. (dt_lines d ! i) @ [newline_char]) (dt_new d)))"
proof -
  have "distinct [DERIVED_NAME, BEFORE_NAME, AFTER_NAME, SOURCE_NAME]"
    by (simp add: DERIVED_NAME_def BEFORE_NAME_def AFTER_NAME_def SOURCE_NAME_def)
  then show ?thesis
    using assms by (auto simp: write_derived_def keep_export_def bind_eq_Some_conv split: if_splits)
qed

lemma noted_fields:
  assumes "notes_ok notes" and w: "write_derived d notes before_labels after_labels dir = Some written"
    and after: "export_text after_labels dir = Some after_text" "outlives_copies before_labels after_labels"
  shows "source_field written UNPAIRED_FIELD = Some (show_nat (length (dt_only_before d)))"
    "source_field written PRE_EXISTING_FIELD
       = Some (strip (comma_separated (map (\<lambda>i. show_nat (i + 1)) (dt_pre_existing d))))"
    "source_field written ''after-image'' = Some (strip (sn_after_image notes))"
    "map_of written DERIVED_NAME = Some (concat (map (\<lambda>i. (dt_lines d ! i) @ [newline_char]) (dt_new d)))"
    "map_of written AFTER_NAME = Some after_text"
proof -
  have fields: "map_of (source_fields d notes) UNPAIRED_FIELD = Some (show_nat (length (dt_only_before d)))"
    "map_of (source_fields d notes) PRE_EXISTING_FIELD
      = Some (comma_separated (map (\<lambda>i. show_nat (i + 1)) (dt_pre_existing d)))"
    "map_of (source_fields d notes) ''after-image'' = Some (sn_after_image notes)"
    by (simp_all add: source_fields_def PRE_EXISTING_FIELD_def UNPAIRED_FIELD_def)
  then have in_fields: "UNPAIRED_FIELD \<in> fst ` set (source_fields d notes)"
    "PRE_EXISTING_FIELD \<in> fst ` set (source_fields d notes)" "''after-image'' \<in> fst ` set (source_fields d notes)"
    by (force dest: map_of_SomeD)+
  note written_field = source_field_written [OF assms(1) _ w]
  show "source_field written UNPAIRED_FIELD = Some (show_nat (length (dt_only_before d)))"
    "source_field written PRE_EXISTING_FIELD
       = Some (strip (comma_separated (map (\<lambda>i. show_nat (i + 1)) (dt_pre_existing d))))"
    "source_field written ''after-image'' = Some (strip (sn_after_image notes))"
    by (simp_all only: in_fields [THEN written_field] fields option.map strip_show_nat)
  obtain kept copied where k: "keep_export BEFORE_NAME before_labels
        (put_file DERIVED_NAME (concat (map (\<lambda>i. (dt_lines d ! i) @ [newline_char]) (dt_new d))) dir) = Some kept"
    "keep_export AFTER_NAME after_labels kept = Some copied" "written = put_file SOURCE_NAME (source_text d notes) copied"
    using w by (auto simp: write_derived_def bind_eq_Some_conv)
  have names: "DERIVED_NAME \<noteq> BEFORE_NAME" "DERIVED_NAME \<noteq> AFTER_NAME" "DERIVED_NAME \<noteq> SOURCE_NAME"
    "BEFORE_NAME \<noteq> AFTER_NAME" "AFTER_NAME \<noteq> SOURCE_NAME"
    by (simp_all add: DERIVED_NAME_def BEFORE_NAME_def AFTER_NAME_def SOURCE_NAME_def)
  show "map_of written DERIVED_NAME = Some (concat (map (\<lambda>i. (dt_lines d ! i) @ [newline_char]) (dt_new d)))"
    using names by (simp add: k(3) keep_export_elsewhere [OF k(2)] keep_export_elsewhere [OF k(1)])
  have "export_text after_labels kept = Some after_text"
  proof (cases after_labels)
    case (Of_directory name)
    then have "name \<noteq> DERIVED_NAME" "name = BEFORE_NAME \<Longrightarrow> before_labels = Of_directory BEFORE_NAME"
      using after(2) by (auto simp: outlives_copies_def)
    then show ?thesis
      using after(1) k(1) keep_export_elsewhere [OF k(1), of name] Of_directory
      by (cases "name = BEFORE_NAME") (auto simp: keep_export_def)
  qed (use after in simp)
  then show "map_of written AFTER_NAME = Some after_text"
    using k(2) names by (auto simp: k(3) keep_export_def split: if_splits)
qed

text \<open>
  C35. Truth derived from two exports and written to any directory reads back as it was derived. The
  labels scored against are the new marks of the after export, in order and none damaged; the marks
  that check the placement are all its others, in order; the before marks left unpaired are as many as
  were found; and the photograph is the one the labels were drawn on, refused if it has been moved. The
  after export is kept as it was read. The exports may be files of the directory, but not the after
  export one of those overwritten before it is copied; the paths noted are one line each, the
  photograph's without spaces around it.
\<close>

theorem written_truth_reads_back:
  assumes "maximum_matching mwm"
    "derive_new_holes mwm to_float ph cv tolerance before_image before_text after_image after_text = Inr d"
    "notes_ok notes" and path: "strip (sn_after_image notes) = sn_after_image notes"
    and w: "write_derived d notes before_labels after_labels dir = Some written"
    and after: "export_text after_labels dir = Some after_text" "outlives_copies before_labels after_labels"
  shows "\<exists>cs. read_export to_float after_text = Inr (dt_lines d, cs)
    \<and> map_of written AFTER_NAME = Some after_text
    \<and> truth_labels written = Inr DERIVED_NAME
    \<and> map_option (load_labels to_float) (map_of written DERIVED_NAME) = Some (Some (map ((!) cs) (dt_new d), 0))
    \<and> pre_existing_labels to_float written DERIVED_NAME = Inr (Some (map ((!) cs) (dt_pre_existing d)))
    \<and> mset (dt_new d @ dt_pre_existing d) = mset [0..<length cs]
    \<and> unpaired_before_marks written = Some (int (length (dt_only_before d)))
    \<and> truth_photograph realpath is_file written DERIVED_NAME None
        = (if is_file (sn_after_image notes) then Inr (sn_after_image notes, False)
           else Inl (Photograph_gone (sn_after_image notes)))"
proof -
  note accounts = derivation_accounts [OF assms(1,2)]
  obtain cs where export: "read_export to_float after_text = Inr (dt_lines d, cs)" "length cs = length (dt_lines d)"
    using derived_lines [OF assms(2)] read_export_length by blast
  have within: "set (dt_new d) \<subseteq> {..<length (dt_lines d)}" "set (dt_pre_existing d) \<subseteq> {..<length (dt_lines d)}"
    using accounts(4) by auto
  note files = noted_fields [OF assms(3) w after]
  note numbered = numbered_lines_read_back [OF export(1) within(2)]
  have "pre_existing_labels to_float written DERIVED_NAME = Inr (Some (map ((!) cs) (dt_pre_existing d)))"
    using numbered by (simp add: pre_existing_labels_def files Let_def)
  moreover have "mset (dt_new d @ dt_pre_existing d) = mset [0..<length cs]"
    using accounts(1-4) export(2)
    by (subst set_eq_iff_mset_eq_distinct [symmetric]) (auto simp: strict_sorted_iff lessThan_atLeast0)
  moreover have "truth_labels written = Inr DERIVED_NAME" by (simp add: truth_labels_def files)
  moreover have "unpaired_before_marks written = Some (int (length (dt_only_before d)))"
    by (simp add: unpaired_before_marks_def files)
  moreover have "truth_photograph realpath is_file written DERIVED_NAME None
      = (if is_file (sn_after_image notes) then Inr (sn_after_image notes, False)
         else Inl (Photograph_gone (sn_after_image notes)))"
    using files(3) path by (simp add: truth_photograph_def DERIVED_NAME_def BEFORE_NAME_def)
  ultimately show ?thesis using export(1) derived_file_reads_back [OF export(1) within(1)] files(4,5) by auto
qed

section \<open>A small derivation\<close>

definition sample_float :: "string \<Rightarrow> real option" where
  "sample_float w = Some (real (length w))"

definition sample_photographs :: "nat photographs" where
  "sample_photographs =
     \<lparr>photo_at = \<lambda>path. Some 1, size_of = \<lambda>img. (1, 1), registered = \<lambda>before after target. as_matrix 1 (0, 0),
      similarity = \<lambda>pairs. None\<rparr>"

definition sample_notes :: source_notes where
  "sample_notes = \<lparr>sn_before_image = ''b.jpg'', sn_before_labels = ''b.txt'', sn_after_image = ''a.jpg'',
     sn_after_labels = ''a.txt'', sn_correlation = ''0.9'', sn_tolerance = ''40.0''\<rparr>"

definition sample_before :: string where "sample_before = ''0 1 1 1 1''"
definition sample_after :: string where
  "sample_after = ''0 1 1 1 1'' @ [newline_char] @ ''0 300 20 1 1'' @ [newline_char]"

lemma sample_lines:
  "label_lines sample_before = [''0 1 1 1 1'']" "label_lines sample_after = [''0 1 1 1 1'', ''0 300 20 1 1'']"
  "values_of ''0 1 1 1 1'' = [''1'', ''1'', ''1'', ''1'']" "values_of ''0 300 20 1 1'' = [''300'', ''20'', ''1'', ''1'']"
  by code_simp+

lemma sample_exports:
  "read_export sample_float sample_before = Inr ([''0 1 1 1 1''], [(1, 1)])"
  "read_export sample_float sample_after = Inr ([''0 1 1 1 1'', ''0 300 20 1 1''], [(1, 1), (3, 2)])"
  by (simp_all add: read_export_def load_labels_def Let_def sample_lines damaged_lines_def centroids_def
      sample_float_def label_centroid_def)

lemma sample_derives:
  "\<exists>d. derive_new_holes try_all sample_float sample_photographs sample_vision 40 ''b.jpg'' sample_before ''a.jpg''
     sample_after = Inr d"
  by (simp add: derive_new_holes_def sample_exports photograph_def sample_photographs_def Let_def
      sample_vision_def split: prod.split)

theorem derivation_accounts_for_every_label_witness:
  "case derive_new_holes try_all sample_float sample_photographs sample_vision 40 ''b.jpg'' sample_before ''a.jpg''
     sample_after of
     Inl e \<Rightarrow> False
   | Inr d \<Rightarrow> set (dt_new d) \<union> set (dt_pre_existing d) = {0, 1}"
proof -
  obtain d where d: "derive_new_holes try_all sample_float sample_photographs sample_vision 40 ''b.jpg'' sample_before
     ''a.jpg'' sample_after = Inr d"
    using sample_derives by blast
  have "dt_lines d = [''0 1 1 1 1'', ''0 300 20 1 1'']" using derived_lines [OF d] sample_exports(2) by auto
  then have "length (dt_lines d) = 2" by simp
  then show ?thesis
    using derivation_accounts_for_every_label [OF try_all_maximum d] by (auto simp: d)
qed

theorem written_truth_reads_back_witness:
  "case derive_new_holes try_all sample_float sample_photographs sample_vision 40 ''b.jpg'' sample_before ''a.jpg''
     sample_after of
     Inl e \<Rightarrow> False
   | Inr d \<Rightarrow> truth_photograph id (\<lambda>_. True)
       (the (write_derived d sample_notes (Elsewhere sample_before) (Of_directory ''a.txt'') [(''a.txt'', sample_after)]))
       DERIVED_NAME None
       = Inr (''a.jpg'', False)"
proof -
  obtain d where d: "derive_new_holes try_all sample_float sample_photographs sample_vision 40 ''b.jpg'' sample_before
     ''a.jpg'' sample_after = Inr d"
    using sample_derives by blast
  have noted: "notes_ok sample_notes" "strip (sn_after_image sample_notes) = sn_after_image sample_notes"
    by code_simp+
  obtain written where w: "write_derived d sample_notes (Elsewhere sample_before) (Of_directory ''a.txt'')
      [(''a.txt'', sample_after)] = Some written"
    by (simp add: write_derived_def keep_export_def put_file_def DERIVED_NAME_def BEFORE_NAME_def AFTER_NAME_def)
  have after: "export_text (Of_directory ''a.txt'') [(''a.txt'', sample_after)] = Some sample_after"
    "outlives_copies (Elsewhere sample_before) (Of_directory ''a.txt'')"
    by (simp_all add: outlives_copies_def DERIVED_NAME_def BEFORE_NAME_def)
  show ?thesis
    using written_truth_reads_back [OF try_all_maximum d noted w after,
        where realpath = id and is_file = "\<lambda>_. True"]
    by (auto simp: d w) (simp add: sample_notes_def)
qed

end
