(* ===== verification/Moved_Run.thy ===== *)
theory Moved_Run
  imports Board_Registration
begin

text \<open>
  A Run over a Recording with the Board moved (\<open>ImageRecognitionService/tools/evaluate.py\<close>): reading
  \<open>--move\<close>, refusing one that would move nothing or the baseline, and the source that warps every frame
  from the move on. \<open>to_float\<close> is Python's \<open>float\<close>, \<open>None\<close> where it raises; OpenCV's warp and its
  matrix of a turn are parameters. A refusal gives what \<open>SystemExit\<close> says it is for.
\<close>

section \<open>The move\<close>

record move =
  mv_at :: real
  mv_dx :: real
  mv_dy :: real
  mv_deg :: real

fun finite_values :: "py_float option list \<Rightarrow> real list option" where
  "finite_values [] = Some []"
| "finite_values (Some (Finite x) # vs) = map_option ((#) x) (finite_values vs)"
| "finite_values (_ # vs) = None"

definition parse_move :: "(string \<Rightarrow> py_float option) \<Rightarrow> string \<Rightarrow> move option" where
  "parse_move to_float text =
     (case split_on (CHR '':'') text of
        [at_text, shift] \<Rightarrow>
          (case finite_values (map to_float (at_text # split_on (CHR '','') shift)) of
             Some [a, x, y] \<Rightarrow> Some \<lparr>mv_at = a, mv_dx = x, mv_dy = y, mv_deg = 0\<rparr>
           | Some [a, x, y, g] \<Rightarrow> Some \<lparr>mv_at = a, mv_dx = x, mv_dy = y, mv_deg = g\<rparr>
           | _ \<Rightarrow> None)
      | _ \<Rightarrow> None)"

section \<open>The first frame moved\<close>

text \<open>\<open>float(f"{t:.2f}")\<close>: the nearest hundredth, the even one of two as near.\<close>

definition nearest_even :: "real \<Rightarrow> int" where
  "nearest_even x =
     (let k = \<lfloor>x\<rfloor>; d = x - of_int k in
      if d < 1 / 2 then k else if 1 / 2 < d then k + 1 else if even k then k else k + 1)"

definition printed_time :: "real \<Rightarrow> real" where
  "printed_time t = of_int (nearest_even (100 * t)) / 100"

partial_function (option) moved_from :: "real \<Rightarrow> real \<Rightarrow> real \<Rightarrow> nat \<Rightarrow> nat option" where
  "moved_from instant start rate i =
     (if printed_time (start + real i / rate) < instant then moved_from instant start rate (i + 1)
      else Some i)"

definition first_moved_index :: "real \<Rightarrow> real \<Rightarrow> real \<Rightarrow> nat option" where
  "first_moved_index instant start rate = moved_from instant start rate (nat (max 0 \<lfloor>(instant - start - 1 / 100) * rate\<rfloor>))"

lemma nearest_even_bounds: "x - 1 / 2 \<le> of_int (nearest_even x)" "of_int (nearest_even x) \<le> x + 1 / 2"
  by (auto simp: nearest_even_def Let_def) linarith+

lemma printed_time_bounds: "t - 1 / 200 \<le> printed_time t" "printed_time t \<le> t + 1 / 200"
  using nearest_even_bounds [of "100 * t"] by (simp_all add: printed_time_def field_simps)

lemma moved_from_reaches:
  assumes "k \<le> n" "instant \<le> printed_time (start + real n / rate)"
  shows "\<exists>i. moved_from instant start rate k = Some i \<and> k \<le> i \<and> instant \<le> printed_time (start + real i / rate)
    \<and> (\<forall>j\<in>{k..<i}. printed_time (start + real j / rate) < instant)"
  using assms
proof (induction "n - k" arbitrary: k)
  case 0
  then have "k = n" by simp
  then show ?case using 0 by (intro exI [of _ k]) (simp add: moved_from.simps)
next
  case (Suc m)
  show ?case
  proof (cases "printed_time (start + real k / rate) < instant")
    case False
    then show ?thesis by (intro exI [of _ k]) (simp add: moved_from.simps)
  next
    case True
    have "m = n - Suc k" "Suc k \<le> n" using Suc by auto
    then obtain i where i: "moved_from instant start rate (Suc k) = Some i" "Suc k \<le> i"
        "instant \<le> printed_time (start + real i / rate)" "\<forall>j\<in>{Suc k..<i}. printed_time (start + real j / rate) < instant"
      using Suc.hyps(1) [of "Suc k"] Suc.prems(2) by blast
    have "moved_from instant start rate k = Some i" using True i(1) by (simp add: moved_from.simps [of _ _ _ k])
    moreover have "\<forall>j\<in>{k..<i}. printed_time (start + real j / rate) < instant"
    proof -
      have "{k..<i} = insert k {Suc k..<i}" using i(2) by auto
      then show ?thesis using i(4) True by simp
    qed
    ultimately show ?thesis using i(2,3) by (intro exI [of _ i]) simp
  qed
qed

lemma first_moved_index_least:
  assumes "0 < rate"
  shows "\<exists>i. first_moved_index instant start rate = Some i \<and> instant \<le> printed_time (start + real i / rate)
    \<and> (\<forall>j<i. printed_time (start + real j / rate) < instant)"
proof -
  define k where "k = nat (max 0 \<lfloor>(instant - start - 1 / 100) * rate\<rfloor>)"
  define n where "n = k + nat \<lceil>(instant - start + 1) * rate\<rceil>"
  have "(instant - start + 1) * rate \<le> real n" unfolding n_def by linarith
  then have "instant - start + 1 \<le> real n / rate" using assms by (simp add: field_simps)
  then have "instant \<le> printed_time (start + real n / rate)"
    using printed_time_bounds(1) [of "start + real n / rate"] by linarith
  then obtain i where i: "moved_from instant start rate k = Some i" "instant \<le> printed_time (start + real i / rate)"
      "\<forall>j\<in>{k..<i}. printed_time (start + real j / rate) < instant"
    using moved_from_reaches [of k n instant start rate] by (auto simp: n_def)
  have "printed_time (start + real j / rate) < instant" if "j < k" for j
  proof -
    have "real k \<le> (instant - start - 1 / 100) * rate" using that unfolding k_def by linarith
    then have "real j \<le> (instant - start - 1 / 100) * rate" using that by linarith
    then have "real j / rate \<le> instant - start - 1 / 100" using assms by (simp add: field_simps)
    then show ?thesis using printed_time_bounds(2) [of "start + real j / rate"] by linarith
  qed
  then have "\<forall>j<i. printed_time (start + real j / rate) < instant" using i(3) by (metis atLeastLessThan_iff leI)
  then show ?thesis using i(1,2) by (auto simp: first_moved_index_def k_def)
qed

text \<open>
  C33. The search for the first frame a move reaches ends, and finds the first of all whose printed time
  is the move's or later: a time read off the log moves the frame printed with it, and none before it.
\<close>

theorem first_moved_frame_is_found:
  assumes "0 < rate"
  shows "\<exists>i. first_moved_index instant start rate = Some i \<and> instant \<le> printed_time (start + real i / rate)
    \<and> (\<forall>j<i. printed_time (start + real j / rate) < instant)"
  using assms by (rule first_moved_index_least)

section \<open>Refusing a move\<close>

datatype refusal = Moves_no_pixel | Moves_the_baseline | Moves_no_look

text \<open>\<open>int(x)\<close> of a number, and whether an angle is a whole number of turns.\<close>

definition truncated :: "real \<Rightarrow> int" where
  "truncated x = (if 0 \<le> x then \<lfloor>x\<rfloor> else \<lceil>x\<rceil>)"

definition whole_turns :: "real \<Rightarrow> bool" where
  "whole_turns deg \<longleftrightarrow> of_int \<lfloor>deg / 360\<rfloor> * 360 = deg"

definition next_multiple :: "nat \<Rightarrow> nat \<Rightarrow> nat" where
  "next_multiple i every = (i + every - 1) div every * every"

definition frames_until :: "real \<Rightarrow> real \<Rightarrow> real \<Rightarrow> int" where
  "frames_until start rate until = truncated ((until - start) * rate)"

text \<open>\<open>None\<close> instant the search for the first frame would not end; else the refusal, if any.\<close>

definition refuse_move :: "move \<Rightarrow> real \<Rightarrow> real \<Rightarrow> real \<Rightarrow> nat \<Rightarrow> nat \<Rightarrow> refusal option option" where
  "refuse_move m start until rate n_base every =
     (if mv_dx m = 0 \<and> mv_dy m = 0 \<and> whole_turns (mv_deg m) then Some (Some Moves_no_pixel)
      else case first_moved_index (mv_at m) start rate of
             None \<Rightarrow> None
           | Some first \<Rightarrow>
               if first < max 1 n_base then Some (Some Moves_the_baseline)
               else if frames_until start rate until \<le> int (next_multiple first every) then Some (Some Moves_no_look)
               else Some None)"

section \<open>The moved Recording\<close>

definition move_matrix :: "'img vision \<Rightarrow> (point \<Rightarrow> real \<Rightarrow> matrix3) \<Rightarrow> move \<Rightarrow> 'img \<Rightarrow> matrix3" where
  "move_matrix cv turn_about m base =
     (let shift = as_matrix 1 (mv_dx m, mv_dy m) in
      if mv_deg m = 0 then shift
      else mat_mul (turn_about (mean_point (map (centroid cv) (find_targets cv base))) (mv_deg m)) shift)"

definition moved_frame :: "nat \<Rightarrow> ('img \<Rightarrow> 'img) \<Rightarrow> nat \<times> 'img \<Rightarrow> nat \<times> 'img" where
  "moved_frame first warp f = (fst f, if fst f < first then snd f else warp (snd f))"

definition read_moved :: "nat \<Rightarrow> ('img \<Rightarrow> 'img) \<Rightarrow> 'img recording \<Rightarrow> (nat \<times> 'img) option \<times> 'img recording" where
  "read_moved first warp r =
     (case read_recording r of (f, r') \<Rightarrow> (map_option (moved_frame first warp) f, r'))"

lemma read_moved_takes: "read_moved first warp r = (Some f, r') \<Longrightarrow> length (left r') < length (left r)"
  by (auto simp: read_moved_def split: prod.splits dest: read_recording_takes)

function read_all_moved :: "nat \<Rightarrow> ('img \<Rightarrow> 'img) \<Rightarrow> 'img recording \<Rightarrow> (nat \<times> 'img) list \<times> 'img recording" where
  "read_all_moved first warp r = (case read_moved first warp r of
     (None, r') \<Rightarrow> ([], r')
   | (Some f, r') \<Rightarrow> (let (fs, r'') = read_all_moved first warp r' in (f # fs, r'')))"
  by pat_completeness auto
termination
  by (relation "measure (\<lambda>(first, warp, r). length (left r))") (auto dest: read_moved_takes [OF sym])

declare read_all_moved.simps [simp del]

lemma read_all_moved:
  "read_all_moved first warp r = (map (moved_frame first warp) (fst (read_all r)), snd (read_all r))"
proof (induction "length (left r)" arbitrary: r rule: less_induct)
  case less
  show ?case
  proof (cases "read_recording r")
    case (Pair f r')
    show ?thesis
    proof (cases f)
      case None
      then show ?thesis using Pair by (subst read_all_moved.simps, subst (1 2) read_all.simps) (simp add: read_moved_def)
    next
      case (Some g)
      then have "length (left r') < length (left r)" using Pair read_recording_takes [of r g r'] by simp
      note IH = less.hyps [OF this]
      show ?thesis using Pair Some IH
        by (subst read_all_moved.simps, subst (1 2) read_all.simps) (simp add: read_moved_def case_prod_beta)
    qed
  qed
qed

text \<open>The frames a Run reads: frame 0 is handed over as it was opened.\<close>

definition moved_frames ::
    "nat \<Rightarrow> ('img \<Rightarrow> 'img) \<Rightarrow> 'img recording \<Rightarrow> 'img \<Rightarrow> nat \<Rightarrow> nat \<Rightarrow> nat \<Rightarrow> (nat \<times> 'img) list" where
  "moved_frames first warp r base n_frames every n_base =
     (if n_frames > 0 then [(0, base)] else [])
     @ fst (read_all_moved first warp (start_recording r n_frames every n_base))"

lemma moved_frames_map:
  assumes "0 < first"
  shows "moved_frames first warp r base n every n_base
    = map (moved_frame first warp) (fst (recording_frames r base n every n_base))"
  using assms by (simp add: moved_frames_def recording_frames_def read_all_moved moved_frame_def case_prod_beta)

lemma next_multiple:
  assumes "0 < every"
  shows "i \<le> next_multiple i every" "next_multiple i every mod every = 0" "next_multiple i every < i + every"
proof -
  have "next_multiple i every + (i + every - 1) mod every = i + every - 1" by (simp add: next_multiple_def)
  moreover have "(i + every - 1) mod every < every" using assms by simp
  ultimately show "i \<le> next_multiple i every" "next_multiple i every < i + every" using assms by linarith+
  show "next_multiple i every mod every = 0" by (simp add: next_multiple_def)
qed

lemma next_multiple_least:
  assumes "0 < every" "i \<le> k" "k mod every = 0"
  shows "next_multiple i every \<le> k"
proof -
  obtain a b where k: "k = every * a" and n: "next_multiple i every = every * b"
    using assms(3) next_multiple(2) [OF assms(1), of i] by (auto simp: mod_0_imp_dvd elim!: dvdE)
  have "every * b < every * Suc a"
    using next_multiple(3) [OF assms(1), of i] assms(2) unfolding n k by simp
  then have "b < Suc a" by (simp only: mult_less_cancel1)
  then show ?thesis unfolding n k by simp
qed

lemma accepted_move:
  assumes "refuse_move m start until rate n_base every = Some None"
  obtains first where "first_moved_index (mv_at m) start rate = Some first" "max 1 n_base \<le> first"
    "int (next_multiple first every) < frames_until start rate until"
    "mv_dx m \<noteq> 0 \<or> mv_dy m \<noteq> 0 \<or> \<not> whole_turns (mv_deg m)"
proof -
  obtain first where first: "first_moved_index (mv_at m) start rate = Some first"
    using assms by (cases "first_moved_index (mv_at m) start rate") (auto simp: refuse_move_def split: if_splits)
  show thesis
    using assms first by (intro that [of first]) (auto simp: refuse_move_def split: if_splits)
qed

lemma taken_index: "f \<in> set (take b (take n (enumerate 0 xs))) \<Longrightarrow> fst f < b"
  by (auto simp: in_set_conv_nth nth_enumerate_eq)

lemma taken_frame: "k < n \<Longrightarrow> k < length xs \<Longrightarrow> (k, xs ! k) \<in> set (take n (enumerate 0 xs))"
  by (auto simp: in_set_conv_nth nth_enumerate_eq intro!: exI [of _ k])

lemma taken_bound: "(k, x) \<in> set (take n (enumerate 0 xs)) \<Longrightarrow> k < length xs"
  by (auto simp: in_set_conv_nth nth_enumerate_eq)

lemma take_filter_early:
  assumes "\<And>x. x \<in> set (take b xs) \<Longrightarrow> P x"
  shows "take b (filter P xs) = take b xs"
proof (cases "b \<le> length xs")
  case True
  have "filter P xs = take b xs @ filter P (drop b xs)"
    using assms filter_append [of P "take b xs" "drop b xs"] by (simp add: filter_id_conv)
  then show ?thesis using True by simp
next
  case False
  then have "filter P xs = xs" using assms by (simp add: filter_id_conv)
  then show ?thesis by simp
qed

text \<open>
  C34. What a move that is not refused moves. The frames before the first one it reaches, the baseline's
  among them, are handed over as the Recording holds them, so Board space and the baseline are the
  unmoved Run's; every frame from it on is warped; and a frame past the baseline that the Run looks at
  is among those exactly when the file reaches the first Look from the move on. Refusing looks at the
  end asked for and not at the file: a Recording cut short before that Look is run with nothing moved.
\<close>

theorem accepted_move_moves_a_look:
  assumes "0 < every" "refuse_move m start until rate n_base every = Some None"
    "first_moved_index (mv_at m) start rate = Some first"
    and n: "n = nat (frames_until start rate until)"
    and frames: "frames = moved_frames first warp r base n every (max 1 n_base)"
  shows "frames = map (\<lambda>(i, img). (i, if i < first then img else warp img))
        (fst (recording_frames r base n every (max 1 n_base)))
    \<and> take (max 1 n_base) frames = take (max 1 n_base) (fst (recording_frames r base n every (max 1 n_base)))
    \<and> ((\<exists>i. max 1 n_base \<le> i \<and> first \<le> i \<and> (i, warp ((base # left r) ! i)) \<in> set frames)
         \<longleftrightarrow> next_multiple first every < length (base # left r))"
proof (intro conjI)
  let ?b = "max 1 n_base" and ?k = "next_multiple first every"
  have first: "?b \<le> first" "?k < n"
    using assms(2,3) n by (auto elim!: accepted_move)
  note due = recording_frames_due [of n r base every ?b, THEN conjunct1]
  let ?due = "\<lambda>f. fst f = 0 \<or> looked_at_frame (fst f) every ?b"
  let ?file = "take n (enumerate 0 (base # left r))"
  have read: "fst (recording_frames r base n every ?b) = filter ?due ?file" using first(2) by (intro due) simp
  have moved: "frames = map (moved_frame first warp) (fst (recording_frames r base n every ?b))"
    unfolding frames using first(1) by (intro moved_frames_map) simp
  then show "frames = map (\<lambda>(i, img). (i, if i < first then img else warp img))
        (fst (recording_frames r base n every ?b))"
    by (simp add: moved_frame_def case_prod_beta)
  have early: "fst f < ?b" if "f \<in> set (take ?b ?file)" for f
    using that by (rule taken_index)
  then have base: "take ?b (filter ?due ?file) = take ?b ?file"
    by (intro take_filter_early) (simp add: looked_at_frame_def)
  have "map (moved_frame first warp) (take ?b ?file) = take ?b ?file"
  proof (rule map_idI)
    show "moved_frame first warp f = f" if "f \<in> set (take ?b ?file)" for f
      using less_le_trans [OF early [OF that] first(1)] by (simp add: moved_frame_def)
  qed
  then show "take ?b frames = take ?b (fst (recording_frames r base n every ?b))"
    by (simp only: moved read take_map base)
  have k: "first \<le> ?k" "?k mod every = 0" using next_multiple [OF assms(1), of first] by simp_all
  show "(\<exists>i. ?b \<le> i \<and> first \<le> i \<and> (i, warp ((base # left r) ! i)) \<in> set frames)
      \<longleftrightarrow> ?k < length (base # left r)"
  proof
    assume "\<exists>i. ?b \<le> i \<and> first \<le> i \<and> (i, warp ((base # left r) ! i)) \<in> set frames"
    then obtain i where b: "?b \<le> i" "first \<le> i" and mem: "i \<in> fst ` set frames" by force
    from mem have "i \<in> fst ` set (filter ?due ?file)"
      unfolding moved read set_map image_image by (simp add: moved_frame_def)
    then obtain x where "(i, x) \<in> set (filter ?due ?file)" by force
    note i = b this
    then have "i mod every = 0" using first(1) by (auto simp: looked_at_frame_def)
    then have "?k \<le> i" using i(2) by (intro next_multiple_least [OF assms(1)])
    moreover have "i < length (base # left r)" using i(3) taken_bound [of i x n "base # left r"] by simp
    ultimately show "?k < length (base # left r)" by simp
  next
    assume "?k < length (base # left r)"
    with first(2) have "(?k, (base # left r) ! ?k) \<in> set ?file" by (rule taken_frame)
    then have "(?k, (base # left r) ! ?k) \<in> set (fst (recording_frames r base n every ?b))"
      unfolding read using k by (simp add: looked_at_frame_def)
    then have "moved_frame first warp (?k, (base # left r) ! ?k) \<in> set frames"
      unfolding moved set_map by (rule imageI)
    then show "\<exists>i. ?b \<le> i \<and> first \<le> i \<and> (i, warp ((base # left r) ! i)) \<in> set frames"
      using k first(1) by (intro exI [of _ ?k]) (simp add: moved_frame_def)
  qed
qed

text \<open>A move at one second of a Recording of 25 frames a second, looked at every 4.\<close>

theorem first_moved_frame_is_found_witness:
  "\<exists>i. first_moved_index 1 0 25 = Some i \<and> 1 \<le> printed_time (0 + real i / 25)"
  using first_moved_frame_is_found [of 25 1 0] by auto

lemma sample_first_moved: "first_moved_index 1 0 25 = Some 25"
proof -
  have start: "nat (max 0 \<lfloor>((1::real) - 0 - 1 / 100) * 25\<rfloor>) = 24" by (simp add: floor_eq_iff)
  have "printed_time (0 + real 24 / 25) = 96 / 100" "printed_time (0 + real 25 / 25) = 1"
    by (simp_all add: printed_time_def nearest_even_def Let_def floor_eq_iff)
  then show ?thesis
    unfolding first_moved_index_def start by (subst moved_from.simps, subst moved_from.simps) simp
qed

theorem accepted_move_moves_a_look_witness:
  "\<exists>i. 4 \<le> i \<and> 25 \<le> i \<and> (i, [i, 7]) \<in> set (moved_frames 25 (\<lambda>img. img @ [7])
     \<lparr>left = map (\<lambda>i. [i]) [1..<50], fps = 25, start_s = 0, passed = 0, wanted = 0, r_stride = 1, r_baseline = 0\<rparr>
     [0] 50 4 (max 1 4))"
proof -
  let ?m = "\<lparr>mv_at = 1, mv_dx = 3, mv_dy = 0, mv_deg = 0\<rparr>"
  let ?r = "\<lparr>left = map (\<lambda>i. [i]) [1..<50], fps = 25, start_s = 0, passed = 0, wanted = 0, r_stride = 1, r_baseline = 0\<rparr>"
  have until: "frames_until 0 25 2 = 50" by (simp add: frames_until_def truncated_def)
  have "refuse_move ?m 0 2 25 4 4 = Some None"
    by (simp add: refuse_move_def sample_first_moved until next_multiple_def)
  from accepted_move_moves_a_look [of 4 ?m 0 2 25 4 25 50 _ "\<lambda>img. img @ [7]" ?r "[0]", OF _ this _ _ refl]
  obtain i where i: "4 \<le> i" "25 \<le> i"
    "(i, ([0] # left ?r) ! i @ [7]) \<in> set (moved_frames 25 (\<lambda>img. img @ [7]) ?r [0] 50 4 (max 1 4))"
    by (auto simp: sample_first_moved until next_multiple_def)
  have "i < 50"
    using i(3) recording_frames_due [of 50 ?r "[0]" 4 "max 1 4"]
    by (auto simp: moved_frames_map moved_frame_def in_set_enumerate_eq dest!: in_set_takeD)
  then have image: "([0] # left ?r) ! i @ [7] = [i, 7]" using i(2) nth_upt [of 1 "i - 1" 50] by (simp add: nth_Cons')
  show ?thesis using i(1,2) i(3) [unfolded image] by blast
qed

end
