(* ===== verification/Spec2Isabelle.thy ===== *)
theory Spec2Isabelle
  imports Ranges Live_Hub Part_Lock Run_Loop Live_Stream Detection_Ends Publisher Motion_Orders
    Detection_System Ground_Truth Moved_Run
begin

text \<open>
  A verification development of the Kanat repository, a system that finds bullet holes on a target
  board from cameras, and shows and stores them per shooting Session. All paths are under \<open>src/\<close>.

  \<^bold>\<open>The program.\<close> Four parts of it are modelled.

  \<^item> The backend (\<open>WebApp/backend/app\<close>), a FastAPI service over PostgreSQL: Sessions, their
    Bullet Holes and statistics, cameras, recordings and replays, live events for the frontends. It
    keeps MediaMTX's camera paths as its cameras table wants them, and asks the Detection Service to
    watch a Session that is recording.
  \<^item> The Detection Service (\<open>ImageRecognitionService/detection\<close>): at most one Run at a time reads a
    camera's stream, finds new holes, judges which persist, and posts the confirmed ones back to the
    backend, which stores each once.
  \<^item> The motion simulator (\<open>MotionSimulator\<close>): axes driven over a binary packet protocol on TCP.

  \<^bold>\<open>Shared.\<close> \<open>Prelude\<close>: times, errors, tables as lists of rows, decimal text, the locales
  \<open>invariant_system\<close> and \<open>monotone_system\<close> by which what is shown of each step, an invariant or a growth,
  holds in every reachable state. \<open>Py_Float\<close>: Python's floats with NaN and the infinities, their
  arithmetic and order, and \<open>min\<close> and \<open>max\<close> as Python picks between unordered floats.

  \<^bold>\<open>The backend.\<close>

  \<^item> \<open>Ranges\<close>: \<open>core/ranges.py\<close>.
  \<^item> \<open>Schemas\<close>: \<open>schemas/*.py\<close> and their validators.
  \<^item> \<open>Database\<close>: \<open>models/*.py\<close> (rows, constraints checked at commit), \<open>repositories/*.py\<close> (queries and
    updates as functions of the tables).
  \<^item> \<open>Sessions\<close>, \<open>Bullets\<close>: \<open>services/sessions.py\<close>, \<open>services/bullets.py\<close>. The lemmas show which states
    requests can reach: one active Session, one open recording interval, windows of Sessions that
    overlap by no more than racing requests are late, ranks 1 to n, a retried report stored once.
  \<^item> \<open>Grouping\<close>: \<open>services/groups.py\<close> and \<open>detection/groups.py\<close>, and that they agree.
  \<^item> \<open>Live_Hub\<close>: \<open>core/live.py\<close>; streams without gaps.
  \<^item> \<open>Cameras\<close>, \<open>Camera_Sync\<close>: \<open>services/cameras.py\<close>, \<open>mediamtx.py\<close>, \<open>camera_sync.py\<close>; MediaMTX is an
    argument with its documented behaviour. A sync round refines "the paths are as wanted".
  \<^item> \<open>Recordings\<close>, \<open>Part_Lock\<close>: \<open>services/recordings.py\<close>, first as functions of the folders, then its
    locking as interleaved steps.
  \<^item> \<open>Detection_Client\<close>, \<open>Detection_Sync\<close>, \<open>Session_Routes\<close>: \<open>services/detection_client.py\<close>,
    \<open>services/detection_sync.py\<close>, \<open>routers/sessions.py\<close> and \<open>routers/bullets.py\<close> as programs, trees of
    atomic actions. \<open>Detection_Programs\<close> gives the locale of classes of programs closed under the
    operations; \<open>Detection_Races\<close> interleaves any number of them and interprets it; \<open>Detection_Ends\<close>
    interprets it for the end of a Session that no request but another end overrides.

  \<^bold>\<open>The Detection Service.\<close> \<open>detection/new_bullet_holes.py\<close> is
  \<open>Tracks\<close> (marks, matching, displaced sightings), \<open>Persistence\<close> and \<open>Persistence_Runs\<close> (candidates
  folded and judged early, with the verdict that waiting would have given), \<open>Footage\<close>, \<open>Frame_Source\<close>
  and \<open>Live_Stream\<close> (a file's frames, and a stream read on a thread of its own, shown to be a source
  \<open>Persistence\<close> accepts) and \<open>Run_Loop\<close> (the loop and its announcer). \<open>Board_View\<close> is
  \<open>detection/board.py\<close>: Board space, views and how one is built, tracked and found again, sheets,
  scores and millimetres; \<open>Board_Registration\<close> places every frame of a Run in it, and puts the pieces
  together into a whole Run over a recording. Of \<open>tools/evaluate.py\<close>, \<open>Scoring\<close> is the matching of
  detections with labels and the score, \<open>Ground_Truth\<close> the truth derived from a pair of photographs,
  written and read back, and \<open>Moved_Run\<close> the Run with the Board moved under it.
  \<open>Detection_Service\<close> is \<open>detection/service.py\<close>, its lock sections and worker as interleaved steps;
  \<open>Publisher\<close> is \<open>detection/webapp.py\<close>, composed with \<open>Bullets\<close> at the other end. \<open>Detection_Wire\<close> is
  the control API between the two processes, the JSON one writes and the other reads;
  \<open>Detection_System\<close> puts both together, every interleaving of the backend's programs with the
  service's requests and workers.

  \<^bold>\<open>The motion simulator.\<close> \<open>Motion_Protocol\<close> is \<open>protocol.py\<close> on 8-bit words, \<open>Motion_Simulator\<close> is
  \<open>motion_simulator.py\<close>, and \<open>Motion_Orders\<close> follows an order from its bytes to the position reported.

  \<^bold>\<open>Conventions.\<close> Python's unbounded integers are \<open>int\<close> or \<open>nat\<close>; floats the code calculates with are
  real numbers, so rounding is not modelled, but NaN and the infinities are where they come in from
  outside (JSON bodies, the print scales, the motion simulator and its packets); times are whole microseconds (seconds as reals in the
  video code). A raised exception is a value of a sum type; a request that locks rows and commits is
  one step. What is concurrent in the code is a step relation with every interleaving; what a clock,
  a fresh identifier or another process answers is an argument or a nondeterministic step. No
  definition uses fuel: every loop is structurally recursive or has its termination proof, but for the
  search of \<open>first_moved_index\<close>, a partial function shown to return; and a loop that serves forever is the
  sequence of its rounds. Where the code divides by a measured length or area that no detected Target
  makes zero, the quotient is HOL's.

  \<^bold>\<open>Not modelled.\<close> The pixel work of \<open>detection/board.py\<close> and the detector's network, which is OpenCV,
  NumPy and a model file: the pipeline takes its answers as parameters (the record \<open>vision\<close>). The Excel export, logging,
  start-up and migrations, which only call libraries. The rest of the evaluation tools (they run the pipeline and
  print), the Composer and the graphical clients, and the code in other languages (\<open>PacketProcessingService\<close> in C#, the frontend in
  TypeScript).
\<close>

end
